(* ===== verification/Prelude.thy ===== *)
theory Prelude
  imports Main "HOL-Library.Word" "HOL-Library.While_Combinator"
begin

text \<open>
  The shared ground of the development.

  \<^item> The machine types of the C sources (\<^verbatim>\<open>kernel/types.h\<close>): \<open>byte\<close>, \<open>u32\<close>, \<open>u64\<close>
    are words of that width; a C \<^verbatim>\<open>int\<close> is a \<open>u32\<close> read with \<open>sint\<close>.
  \<^item> The kernel computation type \<open>K\<close>: a function of the link-time environment and the
    state to an outcome. A computation ends normally (\<open>Ok\<close>), in \<^verbatim>\<open>panic()\<close> (\<open>Panic\<close>
    with its message), by giving the CPU away for ever (\<open>Gone\<close>, with the state at the
    \<^verbatim>\<open>swtch\<close>), or it runs for ever (\<open>Diverge\<close>).
  \<^item> \<open>loopK\<close> is the C loop: its body either continues with new loop variables or leaves
    with a result; \<open>forK\<close> is a \<^verbatim>\<open>for\<close> over a fixed range with an early exit.
  \<^item> \<open>wpK\<close> is total correctness of one run (it returns, and the result satisfies the
    postcondition); \<open>keepsK\<close> is preservation of an invariant by every run that returns.
    The equations of \<open>wpK\<close> and the rules of \<open>keepsK\<close> are collected in \<open>wp\<close> and \<open>keeps\<close>.
\<close>

unbundle bit_operations_syntax

named_theorems kdefs "definitions of kernel operations, unfolded to compute a run"
named_theorems wp "weakest-precondition equations of kernel computations"
named_theorems keeps "invariant-preservation rules of kernel computations"

type_synonym byte = "8 word"
type_synonym u16 = "16 word"
type_synonym u32 = "32 word"
type_synonym i32 = "32 word"
type_synonym u64 = "64 word"
type_synonym addr = "64 word"
type_synonym mem = "addr \<Rightarrow> byte"

section \<open>Kernel computations\<close>

datatype ('s, 'a) outcome = Ok 'a 's | Panic string | Gone 's | Diverge

text \<open>
  What the C code takes from outside the C sources: the addresses the linker assigns
  (\<^verbatim>\<open>kernel.ld\<close>, the assembly files) and what the rest of the machine does between the
  moment a thread leaves the CPU in \<^verbatim>\<open>swtch\<close> for the \<open>n\<close>-th time and the moment it is
  resumed (\<open>None\<close>: it never is), and what the UART answers to the \<open>n\<close>-th question whether it can
  take another byte (\<open>tx_idle\<close>), and the bytes a local variable holds before it is written (\<open>stack_junk\<close>).
\<close>

record 's env =
  resume :: "nat \<Rightarrow> 's \<Rightarrow> 's option"
  end_sym :: addr
  etext_sym :: addr
  trampoline_sym :: addr
  forkret_sym :: addr
  usertrap_sym :: addr
  tx_idle :: "nat \<Rightarrow> bool"
  stack_junk :: "nat \<Rightarrow> 8 word"

text \<open>With this environment a run stops at its first context switch, in the state of the switch.\<close>

definition idle_env :: "'s env" where
  "idle_env = \<lparr>resume = (\<lambda>_ _. None), end_sym = 0x80022000, etext_sym = 0x80008000,
     trampoline_sym = 0x80007000, forkret_sym = 0x80001a00, usertrap_sym = 0x80002600, tx_idle = (\<lambda>_. True),
     stack_junk = (\<lambda>_. 0)\<rparr>"

lemma idle_env_simps [simp]: "resume idle_env n s = None" "end_sym idle_env = 0x80022000"
  "etext_sym idle_env = 0x80008000" "trampoline_sym idle_env = 0x80007000" "tx_idle idle_env n"
  by (simp_all add: idle_env_def)

type_synonym ('s, 'a) K = "'s env \<Rightarrow> 's \<Rightarrow> ('s, 'a) outcome"

definition returnK :: "'a \<Rightarrow> ('s, 'a) K" where
  "returnK x e s = Ok x s"

definition bindK :: "('s, 'a) K \<Rightarrow> ('a \<Rightarrow> ('s, 'b) K) \<Rightarrow> ('s, 'b) K" where
  "bindK m f e s =
     (case m e s of Ok x t \<Rightarrow> f x e t | Panic p \<Rightarrow> Panic p | Gone t \<Rightarrow> Gone t | Diverge \<Rightarrow> Diverge)"

definition thenK :: "('s, 'a) K \<Rightarrow> ('s, 'b) K \<Rightarrow> ('s, 'b) K" where
  "thenK m n = bindK m (\<lambda>_. n)"

definition panic :: "string \<Rightarrow> ('s, 'a) K" where
  "panic msg e s = Panic msg"

definition getsK :: "('s \<Rightarrow> 'a) \<Rightarrow> ('s, 'a) K" where
  "getsK f e s = Ok (f s) s"

definition askK :: "('s env \<Rightarrow> 'a) \<Rightarrow> ('s, 'a) K" where
  "askK f e s = Ok (f e) s"

definition modifyK :: "('s \<Rightarrow> 's) \<Rightarrow> ('s, unit) K" where
  "modifyK f e s = Ok () (f s)"

definition whenK :: "bool \<Rightarrow> ('s, unit) K \<Rightarrow> ('s, unit) K" where
  "whenK c m = (if c then m else returnK ())"

text \<open>A block of statements, run in order.\<close>

primrec seqK :: "('s, unit) K list \<Rightarrow> ('s, unit) K" where
  "seqK [] = returnK ()"
| "seqK (m # ms) = thenK m (seqK ms)"

lemmas monad_defs = returnK_def bindK_def thenK_def panic_def getsK_def askK_def modifyK_def whenK_def

subsection \<open>Loops\<close>

text \<open>\<open>Inl i\<close>: go round again with loop variables \<open>i\<close>; \<open>Inr a\<close>: leave with \<open>a\<close>.\<close>

definition loopK :: "('i \<Rightarrow> ('s, 'i + 'a) K) \<Rightarrow> 'i \<Rightarrow> ('s, 'a) K" where
  "loopK body i e s =
     (case while_option (\<lambda>r. case r of Ok (Inl _) _ \<Rightarrow> True | _ \<Rightarrow> False)
             (\<lambda>r. case r of Ok (Inl j) t \<Rightarrow> body j e t | _ \<Rightarrow> r) (Ok (Inl i) s) of
        Some (Ok (Inr a) t) \<Rightarrow> Ok a t
      | Some (Panic p) \<Rightarrow> Panic p
      | Some (Gone t) \<Rightarrow> Gone t
      | _ \<Rightarrow> Diverge)"

lemma while_option_start:
  "\<not> b s \<Longrightarrow> while_option b c s = Some s"
  by (subst while_option_unfold) simp

lemma loopK_unfold:
  "loopK body i e s =
     (case body i e s of
        Ok (Inl j) t \<Rightarrow> loopK body j e t
      | Ok (Inr a) t \<Rightarrow> Ok a t
      | Panic p \<Rightarrow> Panic p
      | Gone t \<Rightarrow> Gone t
      | Diverge \<Rightarrow> Diverge)"
  unfolding loopK_def
  by (subst while_option_unfold)
     (auto simp: while_option_start split: outcome.split sum.split)

primrec forK :: "'i list \<Rightarrow> ('i \<Rightarrow> ('s, 'a option) K) \<Rightarrow> ('s, 'a option) K" where
  "forK [] body = returnK None"
| "forK (i # is) body =
     bindK (body i) (\<lambda>r. case r of None \<Rightarrow> forK is body | Some a \<Rightarrow> returnK (Some a))"

primrec foreachK :: "'i list \<Rightarrow> ('i \<Rightarrow> ('s, unit) K) \<Rightarrow> ('s, unit) K" where
  "foreachK [] body = returnK ()"
| "foreachK (i # is) body = thenK (body i) (foreachK is body)"

section \<open>Reasoning about computations\<close>

definition wpK :: "('s, 'a) K \<Rightarrow> ('a \<Rightarrow> 's \<Rightarrow> bool) \<Rightarrow> 's env \<Rightarrow> 's \<Rightarrow> bool" where
  "wpK m Q e s = (case m e s of Ok x t \<Rightarrow> Q x t | _ \<Rightarrow> False)"

lemma wpK_iff: "wpK m Q e s \<longleftrightarrow> (\<exists>x t. m e s = Ok x t \<and> Q x t)"
  by (simp add: wpK_def split: outcome.split)

lemma wpKI: "m e s = Ok x t \<Longrightarrow> Q x t \<Longrightarrow> wpK m Q e s"
  by (simp add: wpK_iff)

lemma wpKE:
  assumes "wpK m Q e s"
  obtains x t where "m e s = Ok x t" and "Q x t"
  using assms by (auto simp: wpK_iff)

lemma wpK_mono: "wpK m Q e s \<Longrightarrow> (\<And>x t. Q x t \<Longrightarrow> R x t) \<Longrightarrow> wpK m R e s"
  by (auto simp: wpK_iff)

lemma wpK_Ok: "wpK m (\<lambda>x t. x = a \<and> t = u) e s \<longleftrightarrow> m e s = Ok a u"
  by (auto simp: wpK_iff)

lemma wpK_unit: "wpK m (\<lambda>_ t. t = u) e s \<longleftrightarrow> m e s = Ok () u"
  by (auto simp: wpK_iff)

lemma wp_return [wp]: "wpK (returnK x) Q e s \<longleftrightarrow> Q x s"
  by (simp add: wpK_def returnK_def)

lemma wp_bind [wp]: "wpK (bindK m f) Q e s \<longleftrightarrow> wpK m (\<lambda>x t. wpK (f x) Q e t) e s"
  by (simp add: wpK_def bindK_def split: outcome.split)

lemma wp_then [wp]: "wpK (thenK m n) Q e s \<longleftrightarrow> wpK m (\<lambda>x t. wpK n Q e t) e s"
  by (simp add: thenK_def wp_bind)

lemma wp_gets [wp]: "wpK (getsK f) Q e s \<longleftrightarrow> Q (f s) s"
  by (simp add: wpK_def getsK_def)

lemma wp_ask [wp]: "wpK (askK f) Q e s \<longleftrightarrow> Q (f e) s"
  by (simp add: wpK_def askK_def)

lemma wp_modify [wp]: "wpK (modifyK f) Q e s \<longleftrightarrow> Q () (f s)"
  by (simp add: wpK_def modifyK_def)

lemma wp_panic [wp]: "wpK (panic msg) Q e s \<longleftrightarrow> False"
  by (simp add: wpK_def panic_def)

lemma wp_when [wp]:
  "wpK (whenK c m) Q e s \<longleftrightarrow> (if c then wpK m Q e s else Q () s)"
  by (simp add: whenK_def wp_return)

lemma wp_if [wp]:
  "wpK (if c then m else n) Q e s \<longleftrightarrow> (if c then wpK m Q e s else wpK n Q e s)"
  by simp

lemma wp_seq_Nil [wp]: "wpK (seqK []) Q e s \<longleftrightarrow> Q () s"
  by (simp add: wp_return)

lemma wp_seq_Cons [wp]: "wpK (seqK (m # ms)) Q e s \<longleftrightarrow> wpK m (\<lambda>_ t. wpK (seqK ms) Q e t) e s"
  by (simp add: wp_then)

lemma wp_for_Nil [wp]: "wpK (forK [] body) Q e s \<longleftrightarrow> Q None s"
  by (simp add: wp_return)

lemma wp_for_Cons [wp]:
  "wpK (forK (i # is) body) Q e s \<longleftrightarrow>
     wpK (body i) (\<lambda>r t. case r of None \<Rightarrow> wpK (forK is body) Q e t | Some a \<Rightarrow> Q (Some a) t) e s"
  by (simp add: wpK_def bindK_def returnK_def split: outcome.split option.split)

lemma wp_foreach_Nil [wp]: "wpK (foreachK [] body) Q e s \<longleftrightarrow> Q () s"
  by (simp add: wp_return)

lemma wp_foreach_Cons [wp]:
  "wpK (foreachK (i # is) body) Q e s \<longleftrightarrow> wpK (body i) (\<lambda>_ t. wpK (foreachK is body) Q e t) e s"
  by (simp add: wp_then)

lemma wp_loop:
  "wpK (loopK body i) Q e s \<longleftrightarrow>
     wpK (body i) (\<lambda>r t. case r of Inl j \<Rightarrow> wpK (loopK body j) Q e t | Inr a \<Rightarrow> Q a t) e s"
  by (subst wpK_def) (simp add: loopK_unfold [of body i] wpK_def split: outcome.split sum.split)

text \<open>
  Total correctness of a loop: an invariant over the loop variables and the state, and a
  measure that every round that goes on decreases.
\<close>

lemma wp_loop_measure:
  assumes step: "\<And>j t. I j t \<Longrightarrow>
      wpK (body j) (\<lambda>r u. case r of Inl k \<Rightarrow> I k u \<and> f k u < (f j t :: nat) | Inr a \<Rightarrow> Q a u) e t"
    and start: "I i s"
  shows "wpK (loopK body i) Q e s"
  using start
proof (induction "f i s" arbitrary: i s rule: less_induct)
  case less
  have "wpK (body i) (\<lambda>r u. case r of Inl k \<Rightarrow> wpK (loopK body k) Q e u | Inr a \<Rightarrow> Q a u) e s"
    using step [OF less.prems] by (rule wpK_mono) (auto split: sum.splits intro: less.hyps)
  then show ?case by (simp add: wp_loop)
qed

lemma foreach_wp_inv:
  assumes "\<And>k t. k < length is \<Longrightarrow> I k t \<Longrightarrow> wpK (body (is ! k)) (\<lambda>_ u. I (Suc k) u) e t"
    and "I 0 s"
  shows "wpK (foreachK is body) (\<lambda>_ t. I (length is) t) e s"
  using assms
proof (induction "is" arbitrary: I s)
  case Nil
  then show ?case by (simp add: wp)
next
  case (Cons i "is")
  have body: "wpK (body i) (\<lambda>_ u. I (Suc 0) u) e s"
    using Cons.prems(1) [of 0 s] Cons.prems(2) by simp
  have rest: "I (Suc 0) t \<Longrightarrow> wpK (foreachK is body) (\<lambda>_ u. I (Suc (length is)) u) e t" for t
  proof (rule Cons.IH [of "\<lambda>k. I (Suc k)"])
    fix k u assume "k < length is" "I (Suc k) u"
    then show "wpK (body (is ! k)) (\<lambda>_ v. I (Suc (Suc k)) v) e u"
      using Cons.prems(1) [of "Suc k" u] by simp
  qed
  from body show ?case
    by (simp add: wp) (erule wpK_mono, erule rest)
qed

subsection \<open>Preservation of invariants\<close>

definition keepsK :: "('s \<Rightarrow> bool) \<Rightarrow> ('s, 'a) K \<Rightarrow> bool" where
  "keepsK I m \<longleftrightarrow> (\<forall>e s x t. I s \<longrightarrow> m e s = Ok x t \<longrightarrow> I t)"

lemma keepsKD: "keepsK I m \<Longrightarrow> m e s = Ok x t \<Longrightarrow> I s \<Longrightarrow> I t"
  by (auto simp: keepsK_def)

lemma keeps_return [keeps]: "keepsK I (returnK x)"
  by (simp add: keepsK_def returnK_def)

lemma keeps_panic [keeps]: "keepsK I (panic msg)"
  by (simp add: keepsK_def panic_def)

lemma keeps_gets [keeps]: "keepsK I (getsK f)"
  by (simp add: keepsK_def getsK_def)

lemma keeps_ask [keeps]: "keepsK I (askK f)"
  by (simp add: keepsK_def askK_def)

lemma keeps_modify: "(\<And>s. I s \<Longrightarrow> I (f s)) \<Longrightarrow> keepsK I (modifyK f)"
  by (simp add: keepsK_def modifyK_def)

lemma keeps_bind [keeps]:
  assumes "keepsK I m" and "\<And>x. keepsK I (f x)"
  shows "keepsK I (bindK m f)"
  unfolding keepsK_def
proof (intro allI impI)
  fix e s x t
  assume "I s" and "bindK m f e s = Ok x t"
  then obtain y u where "m e s = Ok y u" and "f y e u = Ok x t"
    by (auto simp: bindK_def split: outcome.splits)
  then show "I t"
    using keepsKD [OF assms(1)] keepsKD [OF assms(2)] \<open>I s\<close> by blast
qed

lemma keeps_then [keeps]: "keepsK I m \<Longrightarrow> keepsK I n \<Longrightarrow> keepsK I (thenK m n)"
  by (simp add: thenK_def keeps_bind)

lemma keeps_when [keeps]: "(c \<Longrightarrow> keepsK I m) \<Longrightarrow> keepsK I (whenK c m)"
  by (simp add: whenK_def keeps_return)

lemma keeps_if [keeps]: "(c \<Longrightarrow> keepsK I m) \<Longrightarrow> (\<not> c \<Longrightarrow> keepsK I n) \<Longrightarrow> keepsK I (if c then m else n)"
  by simp

lemma keeps_seq [keeps]: "(\<And>m. m \<in> set ms \<Longrightarrow> keepsK I m) \<Longrightarrow> keepsK I (seqK ms)"
  by (induction ms) (auto intro: keeps)

lemma keeps_for [keeps]: "(\<And>i. keepsK I (body i)) \<Longrightarrow> keepsK I (forK is body)"
  by (induction "is") (auto intro!: keeps split: option.split)

lemma keeps_foreach [keeps]: "(\<And>i. keepsK I (body i)) \<Longrightarrow> keepsK I (foreachK is body)"
  by (induction "is") (auto intro!: keeps)

lemma keeps_loop [keeps]:
  fixes body :: "'i \<Rightarrow> ('s, 'i + 'a) K"
  assumes "\<And>i. keepsK I (body i)"
  shows "keepsK I (loopK body i)"
  unfolding keepsK_def
proof (intro allI impI)
  fix e s x t
  assume I: "I s" and run: "loopK body i e s = Ok x t"
  let ?b = "\<lambda>r. case r of Ok (Inl _) _ \<Rightarrow> True | _ \<Rightarrow> False"
  let ?c = "\<lambda>r. case r of Ok (Inl j) t \<Rightarrow> body j e t | _ \<Rightarrow> r"
  let ?P = "\<lambda>r. \<forall>v u. r = Ok v u \<longrightarrow> I u"
  from run have stop: "while_option ?b ?c (Ok (Inl i) s) = Some (Ok (Inr x) t)"
    by (auto simp: loopK_def split: option.splits outcome.splits sum.splits)
  have "?P (Ok (Inr x) t :: ('s, 'i + 'a) outcome)"
  proof (rule while_option_rule [OF _ stop])
    fix r :: "('s, 'i + 'a) outcome"
    assume "?P r" "?b r"
    then show "?P (?c r)"
      by (auto split: outcome.splits sum.splits dest: keepsKD [OF assms])
  next
    show "?P (Ok (Inl i) s)" using I by simp
  qed
  then show "I t" by simp
qed

text \<open>A loop whose every round goes on, under an invariant, does not end.\<close>

lemma loopK_diverge:
  fixes body :: "'i \<Rightarrow> ('s, 'i + 'a) K"
  assumes round: "\<And>j t. I j t \<Longrightarrow> \<exists>k u. body j e t = Ok (Inl k) u \<and> I k u"
    and start: "I i s"
  shows "loopK body i e s = Diverge"
proof -
  let ?b = "\<lambda>r. case r of Ok (Inl _) _ \<Rightarrow> True | _ \<Rightarrow> False"
  let ?c = "\<lambda>r. case r of Ok (Inl j) t \<Rightarrow> body j e t | _ \<Rightarrow> r"
  let ?P = "\<lambda>r :: ('s, 'i + 'a) outcome. \<exists>j t. r = Ok (Inl j) t \<and> I j t"
  have "while_option ?b ?c (Ok (Inl i) s :: ('s, 'i + 'a) outcome) = None"
  proof (cases "while_option ?b ?c (Ok (Inl i) s :: ('s, 'i + 'a) outcome)")
    case (Some r)
    have "?P r"
    proof (rule while_option_rule [OF _ Some])
      show "?P (?c r')" if "?P r'" "?b r'" for r'
        using that round by (auto split: outcome.splits sum.splits)
    qed (use start in auto)
    moreover have "\<not> ?b r" by (rule while_option_stop [OF Some])
    ultimately show ?thesis by auto
  qed
  then show ?thesis by (simp add: loopK_def)
qed

section \<open>Small integers\<close>

lemma sint_small [simp]: "k < 2 ^ 31 \<Longrightarrow> sint (of_nat k :: i32) = int k"
  by (simp add: signed_of_nat signed_take_bit_int_eq_self)

lemma unat64_less: "unat (n :: u64) < 2 ^ 64"
proof -
  have "unat n < 2 ^ LENGTH(64)" by (rule unsigned_less)
  then show ?thesis by simp
qed

lemma unat_small: "k < 2 ^ 32 \<Longrightarrow> unat (of_nat k :: i32) = k"
  by (simp add: unat_of_nat)

lemma scast_small: "k < 2 ^ 31 \<Longrightarrow> scast (of_nat k :: i32) = (of_nat k :: u64)"
  by (simp add: scast_eq)

lemma sint_less: "sint (n :: i32) < 2 ^ 31"
  using sint_lt [of n] by simp

section \<open>Lists and ranges\<close>

lemma all_less_add:
  "(\<forall>i < a + b. P i) \<longleftrightarrow> (\<forall>i < a. P i) \<and> (\<forall>i < (b :: nat). P (a + i))"
proof (intro iffI conjI allI impI)
  fix i assume P: "(\<forall>i < a. P i) \<and> (\<forall>i < b. P (a + i))" and "i < a + b"
  then show "P i" by (cases "i < a") (auto dest: spec [of _ "i - a"])
qed auto

end
