(* ===== verification/Memory.thy ===== *)
theory Memory
  imports Prelude
begin

text \<open>
  Addresses, pages and physical memory: the constants of \<^verbatim>\<open>kernel/param.h\<close> and
  \<^verbatim>\<open>kernel/memlayout.h\<close>, the page and page-table-entry arithmetic of
  \<^verbatim>\<open>kernel/riscv.h\<close>, and 64-bit little-endian loads and stores on byte memory. The
  lemmas relate the bit tricks of the macros to arithmetic on natural numbers and show
  that a store is read back and leaves other aligned cells alone.
\<close>

section \<open>Constants\<close>

definition NPROC :: nat where [simp]: "NPROC = 64"
definition NCPU :: nat where [simp]: "NCPU = 8"
definition NOFILE :: nat where [simp]: "NOFILE = 16"
definition NFILE :: nat where [simp]: "NFILE = 100"
definition NINODE :: nat where [simp]: "NINODE = 50"
definition NDEV :: nat where [simp]: "NDEV = 10"
definition ROOTDEV :: u32 where [simp]: "ROOTDEV = 1"
definition MAXARG :: nat where [simp]: "MAXARG = 32"
definition MAXOPBLOCKS :: nat where [simp]: "MAXOPBLOCKS = 10"
definition LOGSIZE :: nat where [simp]: "LOGSIZE = MAXOPBLOCKS * 3"
definition NBUF :: nat where [simp]: "NBUF = MAXOPBLOCKS * 3"
definition FSSIZE :: nat where [simp]: "FSSIZE = 2000"
definition MAXPATH :: nat where [simp]: "MAXPATH = 128"

definition PGSIZE :: u64 where [simp]: "PGSIZE = 4096"
definition PGSHIFT :: nat where [simp]: "PGSHIFT = 12"
definition MAXVA :: u64 where [simp]: "MAXVA = push_bit (9 + 9 + 9 + 12 - 1) 1"

definition UART0 :: u64 where [simp]: "UART0 = 0x10000000"
definition VIRTIO0 :: u64 where [simp]: "VIRTIO0 = 0x10001000"
definition PLIC :: u64 where [simp]: "PLIC = 0x0c000000"
definition KERNBASE :: u64 where [simp]: "KERNBASE = 0x80000000"
definition PHYSTOP :: u64 where [simp]: "PHYSTOP = KERNBASE + 128 * 1024 * 1024"
definition TRAMPOLINE :: u64 where [simp]: "TRAMPOLINE = MAXVA - PGSIZE"
definition TRAPFRAME :: u64 where [simp]: "TRAPFRAME = TRAMPOLINE - PGSIZE"
definition KSTACK :: "nat \<Rightarrow> u64" where
  "KSTACK p = TRAMPOLINE - (of_nat p + 1) * 2 * PGSIZE"

section \<open>Pages and page-table entries\<close>

definition PGROUNDUP :: "u64 \<Rightarrow> u64" where
  "PGROUNDUP sz = (sz + PGSIZE - 1) AND NOT (PGSIZE - 1)"

definition PGROUNDDOWN :: "u64 \<Rightarrow> u64" where
  "PGROUNDDOWN a = a AND NOT (PGSIZE - 1)"

definition PTE_V :: u64 where [simp]: "PTE_V = push_bit 0 1"
definition PTE_R :: u64 where [simp]: "PTE_R = push_bit 1 1"
definition PTE_W :: u64 where [simp]: "PTE_W = push_bit 2 1"
definition PTE_X :: u64 where [simp]: "PTE_X = push_bit 3 1"
definition PTE_U :: u64 where [simp]: "PTE_U = push_bit 4 1"

definition PA2PTE :: "u64 \<Rightarrow> u64" where "PA2PTE pa = push_bit 10 (drop_bit 12 pa)"
definition PTE2PA :: "u64 \<Rightarrow> u64" where "PTE2PA pte = push_bit 12 (drop_bit 10 pte)"
definition PTE_FLAGS :: "u64 \<Rightarrow> u64" where "PTE_FLAGS pte = pte AND 0x3FF"

definition PXMASK :: u64 where [simp]: "PXMASK = 0x1FF"
definition PXSHIFT :: "nat \<Rightarrow> nat" where [simp]: "PXSHIFT level = PGSHIFT + 9 * level"
definition PX :: "nat \<Rightarrow> u64 \<Rightarrow> u64" where
  "PX level va = drop_bit (PXSHIFT level) va AND PXMASK"

definition SATP_SV39 :: u64 where [simp]: "SATP_SV39 = push_bit 60 8"
definition MAKE_SATP :: "u64 \<Rightarrow> u64" where
  "MAKE_SATP pagetable = SATP_SV39 OR drop_bit 12 pagetable"

lemma unat_sub_wrap:
  assumes "unat (a :: u64) < unat b"
  shows "unat (a - b) = 2 ^ 64 - (unat b - unat a)"
proof -
  have sum: "unat a = (unat (a - b) + unat b) mod 2 ^ 64"
    using unat_word_ariths(1) [of "a - b" b] by simp
  have "unat (a - b) + unat b < 2 ^ 64 + 2 ^ 64"
    using unat64_less [of "a - b"] unat64_less [of b] by linarith
  moreover have "\<not> unat (a - b) + unat b < 2 ^ 64"
    using sum assms by (metis mod_less not_add_less2)
  ultimately have "unat a = unat (a - b) + unat b - 2 ^ 64"
    using sum by (simp only: le_mod_geq mod_less not_less less_diff_conv2)
  then show ?thesis
    using \<open>\<not> unat (a - b) + unat b < 2 ^ 64\<close> assms unat64_less [of b] by simp
qed

lemma PGROUNDDOWN_bits: "PGROUNDDOWN a = a - take_bit 12 a"
proof -
  have "a - (a AND mask 12) = a AND NOT (a AND mask 12)"
    by (rule disjunctive_diff) (simp add: bit_simps)
  also have "\<dots> = a AND NOT (mask 12)"
    by (rule bit_eqI) (auto simp: bit_simps)
  finally show ?thesis
    by (simp add: PGROUNDDOWN_def take_bit_eq_mask mask_eq_exp_minus_1)
qed

lemma unat_take_bit12: "unat (take_bit 12 (a :: u64)) = unat a mod 4096"
  by (simp add: take_bit_eq_mod unat_mod)

lemma unat_PGROUNDDOWN: "unat (PGROUNDDOWN a) = unat a div 4096 * 4096"
proof -
  have "take_bit 12 a \<le> a" by (simp add: word_le_nat_alt unat_take_bit12)
  then have "unat (PGROUNDDOWN a) = unat a - unat a mod 4096"
    by (simp add: PGROUNDDOWN_bits unat_sub unat_take_bit12)
  then show ?thesis by (simp add: minus_mod_eq_div_mult)
qed

lemma PGROUNDUP_down: "PGROUNDUP sz = PGROUNDDOWN (sz + 4095)"
  by (simp add: PGROUNDUP_def PGROUNDDOWN_def add.commute)

lemma unat_PGROUNDUP:
  assumes "unat sz + 4095 < 2 ^ 64"
  shows "unat (PGROUNDUP sz) = (unat sz + 4095) div 4096 * 4096"
proof -
  have "unat (sz + 4095) = unat sz + 4095"
    using assms by (simp add: unat_word_ariths)
  then show ?thesis by (simp add: PGROUNDUP_down unat_PGROUNDDOWN)
qed

lemma PGROUNDDOWN_le: "PGROUNDDOWN a \<le> a"
  by (simp add: word_le_nat_alt unat_PGROUNDDOWN)

definition page_aligned :: "u64 \<Rightarrow> bool" where
  "page_aligned a \<longleftrightarrow> a mod PGSIZE = 0"

lemma page_aligned_unat: "page_aligned a \<longleftrightarrow> unat a mod 4096 = 0"
  by (simp add: page_aligned_def word_unat_eq_iff unat_mod)

lemma page_aligned_end: "page_aligned a \<Longrightarrow> unat a + 4096 \<le> 2 ^ 64"
proof -
  assume "page_aligned a"
  then obtain k where k: "unat a = 4096 * k" by (auto simp: page_aligned_unat)
  then have "4096 * k < 4096 * 2 ^ 52" using unat64_less [of a] by simp
  then have "k + 1 \<le> 2 ^ 52" by simp
  then have "4096 * (k + 1) \<le> 4096 * 2 ^ 52" by (simp only: mult_le_mono2)
  then show ?thesis using k by simp
qed

lemma page_aligned_bits: "page_aligned a \<longleftrightarrow> take_bit 12 a = 0"
  by (simp add: page_aligned_unat word_unat_eq_iff unat_take_bit12)

lemma page_aligned_PGROUNDDOWN [simp]: "page_aligned (PGROUNDDOWN a)"
  by (simp add: page_aligned_unat unat_PGROUNDDOWN)

lemma page_aligned_PGROUNDUP [simp]: "page_aligned (PGROUNDUP a)"
  by (simp add: PGROUNDUP_down)

lemma PGROUNDDOWN_aligned: "page_aligned a \<Longrightarrow> PGROUNDDOWN a = a"
  by (simp add: PGROUNDDOWN_bits page_aligned_bits)

lemma unat_add_mod: "(unat (a + b :: u64)) mod 4096 = (unat a + unat b) mod 4096"
  by (simp add: unat_word_ariths mod_mod_cancel)

lemma page_aligned_add: "page_aligned a \<Longrightarrow> page_aligned b \<Longrightarrow> page_aligned (a + b)"
  by (auto simp: page_aligned_unat unat_add_mod)

lemma page_aligned_PGSIZE [simp]: "page_aligned 4096"
  by (simp add: page_aligned_unat)

text \<open>A page-table entry holds the page number and ten flag bits, independently.\<close>

lemma no_bit_above:
  assumes "unat (w :: 'a::len word) < 2 ^ k" and "k \<le> n"
  shows "\<not> bit w n"
proof
  assume "bit w n"
  then have "bit (unat w) n" by (simp add: bit_unsigned_iff bit_imp_possible_bit)
  moreover have "unat w < 2 ^ n"
    using assms(1) power_increasing [OF assms(2), of "2 :: nat"] by linarith
  ultimately show False by (simp add: bit_iff_odd)
qed

lemma no_bit_page:
  assumes "page_aligned a" and "n < 12"
  shows "\<not> bit a n"
proof
  assume "bit a n"
  then have "bit (take_bit 12 a) n" using assms(2) by (simp add: bit_simps)
  then show False using assms(1) by (simp add: page_aligned_bits)
qed

text \<open>A page-table entry holds the page number and ten flag bits, independently.\<close>

lemma bit_PTE2PA: "bit (PTE2PA x) n \<longleftrightarrow> 12 \<le> n \<and> n < 64 \<and> bit x (n - 2)"
proof (cases "12 \<le> n")
  case True
  then have "10 + (n - 12) = n - 2" by simp
  then show ?thesis using True by (simp add: PTE2PA_def bit_simps)
qed (simp add: PTE2PA_def bit_simps)

lemma bit_PA2PTE: "bit (PA2PTE x) n \<longleftrightarrow> 10 \<le> n \<and> n < 64 \<and> bit x (n + 2)"
proof (cases "10 \<le> n")
  case True
  then have "12 + (n - 10) = n + 2" by simp
  then show ?thesis using True by (simp add: PA2PTE_def bit_simps)
qed (simp add: PA2PTE_def bit_simps)

lemma PTE2PA_PA2PTE:
  assumes "page_aligned pa" and "unat flags < 2 ^ 10"
  shows "PTE2PA (PA2PTE pa OR flags) = pa"
proof (rule bit_word_eqI)
  fix n assume n: "n < LENGTH(64)"
  show "bit (PTE2PA (PA2PTE pa OR flags)) n = bit pa n"
  proof (cases "12 \<le> n")
    case True
    then have "10 \<le> n - 2" "n - 2 + 2 = n" by simp_all
    then show ?thesis
      using True n no_bit_above [OF assms(2), of "n - 2"] by (simp add: bit_PTE2PA bit_PA2PTE bit_or_iff)
  next
    case False
    then show ?thesis using no_bit_page [OF assms(1), of n] by (simp add: bit_PTE2PA)
  qed
qed

lemma PTE_FLAGS_PA2PTE:
  assumes "unat flags < 2 ^ 10"
  shows "PTE_FLAGS (PA2PTE pa OR flags) = flags"
proof -
  have "PTE_FLAGS x = take_bit 10 x" for x
    by (simp add: PTE_FLAGS_def take_bit_eq_mask mask_eq_exp_minus_1)
  moreover have "take_bit 10 (PA2PTE pa OR flags) = flags"
  proof (rule bit_word_eqI)
    fix n
    show "bit (take_bit 10 (PA2PTE pa OR flags)) n = bit flags n"
      using no_bit_above [OF assms, of n] by (auto simp: bit_take_bit_iff bit_or_iff bit_PA2PTE)
  qed
  ultimately show ?thesis by simp
qed

lemma PX_take: "PX level va = take_bit 9 (drop_bit (12 + 9 * level) va)"
  by (simp add: PX_def take_bit_eq_mask mask_eq_exp_minus_1)

lemma unat_PX: "unat (PX level va) = unat va div 2 ^ (12 + 9 * level) mod 512"
proof -
  have "unat (PX level va) = unat (drop_bit (12 + 9 * level) va) mod 512"
    by (simp add: PX_take take_bit_eq_mod unat_mod)
  then show ?thesis by (simp only: unat_drop_bit_eq) (simp only: drop_bit_eq_div)
qed

lemma unat_PX_less: "unat (PX level va) < 512"
  by (simp add: unat_PX)

text \<open>Below \<open>MAXVA\<close> the three indices and the page offset determine the address.\<close>

lemma unat_MAXVA: "unat MAXVA = 2 ^ 38"
  by simp

lemma base512_digits:
  assumes "(q :: nat) < 2 ^ 26"
  shows "q = (q div 512 div 512 mod 512 * 512 + q div 512 mod 512) * 512 + q mod 512"
proof -
  have "q div 512 div 512 < 512" using assms by (simp add: less_mult_imp_div_less)
  then show ?thesis by (simp add: div_mult_mod_eq)
qed

lemma page_number_digits:
  assumes "unat (x :: u64) < 2 ^ 38"
  shows "unat x div 4096 =
    (unat (PX 2 x) * 512 + unat (PX 1 x)) * 512 + unat (PX 0 x)"
proof -
  let ?q = "unat x div 4096"
  have "?q < 2 ^ 26" using assms by (simp add: less_mult_imp_div_less)
  note base512_digits [OF this]
  moreover have "unat (PX 2 x) = ?q div 512 div 512 mod 512" "unat (PX 1 x) = ?q div 512 mod 512"
    "unat (PX 0 x) = ?q mod 512"
    by (simp_all add: unat_PX flip: div_mult2_eq)
  ultimately show ?thesis by simp
qed

lemma PX_inj_page:
  assumes "va < MAXVA" and "vb < MAXVA"
    and "PX 2 va = PX 2 vb" and "PX 1 va = PX 1 vb" and "PX 0 va = PX 0 vb"
  shows "PGROUNDDOWN va = PGROUNDDOWN vb"
proof -
  have "unat va < 2 ^ 38" "unat vb < 2 ^ 38"
    using assms(1,2) by (simp_all add: word_less_nat_alt)
  then have "unat va div 4096 = unat vb div 4096"
    using assms(3-5) by (simp add: page_number_digits)
  then show ?thesis by (simp add: word_unat_eq_iff unat_PGROUNDDOWN)
qed

lemma PX_same_page:
  assumes "PGROUNDDOWN va = PGROUNDDOWN vb"
  shows "PX l va = PX l vb"
proof -
  have "unat va div 4096 = unat vb div 4096"
    using assms by (simp add: word_unat_eq_iff unat_PGROUNDDOWN)
  then show ?thesis
    by (simp add: word_unat_eq_iff unat_PX power_add div_mult2_eq)
qed

end
