(* ===== verification/Spinlock.thy ===== *)
theory Spinlock
  imports Memory
begin

text \<open>
  \<^verbatim>\<open>kernel/spinlock.c\<close>, \<^verbatim>\<open>kernel/spinlock.h\<close>, the interrupt bit of
  \<^verbatim>\<open>kernel/riscv.h\<close> and \<^verbatim>\<open>struct cpu\<close> of \<^verbatim>\<open>kernel/proc.h\<close>: spin locks, the per-CPU
  nesting of \<^verbatim>\<open>push_off\<close> and \<^verbatim>\<open>pop_off\<close>, and the context switch.

  A lock is named by the object it is part of (\<open>lockref\<close>), as its address does in C. The
  state holds the view of the hart that runs: \<open>tp\<close> is its number and \<open>sie\<close> its
  interrupt-enable bit. A \<^verbatim>\<open>swtch\<close> records the two contexts in \<open>switches\<close> and goes on in
  the state in which the environment resumes the thread.

  The second half gives \<open>acquire\<close> and \<open>release\<close> as functions \<open>acq\<close> and \<open>rel\<close> on the
  machine part of the state, with the laws that let critical sections cancel.
\<close>

section \<open>State\<close>

datatype sleepref = Buf_lock nat | Inode_lock nat

datatype lockref =
    Kmem_lock | Pid_lock | Wait_lock | Proc_lock nat | Ticks_lock | Bcache_lock | Log_lock
  | Itable_lock | Ftable_lock | Cons_lock | Uart_tx_lock | Pr_lock | Vdisk_lock
  | Sleep_lock sleepref | Pipe_lock addr

record spinlock =
  locked :: u32
  lock_name :: string
  lock_cpu :: "nat option"

record cpu =
  cpu_proc :: "nat option"
  noff :: int
  intena :: bool

datatype ctxref = Cpu_context nat | Proc_context nat

record mach =
  locks :: "lockref \<Rightarrow> spinlock"
  cpus :: "nat \<Rightarrow> cpu"
  tp :: nat
  sie :: bool
  switches :: "(ctxref \<times> ctxref) list"

record kst =
  mach :: mach

text \<open>Static storage starts out as zeros.\<close>

definition lock0 :: spinlock where
  "lock0 = \<lparr>locked = 0, lock_name = [], lock_cpu = None\<rparr>"

definition cpu0 :: cpu where
  "cpu0 = \<lparr>cpu_proc = None, noff = 0, intena = False\<rparr>"

definition mach0 :: mach where
  "mach0 = \<lparr>locks = (\<lambda>_. lock0), cpus = (\<lambda>_. cpu0), tp = 0, sie = False, switches = []\<rparr>"

definition upd_mach :: "(mach \<Rightarrow> mach) \<Rightarrow> ('z kst_scheme, unit) K" where
  "upd_mach f = modifyK (\<lambda>s. s\<lparr>mach := f (mach s)\<rparr>)"

definition upd_cpu :: "nat \<Rightarrow> (cpu \<Rightarrow> cpu) \<Rightarrow> ('z kst_scheme, unit) K" where
  "upd_cpu c f = upd_mach (\<lambda>m. m\<lparr>cpus := (cpus m)(c := f (cpus m c))\<rparr>)"

definition upd_lock :: "lockref \<Rightarrow> (spinlock \<Rightarrow> spinlock) \<Rightarrow> ('z kst_scheme, unit) K" where
  "upd_lock lk f = upd_mach (\<lambda>m. m\<lparr>locks := (locks m)(lk := f (locks m lk))\<rparr>)"

section \<open>Operations\<close>

definition intr_on :: "('z kst_scheme, unit) K" where
  "intr_on = upd_mach (\<lambda>m. m\<lparr>sie := True\<rparr>)"

definition intr_off :: "('z kst_scheme, unit) K" where
  "intr_off = upd_mach (\<lambda>m. m\<lparr>sie := False\<rparr>)"

definition intr_get :: "('z kst_scheme, bool) K" where
  "intr_get = getsK (\<lambda>s. sie (mach s))"

definition cpuid :: "('z kst_scheme, nat) K" where
  "cpuid = getsK (\<lambda>s. tp (mach s))"

definition mycpu :: "('z kst_scheme, nat) K" where
  "mycpu = bindK cpuid (\<lambda>id. returnK id)"

definition initlock :: "lockref \<Rightarrow> string \<Rightarrow> ('z kst_scheme, unit) K" where
  "initlock lk name = upd_lock lk (\<lambda>l. l\<lparr>lock_name := name, locked := 0, lock_cpu := None\<rparr>)"

definition holding :: "lockref \<Rightarrow> ('z kst_scheme, bool) K" where
  "holding lk =
     bindK mycpu (\<lambda>c. getsK (\<lambda>s. locked (locks (mach s) lk) \<noteq> 0 \<and>
                                    lock_cpu (locks (mach s) lk) = Some c))"

definition push_off :: "('z kst_scheme, unit) K" where
  "push_off =
     bindK intr_get (\<lambda>old.
     thenK intr_off (
     bindK mycpu (\<lambda>c.
     bindK (getsK (\<lambda>s. noff (cpus (mach s) c))) (\<lambda>n.
     thenK (whenK (n = 0) (upd_cpu c (\<lambda>r. r\<lparr>intena := old\<rparr>)))
       (upd_cpu c (\<lambda>r. r\<lparr>noff := noff r + 1\<rparr>))))))"

definition pop_off :: "('z kst_scheme, unit) K" where
  "pop_off =
     bindK mycpu (\<lambda>c.
     bindK intr_get (\<lambda>on.
     if on then panic ''pop_off - interruptible'' else
     bindK (getsK (\<lambda>s. noff (cpus (mach s) c))) (\<lambda>n.
     if n < 1 then panic ''pop_off'' else
     thenK (upd_cpu c (\<lambda>r. r\<lparr>noff := noff r - 1\<rparr>)) (
     bindK (getsK (\<lambda>s. noff (cpus (mach s) c) = 0 \<and> intena (cpus (mach s) c))) (\<lambda>b.
     whenK b intr_on)))))"

text \<open>\<^verbatim>\<open>__sync_lock_test_and_set(&lk->locked, 1)\<close>: one atomic swap.\<close>

definition test_and_set :: "lockref \<Rightarrow> ('z kst_scheme, u32) K" where
  "test_and_set lk =
     bindK (getsK (\<lambda>s. locked (locks (mach s) lk))) (\<lambda>old.
     thenK (upd_lock lk (\<lambda>l. l\<lparr>locked := 1\<rparr>)) (returnK old))"

definition acquire :: "lockref \<Rightarrow> ('z kst_scheme, unit) K" where
  "acquire lk =
     thenK push_off (
     bindK (holding lk) (\<lambda>h.
     if h then panic ''acquire'' else
     thenK (loopK (\<lambda>_. bindK (test_and_set lk)
                    (\<lambda>old. returnK (if old \<noteq> 0 then Inl () else Inr ()))) ())
       (bindK mycpu (\<lambda>c. upd_lock lk (\<lambda>l. l\<lparr>lock_cpu := Some c\<rparr>)))))"

definition release :: "lockref \<Rightarrow> ('z kst_scheme, unit) K" where
  "release lk =
     bindK (holding lk) (\<lambda>h.
     if \<not> h then panic ''release'' else
     thenK (upd_lock lk (\<lambda>l. l\<lparr>lock_cpu := None\<rparr>)) (
     thenK (upd_lock lk (\<lambda>l. l\<lparr>locked := 0\<rparr>))
       pop_off))"

text \<open>
  \<^verbatim>\<open>swtch\<close> of \<^verbatim>\<open>kernel/swtch.S\<close>, as the C code sees it: the thread stops here and goes
  on in the state in which it is resumed, if it ever is.
\<close>

definition swtch :: "ctxref \<Rightarrow> ctxref \<Rightarrow> ('z kst_scheme, unit) K" where
  "swtch old new e s =
     (let t = s\<lparr>mach := (mach s)\<lparr>switches := (old, new) # switches (mach s)\<rparr>\<rparr>
      in case resume e (length (switches (mach s))) t of None \<Rightarrow> Gone t | Some u \<Rightarrow> Ok () u)"

lemmas spinlock_defs [kdefs] =
  upd_mach_def upd_cpu_def upd_lock_def intr_on_def intr_off_def intr_get_def cpuid_def
  mycpu_def holding_def push_off_def pop_off_def test_and_set_def

section \<open>Critical sections as functions of the machine state\<close>

definition lock_free :: "lockref \<Rightarrow> mach \<Rightarrow> bool" where
  "lock_free lk m \<longleftrightarrow> locked (locks m lk) = 0"

definition lock_mine :: "lockref \<Rightarrow> mach \<Rightarrow> bool" where
  "lock_mine lk m \<longleftrightarrow> locked (locks m lk) \<noteq> 0 \<and> lock_cpu (locks m lk) = Some (tp m)"

definition pushoff :: "mach \<Rightarrow> mach" where
  "pushoff m = m\<lparr>cpus := (cpus m)(tp m := (cpus m (tp m))\<lparr>
       intena := (if noff (cpus m (tp m)) = 0 then sie m else intena (cpus m (tp m))),
       noff := noff (cpus m (tp m)) + 1\<rparr>), sie := False\<rparr>"

definition popoff :: "mach \<Rightarrow> mach" where
  "popoff m = m\<lparr>cpus := (cpus m)(tp m := (cpus m (tp m))\<lparr>noff := noff (cpus m (tp m)) - 1\<rparr>),
       sie := (sie m \<or> noff (cpus m (tp m)) = 1 \<and> intena (cpus m (tp m)))\<rparr>"

definition acq :: "lockref \<Rightarrow> mach \<Rightarrow> mach" where
  "acq lk m = (pushoff m)\<lparr>locks := (locks m)(lk := (locks m lk)\<lparr>locked := 1, lock_cpu := Some (tp m)\<rparr>)\<rparr>"

definition rel :: "lockref \<Rightarrow> mach \<Rightarrow> mach" where
  "rel lk m = popoff (m\<lparr>locks := (locks m)(lk := (locks m lk)\<lparr>lock_cpu := None, locked := 0\<rparr>)\<rparr>)"

text \<open>The nesting depth, and what \<^verbatim>\<open>push_off\<close> keeps true of it.\<close>

definition depth :: "mach \<Rightarrow> int" where
  "depth m = noff (cpus m (tp m))"

definition sane :: "mach \<Rightarrow> bool" where
  "sane m \<longleftrightarrow> 0 \<le> depth m \<and> (0 < depth m \<longrightarrow> \<not> sie m)"

text \<open>
  A free lock records no owner: \<^verbatim>\<open>release\<close> clears \<^verbatim>\<open>lk->cpu\<close> before it clears
  \<^verbatim>\<open>lk->locked\<close>.
\<close>

definition clean :: "lockref \<Rightarrow> mach \<Rightarrow> bool" where
  "clean lk m \<longleftrightarrow> locked (locks m lk) = 0 \<and> lock_cpu (locks m lk) = None"

text \<open>
  After a balanced critical section only \<^verbatim>\<open>intena\<close> may differ: at depth 0 it has been
  set to the interrupt bit.
\<close>

definition settle :: "mach \<Rightarrow> mach" where
  "settle m = (if depth m = 0
     then m\<lparr>cpus := (cpus m)(tp m := (cpus m (tp m))\<lparr>intena := sie m\<rparr>)\<rparr> else m)"

subsection \<open>What the operations do\<close>

lemma push_off_run [simp]: "push_off e s = Ok () (s\<lparr>mach := pushoff (mach s)\<rparr>)"
  by (simp add: spinlock_defs monad_defs pushoff_def)

lemma pop_off_run:
  "\<not> sie (mach s) \<Longrightarrow> 1 \<le> depth (mach s) \<Longrightarrow>
   pop_off e s = Ok () (s\<lparr>mach := popoff (mach s)\<rparr>)"
  by (auto simp: spinlock_defs monad_defs popoff_def depth_def)

lemma pop_off_interruptible:
  "sie (mach s) \<Longrightarrow> pop_off e s = Panic ''pop_off - interruptible''"
  by (simp add: spinlock_defs monad_defs)

lemma pop_off_unbalanced:
  "\<not> sie (mach s) \<Longrightarrow> depth (mach s) < 1 \<Longrightarrow> pop_off e s = Panic ''pop_off''"
  by (simp add: spinlock_defs monad_defs depth_def)

lemma holding_run [simp]: "holding lk e s = Ok (lock_mine lk (mach s)) s"
  by (simp add: spinlock_defs monad_defs lock_mine_def)

lemma pushoff_simps [simp]:
  "locks (pushoff m) = locks m" "tp (pushoff m) = tp m" "switches (pushoff m) = switches m"
  "\<not> sie (pushoff m)" "depth (pushoff m) = depth m + 1"
  "lock_mine lk (pushoff m) = lock_mine lk m" "lock_free lk (pushoff m) = lock_free lk m"
  "cpu_proc (cpus (pushoff m) c) = cpu_proc (cpus m c)"
  by (simp_all add: pushoff_def depth_def lock_mine_def lock_free_def)

lemma test_and_set_run:
  "test_and_set lk e s = Ok (locked (locks (mach s) lk))
     (s\<lparr>mach := (mach s)\<lparr>locks := (locks (mach s))(lk := (locks (mach s) lk)\<lparr>locked := 1\<rparr>)\<rparr>\<rparr>)"
  by (simp add: spinlock_defs monad_defs)

lemma acquire_run [simp]:
  assumes "lock_free lk (mach s)"
  shows "acquire lk e s = Ok () (s\<lparr>mach := acq lk (mach s)\<rparr>)"
proof -
  have "\<not> lock_mine lk (mach s)" using assms by (simp add: lock_mine_def lock_free_def)
  then show ?thesis
    using assms
    by (simp add: acquire_def thenK_def bindK_def loopK_unfold test_and_set_run returnK_def
        mycpu_def cpuid_def getsK_def upd_lock_def upd_mach_def modifyK_def acq_def lock_free_def)
qed

lemma acquire_again:
  "lock_mine lk (mach s) \<Longrightarrow> acquire lk e s = Panic ''acquire''"
  by (simp add: acquire_def thenK_def bindK_def panic_def)

lemma acquire_spins:
  assumes "\<not> lock_free lk (mach s)" and "\<not> lock_mine lk (mach s)"
  shows "acquire lk e s = Diverge"
proof -
  have "loopK (\<lambda>_. bindK (test_and_set lk) (\<lambda>old. returnK (if old \<noteq> 0 then Inl () else Inr ())))
      () e (s\<lparr>mach := pushoff (mach s)\<rparr>) = (Diverge :: ('a kst_scheme, unit) outcome)"
    by (rule loopK_diverge [where I = "\<lambda>_ t. \<not> lock_free lk (mach t)"])
       (use assms in \<open>auto simp: bindK_def test_and_set_run returnK_def lock_free_def\<close>)
  then show ?thesis using assms(2) by (simp add: acquire_def thenK_def bindK_def)
qed

lemma release_run:
  "lock_mine lk (mach s) \<Longrightarrow> \<not> sie (mach s) \<Longrightarrow> 1 \<le> depth (mach s) \<Longrightarrow>
   release lk e s = Ok () (s\<lparr>mach := rel lk (mach s)\<rparr>)"
  by (simp add: release_def thenK_def bindK_def upd_lock_def upd_mach_def modifyK_def
      pop_off_run depth_def rel_def popoff_def)

lemma release_not_held:
  "\<not> lock_mine lk (mach s) \<Longrightarrow> release lk e s = Panic ''release''"
  by (simp add: release_def bindK_def panic_def)

subsection \<open>Laws\<close>

lemma acq_simps [simp]:
  "tp (acq lk m) = tp m" "switches (acq lk m) = switches m" "\<not> sie (acq lk m)"
  "depth (acq lk m) = depth m + 1"
  "cpu_proc (cpus (acq lk m) c) = cpu_proc (cpus m c)"
  "lock_mine l (acq lk m) = (l = lk \<or> lock_mine l m)"
  "lock_free l (acq lk m) = (l \<noteq> lk \<and> lock_free l m)"
  "clean l (acq lk m) = (l \<noteq> lk \<and> clean l m)"
  by (auto simp: acq_def pushoff_def depth_def lock_mine_def lock_free_def clean_def)

lemma rel_simps [simp]:
  "tp (rel lk m) = tp m" "switches (rel lk m) = switches m" "depth (rel lk m) = depth m - 1"
  "cpu_proc (cpus (rel lk m) c) = cpu_proc (cpus m c)"
  "lock_mine l (rel lk m) = (l \<noteq> lk \<and> lock_mine l m)"
  "lock_free l (rel lk m) = (l = lk \<or> lock_free l m)"
  "clean l (rel lk m) = (l = lk \<or> clean l m)"
  "sie (rel lk m) = (sie m \<or> depth m = 1 \<and> intena (cpus m (tp m)))"
  by (auto simp: rel_def popoff_def depth_def lock_mine_def lock_free_def clean_def)

lemma settle_simps [simp]:
  "tp (settle m) = tp m" "switches (settle m) = switches m" "depth (settle m) = depth m"
  "cpu_proc (cpus (settle m) c) = cpu_proc (cpus m c)" "locks (settle m) = locks m"
  "lock_mine l (settle m) = lock_mine l m" "lock_free l (settle m) = lock_free l m"
  "clean l (settle m) = clean l m" "sie (settle m) = sie m" "settle (settle m) = settle m"
  by (auto simp: settle_def depth_def lock_mine_def lock_free_def clean_def)

lemma clean_free [simp]: "clean lk m \<Longrightarrow> lock_free lk m"
  by (simp add: clean_def lock_free_def)

lemma sane_acq [simp]: "sane m \<Longrightarrow> sane (acq lk m)"
  by (simp add: sane_def)

lemma sane_settle [simp]: "sane (settle m) = sane m"
  by (simp add: sane_def)

lemma sane_rel: "1 \<le> depth m \<Longrightarrow> sane m \<Longrightarrow> sane (rel lk m)"
  by (auto simp: sane_def)

lemma acq_settle [simp]: "acq lk (settle m) = acq lk m"
  by (simp add: acq_def pushoff_def settle_def depth_def)

lemma popoff_pushoff [simp]: "sane m \<Longrightarrow> popoff (pushoff m) = settle m"
  by (auto simp: popoff_def pushoff_def settle_def sane_def depth_def)

lemma rel_acq [simp]:
  assumes "sane m" and "clean lk m"
  shows "rel lk (acq lk m) = settle m"
proof -
  have "(locks m)(lk := (locks m lk)\<lparr>lock_cpu := None, locked := 0\<rparr>) = locks m"
    using assms(2) by (auto simp: clean_def intro: spinlock.equality)
  then have "rel lk (acq lk m) = popoff (pushoff m)"
    by (auto simp: rel_def acq_def intro!: arg_cong [where f = popoff] mach.equality)
  then show ?thesis using assms(1) by simp
qed

lemma mach0_simps [simp]: "sane mach0" "clean lk mach0" "depth mach0 = 0" "tp mach0 = 0" "switches mach0 = []"
  by (simp_all add: mach0_def cpu0_def lock0_def sane_def clean_def depth_def)

text \<open>Locks are not always released in the order in which they were taken.\<close>

lemma rel_acq_other:
  assumes "a \<noteq> b" and "0 < depth m" and "\<not> sie m"
  shows "rel a (acq b m) = acq b (rel a m)"
  using assms
  by (auto simp: rel_def acq_def popoff_def pushoff_def depth_def fun_eq_iff
      intro!: mach.equality cpu.equality)

lemma rel_acq_acq [simp]:
  "a \<noteq> b \<Longrightarrow> sane m \<Longrightarrow> clean a m \<Longrightarrow> rel a (acq b (acq a m)) = acq b m"
  using rel_acq_other [of a b "acq a m"] by (simp add: sane_def)

text \<open>The same facts as equations of \<open>wpK\<close>, for critical sections inside a longer run.\<close>

lemma wp_acquire [wp]: "lock_free lk (mach s) \<Longrightarrow> wpK (acquire lk) Q e s \<longleftrightarrow> Q () (s\<lparr>mach := acq lk (mach s)\<rparr>)"
  by (simp add: wpK_def)

lemma wp_release [wp]:
  "lock_mine lk (mach s) \<Longrightarrow> \<not> sie (mach s) \<Longrightarrow> 1 \<le> depth (mach s) \<Longrightarrow>
   wpK (release lk) Q e s \<longleftrightarrow> Q () (s\<lparr>mach := rel lk (mach s)\<rparr>)"
  by (simp add: wpK_def release_run)

end
