(* ===== verification/Bytes.thy ===== *)
theory Bytes
  imports Memory
begin

text \<open>
  How the machine lays integers out in bytes. RISC-V is little-endian: \<open>bytes_of n w\<close> are
  the \<open>n\<close> low bytes of \<open>w\<close>, least significant first, and \<open>word_of\<close> reads such a list
  back. \<open>read_bytes\<close> and \<open>write_bytes\<close> move lists of bytes between memory and C objects,
  and \<open>load64\<close> and \<open>store64\<close> are the accesses through a \<^verbatim>\<open>uint64 *\<close>. The lemmas are
  the laws of such a memory: what was written is read back, and what was not written is
  unchanged.
\<close>

definition bytes_of :: "nat \<Rightarrow> 'a::len word \<Rightarrow> byte list" where
  "bytes_of n w = map (\<lambda>i. ucast (drop_bit (8 * i) w)) [0..<n]"

primrec word_of :: "byte list \<Rightarrow> 'a::len word" where
  "word_of [] = 0"
| "word_of (b # bs) = ucast b OR push_bit 8 (word_of bs)"

definition read_bytes :: "mem \<Rightarrow> addr \<Rightarrow> nat \<Rightarrow> byte list" where
  "read_bytes m a n = map (\<lambda>i. m (a + of_nat i)) [0..<n]"

definition write_bytes :: "mem \<Rightarrow> addr \<Rightarrow> byte list \<Rightarrow> mem" where
  "write_bytes m a bs = (\<lambda>x. if unat (x - a) < length bs then bs ! unat (x - a) else m x)"

definition load64 :: "mem \<Rightarrow> addr \<Rightarrow> u64" where
  "load64 m a = word_of (read_bytes m a 8)"

definition store64 :: "mem \<Rightarrow> addr \<Rightarrow> u64 \<Rightarrow> mem" where
  "store64 m a v = write_bytes m a (bytes_of 8 v)"

section \<open>Encoding\<close>

lemma length_bytes_of [simp]: "length (bytes_of n w) = n"
  by (simp add: bytes_of_def)

lemma nth_bytes_of [simp]: "i < n \<Longrightarrow> bytes_of n w ! i = ucast (drop_bit (8 * i) w)"
  by (simp add: bytes_of_def)

lemma bit_word_of:
  "bit (word_of bs :: 'a::len word) k \<longleftrightarrow>
     k < LENGTH('a) \<and> k < 8 * length bs \<and> bit (bs ! (k div 8)) (k mod 8)"
proof (induction bs arbitrary: k)
  case Nil
  then show ?case by simp
next
  case (Cons b bs)
  show ?case
  proof (cases "k < 8")
    case True
    then show ?thesis by (simp add: bit_or_iff bit_push_bit_iff bit_ucast_iff)
  next
    case False
    then obtain j where k: "k = j + 8" using less_imp_add_positive nat_le_iff_add not_less
      by (metis add.commute)
    have "(j + 8) div 8 = Suc (j div 8)" by simp
    moreover have "\<not> bit b k" using False by (auto dest: bit_imp_le_length)
    ultimately show ?thesis
      by (auto simp: k Cons.IH bit_or_iff bit_push_bit_iff bit_ucast_iff dest: bit_imp_le_length)
  qed
qed

lemma word_of_bytes_of:
  assumes "LENGTH('a::len) \<le> 8 * n"
  shows "word_of (bytes_of n (w :: 'a word)) = w"
proof (rule bit_word_eqI)
  fix k assume k: "k < LENGTH('a)"
  then have "k < 8 * n" "k div 8 < n" using assms by auto
  moreover have "8 * (k div 8) + k mod 8 = k" by simp
  ultimately show "bit (word_of (bytes_of n w) :: 'a word) k = bit w k"
    using k by (simp add: bit_word_of bit_ucast_iff bit_drop_bit_eq)
qed

lemma bytes_of_word_of:
  assumes "8 * length bs \<le> LENGTH('a::len)"
  shows "bytes_of (length bs) (word_of bs :: 'a word) = bs"
proof (rule nth_equalityI)
  fix i assume "i < length (bytes_of (length bs) (word_of bs :: 'a word))"
  then have i: "i < length bs" by simp
  show "bytes_of (length bs) (word_of bs :: 'a word) ! i = bs ! i"
  proof (rule bit_word_eqI)
    fix k assume k: "k < LENGTH(8)"
    then have "8 * i + k < 8 * length bs" "(8 * i + k) div 8 = i" "(8 * i + k) mod 8 = k"
      using i by auto
    then show "bit (bytes_of (length bs) (word_of bs :: 'a word) ! i) k = bit (bs ! i) k"
      using i k assms by (simp add: bit_ucast_iff bit_drop_bit_eq bit_word_of)
  qed
qed simp

section \<open>Byte memory\<close>

lemma length_read_bytes [simp]: "length (read_bytes m a n) = n"
  by (simp add: read_bytes_def)

lemma nth_read_bytes [simp]: "i < n \<Longrightarrow> read_bytes m a n ! i = m (a + of_nat i)"
  by (simp add: read_bytes_def)

lemma read_bytes_0 [simp]: "read_bytes m a 0 = []"
  by (simp add: read_bytes_def)

lemma unat_of_nat64: "i < 2 ^ 64 \<Longrightarrow> unat (of_nat i :: u64) = i"
  by (simp add: unat_of_nat)

lemma write_bytes_in:
  "i < length bs \<Longrightarrow> i < 2 ^ 64 \<Longrightarrow> write_bytes m a bs (a + of_nat i) = bs ! i"
  by (simp add: write_bytes_def unat_of_nat64)

lemma write_bytes_out: "length bs \<le> unat (x - a) \<Longrightarrow> write_bytes m a bs x = m x"
  by (simp add: write_bytes_def)

lemma read_write_bytes:
  "length bs \<le> 2 ^ 64 \<Longrightarrow> read_bytes (write_bytes m a bs) a (length bs) = bs"
  by (rule nth_equalityI) (auto simp: write_bytes_in)

lemma offset_iff:
  assumes "n < 2 ^ 64"
  shows "(x :: u64) = a + of_nat n \<longleftrightarrow> unat (x - a) = n"
proof
  assume "x = a + of_nat n"
  then show "unat (x - a) = n" using assms by (simp add: unat_of_nat64)
next
  assume "unat (x - a) = n"
  then have "x - a = of_nat n" by (metis of_nat_unat ucast_id)
  then show "x = a + of_nat n" by (simp add: diff_eq_eq add.commute)
qed

lemma write_bytes_Nil [simp]: "write_bytes m a [] = m"
  by (simp add: write_bytes_def)

lemma write_bytes_snoc:
  assumes "length bs < 2 ^ 64"
  shows "write_bytes m a (bs @ [b]) = (write_bytes m a bs)(a + of_nat (length bs) := b)"
proof
  fix x
  show "write_bytes m a (bs @ [b]) x = ((write_bytes m a bs)(a + of_nat (length bs) := b)) x"
    using offset_iff [OF assms, of x a]
    by (auto simp: write_bytes_def nth_append less_Suc_eq)
qed

lemma write_bytes_upd_end:
  assumes "length bs < 2 ^ 64"
  shows "write_bytes (m(a + of_nat (length bs) := b)) a bs = write_bytes m a (bs @ [b])"
proof
  fix x
  show "write_bytes (m(a + of_nat (length bs) := b)) a bs x = write_bytes m a (bs @ [b]) x"
    using offset_iff [OF assms, of x a]
    by (auto simp: write_bytes_def nth_append less_Suc_eq)
qed

lemma write_bytes_Cons:
  assumes "length bs < 2 ^ 64"
  shows "write_bytes m a (b # bs) = write_bytes (m(a := b)) (a + 1) bs"
proof
  fix x
  show "write_bytes m a (b # bs) x = write_bytes (m(a := b)) (a + 1) bs x"
  proof (cases "x = a")
    case True
    have "unat (a - (a + 1)) = 2 ^ 64 - 1" by (simp add: unsigned_minus_1_eq_mask mask_eq_exp_minus_1)
    then show ?thesis using assms True by (simp add: write_bytes_def)
  next
    case False
    then have "unat (x - a - 1) = unat (x - a) - 1" and "0 < unat (x - a)"
      by (simp_all add: unat_minus_one unat_gt_0)
    then show ?thesis using False
      by (auto simp: write_bytes_def nth_Cons' diff_diff_eq [symmetric])
  qed
qed

lemma read_bytes_Suc: "read_bytes m a (Suc n) = m a # read_bytes m (a + 1) n"
proof (rule nth_equalityI)
  fix i assume "i < length (read_bytes m a (Suc n))"
  then show "read_bytes m a (Suc n) ! i = (m a # read_bytes m (a + 1) n) ! i"
    by (cases i) (simp_all add: add.assoc)
qed simp

lemma read_bytes_snoc: "read_bytes m a (Suc n) = read_bytes m a n @ [m (a + of_nat n)]"
  by (simp add: read_bytes_def)

lemma read_bytes_upd:
  "n \<le> unat (x - a) \<Longrightarrow> n \<le> 2 ^ 64 \<Longrightarrow> read_bytes (m(x := b)) a n = read_bytes m a n"
  by (rule nth_equalityI) (auto simp: unat_of_nat64)

definition disjoint_range :: "addr \<Rightarrow> nat \<Rightarrow> addr \<Rightarrow> nat \<Rightarrow> bool" where
  "disjoint_range a n b k \<longleftrightarrow> (\<forall>i<k. n \<le> unat (b + of_nat i - a))"

lemma read_write_disjoint:
  "disjoint_range a (length bs) b k \<Longrightarrow> read_bytes (write_bytes m a bs) b k = read_bytes m b k"
  by (rule nth_equalityI) (auto simp: disjoint_range_def write_bytes_out)

text \<open>Inside one aligned block of a power-of-two size no carry leaves the block.\<close>

lemma disjoint_rangeI:
  assumes "unat (b - a) \<ge> n" and "unat (b - a) + k \<le> 2 ^ 64"
  shows "disjoint_range a n b k"
  unfolding disjoint_range_def
proof (intro allI impI)
  fix i assume "i < k"
  have eq: "b + of_nat i - a = (b - a) + of_nat i" by simp
  have "unat ((b - a) + of_nat i) = unat (b - a) + i"
    using assms(2) \<open>i < k\<close> by (simp add: unat_word_ariths unat_of_nat64)
  then show "n \<le> unat (b + of_nat i - a)" unfolding eq using assms(1) by simp
qed

lemma unat_diff_dvd:
  assumes "d dvd 2 ^ 64" and "d dvd unat (a :: u64)" and "d dvd unat b"
  shows "d dvd unat (b - a)"
proof -
  have "unat b = (unat (b - a) + unat a) mod 2 ^ 64"
    using unat_word_ariths(1) [of "b - a" a] by simp
  then have "d dvd (unat (b - a) + unat a) mod 2 ^ 64" using assms(3) by simp
  then have "d dvd unat (b - a) + unat a" using assms(1) by (simp only: dvd_mod_iff)
  then show ?thesis using assms(2) by (simp only: dvd_add_left_iff)
qed

lemma aligned_disjoint:
  assumes "a \<noteq> b" and d: "d dvd 2 ^ 64" "d dvd unat a" "d dvd unat b"
  shows "disjoint_range a d b d"
proof -
  have dv: "d dvd unat (b - a)" by (rule unat_diff_dvd [OF d])
  have "unat (b - a) \<noteq> 0" using assms(1) by (simp add: unat_eq_zero)
  then have lo: "d \<le> unat (b - a)" using dv by (simp add: dvd_imp_le)
  have "unat (b - a) < 2 ^ 64" using unat64_less [of "b - a"] by simp
  then obtain r where "2 ^ 64 = unat (b - a) + r" "0 < r"
    by (metis less_imp_add_positive)
  moreover have "d dvd r" using dv d(1) calculation(1) by (metis dvd_add_right_iff)
  ultimately have "unat (b - a) + d \<le> 2 ^ 64" using dvd_imp_le [of d r] by linarith
  with lo show ?thesis by (rule disjoint_rangeI)
qed

section \<open>64-bit cells\<close>

lemma load64_store64 [simp]: "load64 (store64 m a v) a = v"
  using read_write_bytes [of "bytes_of 8 v" m a]
  by (simp add: load64_def store64_def word_of_bytes_of)

lemma load64_store64_other:
  assumes "a \<noteq> b" and "8 dvd unat a" and "8 dvd unat b"
  shows "load64 (store64 m a v) b = load64 m b"
  using aligned_disjoint [OF assms(1) _ assms(2,3)]
  by (simp add: load64_def store64_def read_write_disjoint)

section \<open>Pages\<close>

lemma page_offset_iff:
  assumes "page_aligned a"
  shows "unat (x - a) < 4096 \<longleftrightarrow> PGROUNDDOWN x = a"
proof
  assume off: "unat (x - a) < 4096"
  obtain k where k: "unat a = 4096 * k" using assms by (auto simp: page_aligned_unat)
  have "unat x = unat a + unat (x - a)"
    using unat_word_ariths(1) [of a "x - a"] page_aligned_end [OF assms] off by simp
  then have "unat x div 4096 * 4096 = unat a" using off k by simp
  then show "PGROUNDDOWN x = a" by (simp add: word_unat_eq_iff unat_PGROUNDDOWN)
next
  assume "PGROUNDDOWN x = a"
  then have "x - a = take_bit 12 x" by (auto simp: PGROUNDDOWN_bits)
  then show "unat (x - a) < 4096" by (simp add: unat_take_bit12)
qed

lemma page_8_offset:
  assumes "8 dvd unat x" and "i < 8"
  shows "PGROUNDDOWN (x + of_nat i) = PGROUNDDOWN x"
proof -
  obtain k where k: "unat x = 8 * k" using assms(1) by auto
  have "unat x + i < 2 ^ 64"
  proof -
    have "8 * k < 8 * 2 ^ 61" using unat64_less [of x] k by simp
    then have "k + 1 \<le> 2 ^ 61" by simp
    then show ?thesis using k assms(2) by simp
  qed
  then have "unat (x + of_nat i) = 8 * k + i"
    using k assms(2) by (simp add: unat_word_ariths unat_of_nat64)
  moreover have "(8 * k + i) div 4096 = (8 * k) div 4096"
    using assms(2) by (simp add: div_mult2_eq [of _ 8 512, simplified])
  ultimately show ?thesis using k by (simp add: word_unat_eq_iff unat_PGROUNDDOWN)
qed

lemma write_bytes_page:
  assumes "page_aligned a" and "length bs \<le> 4096" and "PGROUNDDOWN x \<noteq> a"
  shows "write_bytes m a bs x = m x"
proof (rule write_bytes_out)
  show "length bs \<le> unat (x - a)"
    using page_offset_iff [OF assms(1), of x] assms(2,3) by simp
qed

lemma load64_cong:
  assumes "8 dvd unat x" and "\<And>y. PGROUNDDOWN y = PGROUNDDOWN x \<Longrightarrow> m y = m' y"
  shows "load64 m x = load64 m' x"
proof -
  have "read_bytes m x 8 = read_bytes m' x 8"
    by (rule nth_equalityI) (simp_all add: assms(2) page_8_offset [OF assms(1)])
  then show ?thesis by (simp add: load64_def)
qed

lemma store64_page:
  assumes "8 dvd unat x" and "PGROUNDDOWN y \<noteq> PGROUNDDOWN x"
  shows "store64 m x v y = m y"
proof -
  have "8 \<le> unat (y - x)"
  proof (rule ccontr)
    assume "\<not> 8 \<le> unat (y - x)"
    then have "unat (y - x) < 8" by simp
    from page_8_offset [OF assms(1) this] assms(2) show False by simp
  qed
  then show ?thesis by (simp add: store64_def write_bytes_out)
qed

lemma page_aligned_8: "page_aligned a \<Longrightarrow> 8 dvd unat a"
  by (auto simp: page_aligned_unat)

section \<open>Fields of a block\<close>

definition get32 :: "byte list \<Rightarrow> nat \<Rightarrow> u32" where
  "get32 bs off = word_of (take 4 (drop off bs))"

definition get64 :: "byte list \<Rightarrow> nat \<Rightarrow> u64" where
  "get64 bs off = word_of (take 8 (drop off bs))"

definition get16 :: "byte list \<Rightarrow> nat \<Rightarrow> u16" where
  "get16 bs off = word_of (take 2 (drop off bs))"

definition put_bytes :: "byte list \<Rightarrow> nat \<Rightarrow> byte list \<Rightarrow> byte list" where
  "put_bytes bs off cs = take off bs @ cs @ drop (off + length cs) bs"

definition put32 :: "byte list \<Rightarrow> nat \<Rightarrow> u32 \<Rightarrow> byte list" where
  "put32 bs off w = put_bytes bs off (bytes_of 4 w)"

definition put16 :: "byte list \<Rightarrow> nat \<Rightarrow> u16 \<Rightarrow> byte list" where
  "put16 bs off w = put_bytes bs off (bytes_of 2 w)"

lemma length_put_bytes [simp]: "off + length cs \<le> length bs \<Longrightarrow> length (put_bytes bs off cs) = length bs"
  by (simp add: put_bytes_def)

lemma length_put32 [simp]: "off + 4 \<le> length bs \<Longrightarrow> length (put32 bs off w) = length bs"
  by (simp add: put32_def)

lemma length_put16 [simp]: "off + 2 \<le> length bs \<Longrightarrow> length (put16 bs off w) = length bs"
  by (simp add: put16_def)

lemma take_drop_put_same: "off + length cs \<le> length bs \<Longrightarrow> take (length cs) (drop off (put_bytes bs off cs)) = cs"
  by (simp add: put_bytes_def)

lemma take_drop_put_other:
  assumes "off + length cs \<le> length bs" and "k + n \<le> off \<or> off + length cs \<le> k"
  shows "take n (drop k (put_bytes bs off cs)) = take n (drop k bs)"
proof (rule nth_equalityI)
  show "length (take n (drop k (put_bytes bs off cs))) = length (take n (drop k bs))"
    using assms(1) by simp
  show "take n (drop k (put_bytes bs off cs)) ! i = take n (drop k bs) ! i"
    if "i < length (take n (drop k (put_bytes bs off cs)))" for i
    using that assms by (auto simp: put_bytes_def nth_append)
qed

lemma get32_put32 [simp]: "off + 4 \<le> length bs \<Longrightarrow> get32 (put32 bs off w) off = w"
  using take_drop_put_same [of off "bytes_of 4 w" bs] by (simp add: get32_def put32_def word_of_bytes_of)

lemma get32_put32_other:
  "off + 4 \<le> length bs \<Longrightarrow> k + 4 \<le> off \<or> off + 4 \<le> k \<Longrightarrow> get32 (put32 bs off w) k = get32 bs k"
  using take_drop_put_other [of off "bytes_of 4 w" bs k 4] by (simp add: get32_def put32_def)

lemma get16_put16 [simp]: "off + 2 \<le> length bs \<Longrightarrow> get16 (put16 bs off w) off = w"
  using take_drop_put_same [of off "bytes_of 2 w" bs] by (simp add: get16_def put16_def word_of_bytes_of)

end
