(* ===== verification/Kstring.thy ===== *)
theory Kstring
  imports Bytes
begin

text \<open>
  \<^verbatim>\<open>kernel/string.c\<close>: the byte and string routines of the kernel, over byte memory. A
  routine that writes returns the new memory; each C loop is a recursion that performs
  the loop's stores in the order of the code, so overlapping buffers behave as they do in
  the C. The lemmas give each routine's effect as one list operation.
\<close>

section \<open>Definitions\<close>

primrec memset_loop :: "nat \<Rightarrow> mem \<Rightarrow> addr \<Rightarrow> byte \<Rightarrow> mem" where
  "memset_loop 0 m dst c = m"
| "memset_loop (Suc i) m dst c = (memset_loop i m dst c)(dst + of_nat i := c)"

definition memset :: "mem \<Rightarrow> addr \<Rightarrow> i32 \<Rightarrow> u32 \<Rightarrow> mem" where
  "memset m dst c n = memset_loop (unat n) m dst (ucast c)"

primrec memcmp_loop :: "nat \<Rightarrow> mem \<Rightarrow> addr \<Rightarrow> addr \<Rightarrow> i32" where
  "memcmp_loop 0 m s1 s2 = 0"
| "memcmp_loop (Suc n) m s1 s2 =
     (if m s1 \<noteq> m s2 then ucast (m s1) - ucast (m s2) else memcmp_loop n m (s1 + 1) (s2 + 1))"

definition memcmp :: "mem \<Rightarrow> addr \<Rightarrow> addr \<Rightarrow> u32 \<Rightarrow> i32" where
  "memcmp m v1 v2 n = memcmp_loop (unat n) m v1 v2"

primrec move_up :: "nat \<Rightarrow> mem \<Rightarrow> addr \<Rightarrow> addr \<Rightarrow> mem" where
  "move_up 0 m d s = m"
| "move_up (Suc n) m d s = move_up n (m(d := m s)) (d + 1) (s + 1)"

primrec move_down :: "nat \<Rightarrow> mem \<Rightarrow> addr \<Rightarrow> addr \<Rightarrow> mem" where
  "move_down 0 m d s = m"
| "move_down (Suc n) m d s = move_down n (m(d - 1 := m (s - 1))) (d - 1) (s - 1)"

definition memmove :: "mem \<Rightarrow> addr \<Rightarrow> addr \<Rightarrow> u32 \<Rightarrow> mem" where
  "memmove m dst src n =
     (if n = 0 then m
      else if src < dst \<and> src + ucast n > dst
      then move_down (unat n) m (dst + ucast n) (src + ucast n)
      else move_up (unat n) m dst src)"

definition memcpy :: "mem \<Rightarrow> addr \<Rightarrow> addr \<Rightarrow> u32 \<Rightarrow> mem" where
  "memcpy m dst src n = memmove m dst src n"

primrec strncmp_loop :: "nat \<Rightarrow> mem \<Rightarrow> addr \<Rightarrow> addr \<Rightarrow> i32" where
  "strncmp_loop 0 m p q = 0"
| "strncmp_loop (Suc n) m p q =
     (if m p \<noteq> 0 \<and> m p = m q then strncmp_loop n m (p + 1) (q + 1)
      else ucast (m p) - ucast (m q))"

definition strncmp :: "mem \<Rightarrow> addr \<Rightarrow> addr \<Rightarrow> u32 \<Rightarrow> i32" where
  "strncmp m p q n = strncmp_loop (unat n) m p q"

primrec zero_fill :: "nat \<Rightarrow> mem \<Rightarrow> addr \<Rightarrow> mem" where
  "zero_fill 0 m s = m"
| "zero_fill (Suc n) m s = zero_fill n (m(s := 0)) (s + 1)"

primrec strncpy_loop :: "nat \<Rightarrow> mem \<Rightarrow> addr \<Rightarrow> addr \<Rightarrow> mem" where
  "strncpy_loop 0 m s t = m"
| "strncpy_loop (Suc n) m s t =
     (if m t \<noteq> 0 then strncpy_loop n (m(s := m t)) (s + 1) (t + 1)
      else zero_fill n (m(s := m t)) (s + 1))"

definition strncpy :: "mem \<Rightarrow> addr \<Rightarrow> addr \<Rightarrow> i32 \<Rightarrow> mem" where
  "strncpy m s t n = strncpy_loop (nat (sint n)) m s t"

text \<open>\<open>n\<close> is the value after the \<^verbatim>\<open>--n\<close> of the loop test.\<close>

primrec safestrcpy_loop :: "nat \<Rightarrow> mem \<Rightarrow> addr \<Rightarrow> addr \<Rightarrow> mem" where
  "safestrcpy_loop 0 m s t = m(s := 0)"
| "safestrcpy_loop (Suc n) m s t =
     (if m t \<noteq> 0 then safestrcpy_loop n (m(s := m t)) (s + 1) (t + 1)
      else (m(s := m t))(s + 1 := 0))"

definition safestrcpy :: "mem \<Rightarrow> addr \<Rightarrow> addr \<Rightarrow> i32 \<Rightarrow> mem" where
  "safestrcpy m s t n =
     (if sint n \<le> 0 then m else safestrcpy_loop (nat (sint n) - 1) m s t)"

partial_function (option) strlen_loop :: "mem \<Rightarrow> addr \<Rightarrow> nat \<Rightarrow> nat option" where
  "strlen_loop m s n = (if m (s + of_nat n) = 0 then Some n else strlen_loop m s (Suc n))"

definition strlen :: "mem \<Rightarrow> addr \<Rightarrow> nat option" where
  "strlen m s = strlen_loop m s 0"

section \<open>What the routines do\<close>

lemma memset_loop_write:
  "n \<le> 2 ^ 64 \<Longrightarrow> memset_loop n m dst c = write_bytes m dst (replicate n c)"
proof (induction n)
  case (Suc n)
  then show ?case
    using write_bytes_snoc [of "replicate n c" m dst c] by (simp flip: replicate_append_same)
qed simp

lemma unat32_less: "unat (n :: u32) < 2 ^ 32"
proof -
  have "unat n < 2 ^ LENGTH(32)" by (rule unsigned_less)
  then show ?thesis by simp
qed

lemma memset_write: "memset m dst c n = write_bytes m dst (replicate (unat n) (ucast c))"
  using unat32_less [of n] by (simp add: memset_def memset_loop_write)

lemma move_up_write:
  assumes "n \<le> 2 ^ 64" and "d = s \<or> n \<le> unat (d - s)"
  shows "move_up n m d s = write_bytes m d (read_bytes m s n)"
  using assms
proof (induction n arbitrary: m d s)
  case 0
  then show ?case by simp
next
  case (Suc n)
  have keep: "read_bytes (m(d := m s)) (s + 1) n = read_bytes m (s + 1) n"
  proof (cases "d = s")
    case False
    then have "unat (d - s - 1) = unat (d - s) - 1" by (simp add: unat_minus_one)
    then have "n \<le> unat (d - (s + 1))" using Suc.prems(2) False by (simp add: diff_diff_eq)
    then show ?thesis using Suc.prems(1) by (simp add: read_bytes_upd)
  qed simp
  have "d + 1 = s + 1 \<or> n \<le> unat (d + 1 - (s + 1))"
    using Suc.prems(2) by auto
  then have "move_up n (m(d := m s)) (d + 1) (s + 1) =
      write_bytes (m(d := m s)) (d + 1) (read_bytes (m(d := m s)) (s + 1) n)"
    using Suc.prems(1) by (intro Suc.IH) auto
  then show ?case
    using Suc.prems(1) keep by (simp add: read_bytes_Suc write_bytes_Cons)
qed

lemma move_down_write:
  assumes "n \<le> 2 ^ 64" and "d = s \<or> n \<le> unat (s - d)"
  shows "move_down n m (d + of_nat n) (s + of_nat n) = write_bytes m d (read_bytes m s n)"
  using assms
proof (induction n arbitrary: m)
  case 0
  then show ?case by simp
next
  case (Suc n)
  let ?m = "m(d + of_nat n := m (s + of_nat n))"
  have "n < 2 ^ 64" using Suc.prems(1) by simp
  have keep: "read_bytes ?m s n = read_bytes m s n"
  proof (cases "d = s")
    case True
    then show ?thesis by simp
  next
    case False
    have "s + of_nat i \<noteq> d + of_nat n" if "i < n" for i
    proof
      assume "s + of_nat i = d + of_nat n"
      then have "s - d = of_nat n - of_nat i" by (simp add: algebra_simps)
      also have "\<dots> = of_nat (n - i)" using that by (simp add: of_nat_diff)
      finally have "unat (s - d) = n - i" using \<open>n < 2 ^ 64\<close> by (simp add: unat_of_nat64)
      then show False using Suc.prems(2) False by simp
    qed
    then show ?thesis by (intro nth_equalityI) auto
  qed
  have "move_down (Suc n) m (d + of_nat (Suc n)) (s + of_nat (Suc n))
      = move_down n ?m (d + of_nat n) (s + of_nat n)"
    by (simp add: add.assoc [symmetric] add.commute [of 1])
  also have "\<dots> = write_bytes ?m d (read_bytes ?m s n)"
    using Suc.prems by (intro Suc.IH) auto
  also have "\<dots> = write_bytes ?m d (read_bytes m s n)"
    by (simp only: keep)
  also have "\<dots> = write_bytes m d (read_bytes m s (Suc n))"
    using write_bytes_upd_end [of "read_bytes m s n"] \<open>n < 2 ^ 64\<close> by (simp add: read_bytes_snoc)
  finally show ?case .
qed

text \<open>
  \<^verbatim>\<open>memmove\<close> copies the old contents of the source to the destination whether or not the
  two overlap, as long as neither buffer reaches the end of the address space.
\<close>

lemma memmove_write:
  assumes s: "unat src + unat n < 2 ^ 64" and d: "unat dst + unat n < 2 ^ 64"
  shows "memmove m dst src n = write_bytes m dst (read_bytes m src (unat n))"
proof (cases "n = 0")
  case True
  then show ?thesis by (simp add: memmove_def)
next
  case False
  have n: "unat n \<le> 2 ^ 64" using s by simp
  have un: "unat (ucast n :: u64) = unat n" by (simp add: unsigned_ucast_eq take_bit_eq_mod unat32_less [THEN less_trans])
  have sn: "unat (src + ucast n) = unat src + unat n"
    using s by (simp add: unat_word_ariths un)
  show ?thesis
  proof (cases "src < dst \<and> src + ucast n > dst")
    case True
    then have lt: "unat src < unat dst" "unat dst < unat src + unat n"
      by (simp_all add: word_less_nat_alt sn)
    have "unat n \<le> unat (src - dst)" using d lt by (simp add: unat_sub_wrap)
    then show ?thesis
      using True False move_down_write [OF n, of dst src m] by (simp add: memmove_def)
  next
    case False2: False
    have "dst = src \<or> unat n \<le> unat (dst - src)"
    proof (cases "src < dst")
      case True
      then have "unat (dst - src) = unat dst - unat src" by (simp add: unat_sub)
      then show ?thesis using False2 True sn by (auto simp: word_less_nat_alt not_less)
    next
      case False
      then consider "dst = src" | "unat dst < unat src"
        by (force simp: word_less_nat_alt word_unat_eq_iff)
      then show ?thesis
      proof cases
        case 2
        then show ?thesis using s by (auto simp: unat_sub_wrap)
      qed simp
    qed
    then show ?thesis
      using False False2 move_up_write [OF n, of dst src m] by (auto simp: memmove_def)
  qed
qed

subsection \<open>Comparison\<close>

lemma ucast_byte_inj [simp]: "(ucast (b :: byte) :: i32) = ucast c \<longleftrightarrow> b = c"
proof
  assume eq: "(ucast b :: i32) = ucast c"
  show "b = c"
  proof (rule bit_word_eqI)
    fix n assume "n < LENGTH(8)"
    then have "bit b n = bit (ucast b :: i32) n" "bit c n = bit (ucast c :: i32) n"
      by (simp_all add: bit_ucast_iff)
    then show "bit b n = bit c n" by (simp add: eq)
  qed
qed simp

lemma ucast_byte_0 [simp]: "(ucast (b :: byte) :: i32) = 0 \<longleftrightarrow> b = 0"
  using ucast_byte_inj [of b 0] by simp

lemma memcmp_loop_0: "memcmp_loop n m a b = 0 \<longleftrightarrow> read_bytes m a n = read_bytes m b n"
  by (induction n arbitrary: a b) (auto simp: read_bytes_Suc)

lemma memcmp_0: "memcmp m a b n = 0 \<longleftrightarrow> read_bytes m a (unat n) = read_bytes m b (unat n)"
  by (simp add: memcmp_def memcmp_loop_0)

text \<open>
  The C string at an address, cut at \<open>n\<close> bytes: what \<^verbatim>\<open>strncmp\<close>, \<^verbatim>\<open>strncpy\<close> and
  \<^verbatim>\<open>safestrcpy\<close> see of it.
\<close>

primrec cstr :: "nat \<Rightarrow> mem \<Rightarrow> addr \<Rightarrow> byte list" where
  "cstr 0 m a = []"
| "cstr (Suc n) m a = (if m a = 0 then [] else m a # cstr n m (a + 1))"

lemma cstr_takeWhile: "cstr n m a = takeWhile (\<lambda>b. b \<noteq> 0) (read_bytes m a n)"
  by (induction n arbitrary: a) (auto simp: read_bytes_Suc)

lemma length_cstr: "length (cstr n m a) \<le> n"
  by (induction n arbitrary: a) auto

lemma strncmp_loop_0: "strncmp_loop n m p q = 0 \<longleftrightarrow> cstr n m p = cstr n m q"
  by (induction n arbitrary: p q) auto

lemma strncmp_0: "strncmp m p q n = 0 \<longleftrightarrow> cstr (unat n) m p = cstr (unat n) m q"
  by (simp add: strncmp_def strncmp_loop_0)

subsection \<open>String copies\<close>

lemma zero_fill_write: "n \<le> 2 ^ 64 \<Longrightarrow> zero_fill n m s = write_bytes m s (replicate n 0)"
  by (induction n arbitrary: m s) (simp_all add: write_bytes_Cons)

lemma cstr_upd: "n \<le> unat (x - a) \<Longrightarrow> n \<le> 2 ^ 64 \<Longrightarrow> cstr n (m(x := b)) a = cstr n m a"
  by (simp add: cstr_takeWhile read_bytes_upd)

lemma strncpy_loop_write:
  assumes "n \<le> 2 ^ 64" and "n \<le> unat (s - t)"
  shows "strncpy_loop n m s t =
    write_bytes m s (cstr n m t @ replicate (n - length (cstr n m t)) 0)"
  using assms
proof (induction n arbitrary: m s t)
  case 0
  then show ?case by simp
next
  case (Suc n)
  have "s \<noteq> t" using Suc.prems(2) by auto
  then have "unat (s - t - 1) = unat (s - t) - 1" by (simp add: unat_minus_one)
  then have "n \<le> unat (s - (t + 1))" using Suc.prems(2) by (simp add: diff_diff_eq)
  then have keep: "cstr n (m(s := m t)) (t + 1) = cstr n m (t + 1)"
    using Suc.prems(1) by (simp add: cstr_upd)
  have "strncpy_loop n (m(s := m t)) (s + 1) (t + 1) = write_bytes (m(s := m t)) (s + 1)
      (cstr n (m(s := m t)) (t + 1) @ replicate (n - length (cstr n (m(s := m t)) (t + 1))) 0)"
    using Suc.prems by (intro Suc.IH) auto
  then show ?case
    using Suc.prems keep length_cstr [of n m "t + 1"]
    by (simp add: zero_fill_write write_bytes_Cons)
qed

lemma safestrcpy_loop_write:
  assumes "n < 2 ^ 63" and "n < unat (s - t)"
  shows "safestrcpy_loop n m s t =
    write_bytes m s (cstr n m t @ (if length (cstr n m t) < n then [0, 0] else [0]))"
  using assms
proof (induction n arbitrary: m s t)
  case 0
  then show ?case by (simp add: write_bytes_Cons)
next
  case (Suc n)
  have "s \<noteq> t" using Suc.prems(2) by auto
  then have "unat (s - t - 1) = unat (s - t) - 1" by (simp add: unat_minus_one)
  then have "n \<le> unat (s - (t + 1))" using Suc.prems(2) by (simp add: diff_diff_eq)
  then have keep: "cstr n (m(s := m t)) (t + 1) = cstr n m (t + 1)"
    using Suc.prems(1) by (simp add: cstr_upd)
  have "safestrcpy_loop n (m(s := m t)) (s + 1) (t + 1) = write_bytes (m(s := m t)) (s + 1)
      (cstr n (m(s := m t)) (t + 1) @
       (if length (cstr n (m(s := m t)) (t + 1)) < n then [0, 0] else [0]))"
    using Suc.prems by (intro Suc.IH) auto
  then show ?case
    using Suc.prems keep length_cstr [of n m "t + 1"] by (auto simp: write_bytes_Cons)
qed

lemma strlen_loop_Some:
  "(\<forall>i<n. m (s + of_nat (k + i)) \<noteq> 0) \<Longrightarrow> m (s + of_nat (k + n)) = 0 \<Longrightarrow>
   strlen_loop m s k = Some (k + n)"
proof (induction n arbitrary: k)
  case 0
  then show ?case by (simp add: strlen_loop.simps)
next
  case (Suc n)
  have "m (s + of_nat k) \<noteq> 0" using Suc.prems(1) by fastforce
  moreover have "strlen_loop m s (Suc k) = Some (Suc k + n)"
  proof (rule Suc.IH)
    show "\<forall>i<n. m (s + of_nat (Suc k + i)) \<noteq> 0"
      using Suc.prems(1) by (metis Suc_less_eq add_Suc_shift)
    show "m (s + of_nat (Suc k + n)) = 0" using Suc.prems(2) by (simp add: add_ac)
  qed
  ultimately show ?case by (subst strlen_loop.simps) simp
qed

lemma strlen_Some:
  "(\<forall>i<n. m (s + of_nat i) \<noteq> 0) \<Longrightarrow> m (s + of_nat n) = 0 \<Longrightarrow> strlen m s = Some n"
  using strlen_loop_Some [of n m s 0] by (simp add: strlen_def)

lemma read_write_prefix:
  assumes "n \<le> length bs" and "length bs \<le> 2 ^ 64"
  shows "read_bytes (write_bytes m a bs) a n = take n bs"
  by (rule nth_equalityI) (use assms in \<open>auto simp: write_bytes_in\<close>)

section \<open>Properties\<close>

text \<open>
  C15. \<^verbatim>\<open>memmove\<close> copies correctly even when the two ranges overlap: afterwards the destination
  holds the bytes the source held before, and no other byte has changed. The ranges may not wrap around the
  address space.
\<close>

theorem memmove_copies:
  assumes "unat src + unat n < 2 ^ 64" and "unat dst + unat n < 2 ^ 64"
  shows "read_bytes (memmove m dst src n) dst (unat n) = read_bytes m src (unat n) \<and>
     (\<forall>x. unat n \<le> unat (x - dst) \<longrightarrow> memmove m dst src n x = m x)"
proof -
  have "length (read_bytes m src (unat n)) \<le> 2 ^ 64" using assms by simp
  then show ?thesis
    unfolding memmove_write [OF assms] by (simp add: read_write_prefix write_bytes_out)
qed

theorem memmove_copies_witness:
  "read_bytes (memmove (\<lambda>a. ucast a) 0x1001 0x1000 8) 0x1001 8 = [0, 1, 2, 3, 4, 5, 6, 7]"
proof -
  have "read_bytes (memmove (\<lambda>a. ucast a) 0x1001 0x1000 8) 0x1001 8 = read_bytes (\<lambda>a. ucast a) 0x1000 8"
    using memmove_copies [of "0x1000" 8 "0x1001" "\<lambda>a. ucast a"] by simp
  also have "\<dots> = [0, 1, 2, 3, 4, 5, 6, 7]" by (simp add: read_bytes_def upt_rec)
  finally show ?thesis .
qed

text \<open>
  C16. \<^verbatim>\<open>safestrcpy\<close> always leaves a terminated string: as much of the source string as fits
  with its terminating zero into the \<open>n\<close> bytes of the destination, and it writes to no byte beyond them.
\<close>

theorem safestrcpy_terminates:
  assumes "0 < sint n" and "nat (sint n) \<le> unat (s - t)"
  shows "let c = cstr (nat (sint n) - 1) m t in read_bytes (safestrcpy m s t n) s (length c + 1) = c @ [0] \<and>
     length c < nat (sint n) \<and> (\<forall>x. nat (sint n) \<le> unat (x - s) \<longrightarrow> safestrcpy m s t n x = m x)"
proof -
  define k where "k = nat (sint n) - 1"
  have k: "nat (sint n) = Suc k" "k < unat (s - t)" "k < 2 ^ 31" using assms sint_less [of n] by (simp_all add: k_def)
  let ?c = "cstr k m t"
  let ?bs = "?c @ (if length ?c < k then [0, 0] else [0])"
  have len: "length ?bs \<le> Suc k" "length ?c < Suc k" using length_cstr [of k m t] by auto
  have w: "safestrcpy m s t n = write_bytes m s ?bs"
    using assms(1) k by (simp add: safestrcpy_def safestrcpy_loop_write)
  have "length ?bs \<le> 2 ^ 64" using len(1) k(3) by simp
  then have "read_bytes (safestrcpy m s t n) s (length ?c + 1) = take (length ?c + 1) ?bs"
    unfolding w by (intro read_write_prefix) auto
  moreover have "safestrcpy m s t n x = m x" if "Suc k \<le> unat (x - s)" for x
    unfolding w using len(1) that by (intro write_bytes_out) simp
  ultimately show ?thesis using len(2) by (simp add: k(1) Let_def)
qed

theorem safestrcpy_terminates_witness:
  "read_bytes (safestrcpy (\<lambda>a. if a = 0x2003 then 0 else ucast a + 65) 0x3000 0x2000 16) 0x3000 4 = [65, 66, 67, 0]"
proof -
  let ?m = "\<lambda>a. if a = 0x2003 then 0 else ucast a + 65"
  have "cstr 15 ?m 0x2000 = [65, 66, 67]" by (simp add: cstr_takeWhile read_bytes_def upt_rec)
  moreover have "(4 :: nat) = Suc (Suc (Suc (Suc 0)))" by simp
  ultimately show ?thesis using safestrcpy_terminates [of 16 "0x3000" "0x2000" ?m] by (simp only:) (simp add: Let_def)
qed

end
