(* ===== verification/Page_Pool.thy ===== *)
theory Page_Pool
  imports Prelude
begin

text \<open>
  What the kernel relies on of its page allocator, and what follows from it for every client:
  \<open>pool e ps s\<close> says that \<open>ps\<close> are the pages the allocator can still hand out. Page
  tables, processes and pipes call the allocator only through these laws.
\<close>

primrec alloc_times :: "('s, addr) K \<Rightarrow> nat \<Rightarrow> ('s, addr list) K" where
  "alloc_times alloc 0 = returnK []"
| "alloc_times alloc (Suc n) =
     bindK alloc (\<lambda>p. bindK (alloc_times alloc n) (\<lambda>ps. returnK (p # ps)))"

locale page_pool =
  fixes alloc :: "('s, addr) K"
    and free :: "addr \<Rightarrow> ('s, unit) K"
    and pool :: "'s env \<Rightarrow> addr list \<Rightarrow> 's \<Rightarrow> bool"
    and page :: "'s env \<Rightarrow> addr \<Rightarrow> bool"
  assumes alloc_page: "pool e (p # ps) s \<Longrightarrow> wpK alloc (\<lambda>r t. r = p \<and> pool e ps t) e s"
    and alloc_empty: "pool e [] s \<Longrightarrow> wpK alloc (\<lambda>r t. r = 0 \<and> pool e [] t) e s"
    and free_page: "pool e ps s \<Longrightarrow> page e p \<Longrightarrow> p \<notin> set ps \<Longrightarrow>
      wpK (free p) (\<lambda>_ t. pool e (p # ps) t) e s"
    and free_other: "\<not> page e p \<Longrightarrow> \<not> wpK (free p) Q e s"
    and pool_distinct: "pool e ps s \<Longrightarrow> distinct ps"
    and pool_page: "pool e ps s \<Longrightarrow> p \<in> set ps \<Longrightarrow> page e p"
    and pool_nonnull: "pool e ps s \<Longrightarrow> p \<in> set ps \<Longrightarrow> p \<noteq> 0"
begin

lemma alloc_cases:
  assumes "pool e ps s"
  shows "wpK alloc (\<lambda>r t. (r = 0 \<longleftrightarrow> ps = []) \<and> (r \<noteq> 0 \<longrightarrow> r = hd ps \<and> page e r) \<and> pool e (tl ps) t) e s"
proof (cases ps)
  case Nil
  then show ?thesis using alloc_empty [of e s] assms by (auto elim!: wpK_mono)
next
  case (Cons p qs)
  then have "p \<noteq> 0" "page e p" using assms pool_nonnull pool_page by auto
  then show ?thesis using alloc_page [of e p qs s] assms Cons by (auto elim!: wpK_mono)
qed

lemma alloc_free:
  assumes "pool e (p # ps) s"
  shows "wpK (bindK alloc free) (\<lambda>_ t. pool e (p # ps) t) e s"
proof -
  have "page e p" "p \<notin> set ps" using pool_page [OF assms] pool_distinct [OF assms] by auto
  then have "wpK alloc (\<lambda>r t. wpK (free r) (\<lambda>_ u. pool e (p # ps) u) e t) e s"
    using alloc_page [OF assms] by (auto elim!: wpK_mono intro: free_page)
  then show ?thesis by (simp add: wp)
qed

lemma free_alloc:
  assumes "pool e ps s" and "page e p" and "p \<notin> set ps"
  shows "wpK (thenK (free p) alloc) (\<lambda>r t. r = p \<and> pool e ps t) e s"
proof -
  have "wpK (free p) (\<lambda>_ t. wpK alloc (\<lambda>r t. r = p \<and> pool e ps t) e t) e s"
    using free_page [OF assms] by (auto elim!: wpK_mono intro: alloc_page)
  then show ?thesis by (simp add: wp)
qed

lemma alloc_times_run:
  "pool e ps s \<Longrightarrow> wpK (alloc_times alloc n)
     (\<lambda>rs t. rs = take n ps @ replicate (n - length ps) 0 \<and> pool e (drop n ps) t) e s"
proof (induction n arbitrary: ps s)
  case 0
  then show ?case by (simp add: wp)
next
  case (Suc n)
  show ?case
  proof (cases ps)
    case Nil
    have "wpK alloc (\<lambda>r t. wpK (alloc_times alloc n)
        (\<lambda>rs u. r # rs = replicate (Suc n) 0 \<and> pool e [] u) e t) e s"
      using alloc_empty [OF Suc.prems [unfolded Nil]]
      by (rule wpK_mono) (rule wpK_mono [OF Suc.IH [of "[]"]], auto)
    then show ?thesis by (simp add: wp Nil)
  next
    case (Cons p qs)
    have "wpK alloc (\<lambda>r t. wpK (alloc_times alloc n)
        (\<lambda>rs u. r # rs = p # take n qs @ replicate (n - length qs) 0 \<and> pool e (drop n qs) u) e t) e s"
      using alloc_page [OF Suc.prems [unfolded Cons]]
      by (rule wpK_mono) (rule wpK_mono [OF Suc.IH [of qs]], auto)
    then show ?thesis by (simp add: wp Cons)
  qed
qed

lemma free_all:
  assumes "pool e ps s" and "distinct qs" and "set qs \<inter> set ps = {}" and "\<forall>q \<in> set qs. page e q"
  shows "wpK (foreachK qs free) (\<lambda>_ t. pool e (rev qs @ ps) t) e s"
  using assms
proof (induction qs arbitrary: ps s)
  case Nil
  then show ?case by (simp add: wp)
next
  case (Cons q qs)
  have "wpK (free q) (\<lambda>_ t. pool e (q # ps) t) e s"
    using Cons.prems by (intro free_page) auto
  then have "wpK (free q) (\<lambda>_ t. wpK (foreachK qs free) (\<lambda>_ u. pool e (rev qs @ q # ps) u) e t) e s"
    by (rule wpK_mono) (rule Cons.IH, use Cons.prems in auto)
  then show ?case by (simp add: wp)
qed

end

end
