(* ===== verification/Kalloc.thy ===== *)
theory Kalloc
  imports Spinlock Kstring Page_Pool
begin

text \<open>
  \<^verbatim>\<open>kernel/kalloc.c\<close>: the allocator of 4096-byte physical pages. The free list is kept as
  the code keeps it, threaded through the first eight bytes of the free pages; \<open>freechain\<close>
  reads it back as a list. The invariant \<open>kmem_inv\<close> says that the list is finite, has no
  repetition and holds only pages between \<open>end\<close> and \<open>PHYSTOP\<close>; every operation keeps it,
  and seen through it the allocator is a stack of pages.
\<close>

record kmem_st = kst +
  mem :: mem
  freelist :: addr

text \<open>Updates of different fields commute; runs are stated with the outer record's fields last.\<close>

lemma kmem_st_upd_order [simp]:
  fixes s :: "'z kmem_st_scheme"
  shows "mach_update f (mem_update g s) = mem_update g (mach_update f s)"
    and "mach_update f (freelist_update h s) = freelist_update h (mach_update f s)"
    and "mem_update g (freelist_update h s) = freelist_update h (mem_update g s)"
  by simp_all

definition upd_mem :: "(mem \<Rightarrow> mem) \<Rightarrow> ('z kmem_st_scheme, unit) K" where
  "upd_mem f = modifyK (\<lambda>s. s\<lparr>mem := f (mem s)\<rparr>)"

section \<open>Operations\<close>

definition kfree :: "addr \<Rightarrow> ('z kmem_st_scheme, unit) K" where
  "kfree pa =
     bindK (askK end_sym) (\<lambda>end.
     if pa mod PGSIZE \<noteq> 0 \<or> pa < end \<or> pa \<ge> PHYSTOP then panic ''kfree'' else
     seqK [
       upd_mem (\<lambda>m. memset m pa 1 (ucast PGSIZE)),
       acquire Kmem_lock,
       modifyK (\<lambda>s. s\<lparr>mem := store64 (mem s) pa (freelist s)\<rparr>),
       modifyK (\<lambda>s. s\<lparr>freelist := pa\<rparr>),
       release Kmem_lock])"

definition kalloc :: "('z kmem_st_scheme, addr) K" where
  "kalloc =
     thenK (acquire Kmem_lock) (
     bindK (getsK freelist) (\<lambda>r.
     thenK (whenK (r \<noteq> 0) (modifyK (\<lambda>s. s\<lparr>freelist := load64 (mem s) r\<rparr>))) (
     thenK (release Kmem_lock) (
     thenK (whenK (r \<noteq> 0) (upd_mem (\<lambda>m. memset m r 5 (ucast PGSIZE))))
       (returnK r)))))"

definition freerange :: "addr \<Rightarrow> addr \<Rightarrow> ('z kmem_st_scheme, unit) K" where
  "freerange pa_start pa_end =
     loopK (\<lambda>p. if p + PGSIZE \<le> pa_end
                 then thenK (kfree p) (returnK (Inl (p + PGSIZE)))
                 else returnK (Inr ()))
       (PGROUNDUP pa_start)"

definition kinit :: "('z kmem_st_scheme, unit) K" where
  "kinit = thenK (initlock Kmem_lock ''kmem'') (bindK (askK end_sym) (\<lambda>end. freerange end PHYSTOP))"

section \<open>The free list\<close>

primrec freechain :: "mem \<Rightarrow> addr \<Rightarrow> addr list \<Rightarrow> bool" where
  "freechain m p [] \<longleftrightarrow> p = 0"
| "freechain m p (x # xs) \<longleftrightarrow> p = x \<and> x \<noteq> 0 \<and> freechain m (load64 m x) xs"

definition kpage :: "'s env \<Rightarrow> addr \<Rightarrow> bool" where
  "kpage e pa \<longleftrightarrow> page_aligned pa \<and> end_sym e \<le> pa \<and> pa < PHYSTOP"

text \<open>Where the kernel ends: after its load address, so that page 0 is never a free page.\<close>

definition link_ok :: "'s env \<Rightarrow> bool" where
  "link_ok e \<longleftrightarrow> KERNBASE \<le> end_sym e \<and> end_sym e \<le> PHYSTOP"

definition kmem_inv :: "'z kmem_st_scheme env \<Rightarrow> addr list \<Rightarrow> 'z kmem_st_scheme \<Rightarrow> bool" where
  "kmem_inv e ps s \<longleftrightarrow> freechain (mem s) (freelist s) ps \<and> distinct ps \<and> (\<forall>p \<in> set ps. kpage e p)"

definition kmem_ready :: "'z kmem_st_scheme \<Rightarrow> bool" where
  "kmem_ready s \<longleftrightarrow> sane (mach s) \<and> clean Kmem_lock (mach s)"

definition page_fill :: "mem \<Rightarrow> addr \<Rightarrow> byte \<Rightarrow> mem" where
  "page_fill m a c = write_bytes m a (replicate 4096 c)"

lemma memset_page: "memset m a c 4096 = page_fill m a (ucast c)"
  by (simp add: memset_write page_fill_def)

lemma page_fill_other: "page_aligned a \<Longrightarrow> PGROUNDDOWN x \<noteq> a \<Longrightarrow> page_fill m a c x = m x"
  by (simp add: page_fill_def write_bytes_page)

lemma page_fill_in: "page_aligned a \<Longrightarrow> PGROUNDDOWN x = a \<Longrightarrow> page_fill m a c x = c"
  using page_offset_iff [of a x] by (simp add: page_fill_def write_bytes_def)

lemma kpage_nonzero: "link_ok e \<Longrightarrow> kpage e pa \<Longrightarrow> pa \<noteq> 0"
  by (auto simp: link_ok_def kpage_def word_le_nat_alt)

lemma freechain_cong:
  assumes "\<And>x y. x \<in> set ps \<Longrightarrow> PGROUNDDOWN y = x \<Longrightarrow> m y = m' y"
    and "\<And>x. x \<in> set ps \<Longrightarrow> page_aligned x"
  shows "freechain m p ps = freechain m' p ps"
  using assms
proof (induction ps arbitrary: p)
  case Nil
  then show ?case by simp
next
  case (Cons x xs)
  have "page_aligned x" using Cons.prems(2) by simp
  then have "load64 m x = load64 m' x"
    using Cons.prems(1) [of x] by (intro load64_cong) (auto simp: page_aligned_8 PGROUNDDOWN_aligned)
  moreover have "freechain m q xs = freechain m' q xs" for q
    by (rule Cons.IH) (use Cons.prems in auto)
  ultimately show ?case by simp
qed

section \<open>What the operations do\<close>

lemma kfree_run:
  assumes "kmem_ready s" and "kpage e pa"
  shows "kfree pa e s = Ok () (s\<lparr>mach := settle (mach s),
     mem := store64 (page_fill (mem s) pa 1) pa (freelist s), freelist := pa\<rparr>)"
proof -
  have "wpK (kfree pa) (\<lambda>_ t. t = s\<lparr>mach := settle (mach s),
     mem := store64 (page_fill (mem s) pa 1) pa (freelist s), freelist := pa\<rparr>) e s"
    using assms
    by (simp add: kfree_def upd_mem_def wp kmem_ready_def kpage_def page_aligned_def memset_page
        sane_def not_less not_le)
  then show ?thesis by (simp add: wpK_unit)
qed

lemma kfree_panics: "\<not> kpage e pa \<Longrightarrow> kfree pa e s = Panic ''kfree''"
  by (simp add: kfree_def kpage_def page_aligned_def bindK_def askK_def panic_def not_less not_le)

lemma kalloc_run:
  assumes "kmem_ready s"
  shows "kalloc e s = Ok (freelist s)
    (if freelist s = 0 then s\<lparr>mach := settle (mach s)\<rparr>
     else s\<lparr>mach := settle (mach s), mem := page_fill (mem s) (freelist s) 5,
            freelist := load64 (mem s) (freelist s)\<rparr>)"
  using assms
  by (simp add: kalloc_def upd_mem_def kmem_ready_def monad_defs release_run memset_page sane_def)

text \<open>Seen through the invariant the allocator is a stack of pages.\<close>

lemma kmem_inv_kfree:
  assumes "kmem_ready s" and "link_ok e" and "kmem_inv e ps s" and "kpage e pa" and "pa \<notin> set ps"
  shows "wpK (kfree pa) (\<lambda>_ t. kmem_inv e (pa # ps) t \<and> kmem_ready t) e s"
proof -
  let ?m = "store64 (page_fill (mem s) pa 1) pa (freelist s)"
  have pa: "page_aligned pa" "pa \<noteq> 0"
    using assms kpage_nonzero by (auto simp: kpage_def)
  have "freechain ?m (freelist s) ps = freechain (mem s) (freelist s) ps"
  proof (rule freechain_cong)
    fix x y assume "x \<in> set ps" "PGROUNDDOWN y = x"
    then have "PGROUNDDOWN y \<noteq> pa" using assms(5) by auto
    then show "?m y = mem s y"
      using pa(1) by (simp add: store64_page page_aligned_8 PGROUNDDOWN_aligned page_fill_other)
  qed (use assms in \<open>auto simp: kmem_inv_def kpage_def\<close>)
  then show ?thesis
    using assms pa by (simp add: wpK_iff kfree_run kmem_inv_def kmem_ready_def)
qed

lemma kmem_inv_kalloc:
  assumes "kmem_ready s" and "kmem_inv e ps s"
  shows "wpK kalloc (\<lambda>r t. kmem_ready t \<and>
     (case ps of [] \<Rightarrow> r = 0 \<and> t = s\<lparr>mach := settle (mach s)\<rparr>
      | p # qs \<Rightarrow> r = p \<and> kpage e r \<and> kmem_inv e qs t \<and> mem t = page_fill (mem s) r 5)) e s"
proof (cases ps)
  case Nil
  then show ?thesis using assms by (simp add: wpK_iff kalloc_run kmem_inv_def kmem_ready_def)
next
  case (Cons p qs)
  have "freechain (page_fill (mem s) p 5) q qs = freechain (mem s) q qs" for q
  proof (rule freechain_cong)
    fix x y assume "x \<in> set qs" "PGROUNDDOWN y = x"
    then show "page_fill (mem s) p 5 y = mem s y"
      using assms Cons by (intro page_fill_other) (auto simp: kmem_inv_def kpage_def)
  qed (use assms Cons in \<open>auto simp: kmem_inv_def kpage_def\<close>)
  then show ?thesis
    using assms Cons by (auto simp: wpK_iff kalloc_run kmem_inv_def kmem_ready_def)
qed

section \<open>Boot\<close>

definition page_at :: "addr \<Rightarrow> nat \<Rightarrow> addr" where
  "page_at b i = b + of_nat (4096 * i)"

definition pages_from :: "addr \<Rightarrow> nat \<Rightarrow> addr list" where
  "pages_from b n = map (page_at b) [0..<n]"

lemma unat_page_at:
  "unat b + 4096 * i < 2 ^ 64 \<Longrightarrow> unat (page_at b i) = unat b + 4096 * i"
  unfolding page_at_def by (subst unat_word_ariths(1)) (simp add: unat_of_nat64 del: of_nat_mult)

lemma page_at_0 [simp]: "page_at b 0 = b"
  by (simp add: page_at_def)

lemma page_at_Suc [simp]: "page_at b (Suc k) = page_at b k + 4096"
  by (simp add: page_at_def)

lemma page_at_diff [simp]: "pa + (page_at a k - a) = page_at pa k"
  by (simp add: page_at_def)

lemma unat_page_at_diff: "4096 * k < 2 ^ 64 \<Longrightarrow> unat (page_at a k - a) = 4096 * k"
  unfolding page_at_def by (simp add: unat_of_nat64 del: of_nat_mult)

lemma page_aligned_at [simp]: "page_aligned b \<Longrightarrow> page_aligned (page_at b k)"
  by (induction k) (simp_all add: page_aligned_add)

lemma pages_from_Suc: "pages_from b (Suc n) = pages_from b n @ [page_at b n]"
  by (simp add: pages_from_def)

lemma pages_from_new:
  assumes "unat b + 4096 * n < 2 ^ 64"
  shows "page_at b n \<notin> set (pages_from b n)"
proof
  assume "page_at b n \<in> set (pages_from b n)"
  then obtain i where "i < n" "page_at b n = page_at b i"
    by (auto simp: pages_from_def)
  then have "unat (page_at b n) = unat (page_at b i)" by metis
  then show False using \<open>i < n\<close> assms by (simp add: unat_page_at)
qed

lemma kfree_next:
  assumes "link_ok e" and "page_aligned b" and "end_sym e \<le> b"
    and lim: "unat b + 4096 * Suc k \<le> unat PHYSTOP"
    and "kmem_ready s" and "kmem_inv e (rev (pages_from b k)) s"
  shows "wpK (kfree (page_at b k))
     (\<lambda>_ t. kmem_inv e (rev (pages_from b (Suc k))) t \<and> kmem_ready t) e s"
proof -
  have u: "unat (page_at b k) = unat b + 4096 * k"
    using lim by (intro unat_page_at) simp
  have "kpage e (page_at b k)"
    using assms(2,3) u lim
    by (simp add: kpage_def page_aligned_unat word_le_nat_alt word_less_nat_alt)
  moreover have "page_at b k \<notin> set (rev (pages_from b k))"
    using pages_from_new [of b k] lim by (simp)
  ultimately show ?thesis
    using kmem_inv_kfree [OF assms(5,1,6)] by (simp add: pages_from_Suc)
qed

lemma freerange_run:
  assumes link: "link_ok e" and b: "page_aligned b" "end_sym e \<le> b" "PGROUNDUP start = b"
    and fin: "fin \<le> PHYSTOP" "b \<le> fin"
    and s: "kmem_ready s" "kmem_inv e [] s"
  shows "wpK (freerange start fin) (\<lambda>_ t. kmem_ready t \<and>
     kmem_inv e (rev (pages_from b ((unat fin - unat b) div 4096))) t) e s"
proof -
  let ?n = "(unat fin - unat b) div 4096"
  define I where "I p t \<longleftrightarrow> (\<exists>k \<le> ?n. p = page_at b k \<and> kmem_ready t \<and>
     kmem_inv e (rev (pages_from b k)) t)" for p t
  have lim: "unat fin \<le> 0x88000000" "unat b \<le> unat fin"
    using fin by (simp_all add: word_le_nat_alt)
  show ?thesis
    unfolding freerange_def
  proof (rule wp_loop_measure [where I = I and f = "\<lambda>p _. unat fin - unat p"])
    show "I (PGROUNDUP start) s"
      using s b by (auto simp: I_def pages_from_def intro: exI [of _ 0])
  next
    fix p t assume "I p t"
    then obtain k where k: "k \<le> ?n" "p = page_at b k" "kmem_ready t"
      "kmem_inv e (rev (pages_from b k)) t" by (auto simp: I_def)
    have "4096 * k \<le> unat fin - unat b" using k(1) by linarith
    then have up: "unat p = unat b + 4096 * k" "unat p \<le> unat fin"
      using k(2) unat_page_at [of b k] lim by simp_all
    have up': "unat (p + 4096) = unat p + 4096"
      using up lim by (subst unat_word_ariths(1)) simp
    show "wpK (if p + PGSIZE \<le> fin then thenK (kfree p) (returnK (Inl (p + PGSIZE))) else returnK (Inr ()))
       (\<lambda>r u. case r of Inl q \<Rightarrow> I q u \<and> unat fin - unat q < unat fin - unat p
         | Inr a \<Rightarrow> kmem_ready u \<and> kmem_inv e (rev (pages_from b ?n)) u) e t"
    proof (cases "p + PGSIZE \<le> fin")
      case True
      then have "unat p + 4096 \<le> unat fin" using up' by (simp add: word_le_nat_alt)
      then have k': "Suc k \<le> ?n" using up(1) lim by linarith
      have "wpK (kfree p) (\<lambda>_ u. kmem_inv e (rev (pages_from b (Suc k))) u \<and> kmem_ready u) e t"
        unfolding k(2)
        by (rule kfree_next) (use link b k lim up(1) \<open>unat p + 4096 \<le> unat fin\<close> in simp_all)
      then have "wpK (kfree p) (\<lambda>_ u. I (p + 4096) u) e t"
        by (rule wpK_mono) (use k' in \<open>auto simp: I_def k(2) intro!: exI [of _ "Suc k"]\<close>)
      moreover have "unat fin - unat (p + 4096) < unat fin - unat p"
        using up' \<open>unat p + 4096 \<le> unat fin\<close> by simp
      ultimately show ?thesis using True by (simp add: wp)
    next
      case False
      then have "k = ?n" using up' up(1) k(1) lim by (simp add: word_le_nat_alt)
      then show ?thesis using False k(3,4) by (simp add: wp)
    qed
  qed
qed

lemma kinit_run:
  assumes link: "link_ok e" and s: "sane (mach s)" "freelist s = 0"
  shows "wpK kinit (\<lambda>_ t. kmem_ready t \<and>
     kmem_inv e (rev (pages_from (PGROUNDUP (end_sym e))
       ((unat PHYSTOP - unat (PGROUNDUP (end_sym e))) div 4096))) t) e s"
proof -
  have lim: "0x80000000 \<le> unat (end_sym e)" "unat (end_sym e) \<le> 0x88000000"
    using link by (simp_all add: link_ok_def word_le_nat_alt)
  then have u: "unat (PGROUNDUP (end_sym e)) = (unat (end_sym e) + 4095) div 4096 * 4096"
    by (intro unat_PGROUNDUP) simp
  have "end_sym e \<le> PGROUNDUP (end_sym e)" "PGROUNDUP (end_sym e) \<le> PHYSTOP"
    using u lim by (simp_all add: word_le_nat_alt)
  note range = this
  let ?t = "s\<lparr>mach := (mach s)\<lparr>locks := (locks (mach s))(Kmem_lock := (locks (mach s) Kmem_lock)\<lparr>
     lock_name := ''kmem'', locked := 0, lock_cpu := None\<rparr>)\<rparr>\<rparr>"
  have "kmem_ready ?t" "kmem_inv e [] ?t"
    using s by (simp_all add: kmem_ready_def kmem_inv_def sane_def depth_def clean_def)
  from freerange_run [OF link _ range(1) refl order_refl range(2) this]
  show ?thesis by (simp add: kinit_def wp initlock_def upd_lock_def upd_mach_def)
qed

section \<open>The allocator as a pool of pages\<close>

definition kmem_pool :: "'z kmem_st_scheme env \<Rightarrow> addr list \<Rightarrow> 'z kmem_st_scheme \<Rightarrow> bool" where
  "kmem_pool e ps s \<longleftrightarrow> link_ok e \<and> kmem_ready s \<and> kmem_inv e ps s"

interpretation kp: page_pool kalloc kfree kmem_pool kpage
proof unfold_locales
  fix e :: "'a kmem_st_scheme env" and p ps s
  show "wpK kalloc (\<lambda>r t. r = p \<and> kmem_pool e ps t) e s" if "kmem_pool e (p # ps) s"
    using that kmem_inv_kalloc [of s e "p # ps"] by (auto simp: kmem_pool_def elim!: wpK_mono)
  show "wpK kalloc (\<lambda>r t. r = 0 \<and> kmem_pool e [] t) e s" if "kmem_pool e [] s"
    using that kmem_inv_kalloc [of s e "[]"]
    by (auto simp: kmem_pool_def kmem_inv_def elim!: wpK_mono)
  show "wpK (kfree p) (\<lambda>_ t. kmem_pool e (p # ps) t) e s"
    if "kmem_pool e ps s" "kpage e p" "p \<notin> set ps"
    using that kmem_inv_kfree [of s e ps p] by (auto simp: kmem_pool_def elim!: wpK_mono)
  show "\<not> wpK (kfree p) Q e s" if "\<not> kpage e p" for Q
    using that by (simp add: wpK_def kfree_panics)
  show "distinct ps" if "kmem_pool e ps s" using that by (simp add: kmem_pool_def kmem_inv_def)
  show "kpage e p" if "kmem_pool e ps s" "p \<in> set ps"
    using that by (simp add: kmem_pool_def kmem_inv_def)
  show "p \<noteq> 0" if "kmem_pool e ps s" "p \<in> set ps"
    using that kpage_nonzero [of e p] by (auto simp: kmem_pool_def kmem_inv_def)
qed

text \<open>
  For the clients that also read and write memory: the page handed out, what happens to the
  memory, and that nothing else in the state changes.
\<close>

definition same_rest :: "'z kmem_st_scheme \<Rightarrow> 'z kmem_st_scheme \<Rightarrow> bool" where
  "same_rest s t \<longleftrightarrow> settle (mach t) = settle (mach s) \<and> kmem_st.more t = kmem_st.more s"

lemma same_rest_refl [simp, intro]: "same_rest s s"
  by (simp add: same_rest_def)

lemma same_rest_trans [trans]: "same_rest s t \<Longrightarrow> same_rest t u \<Longrightarrow> same_rest s u"
  by (simp add: same_rest_def)

lemma same_rest_mem [simp]: "same_rest s (t\<lparr>mem := m\<rparr>) = same_rest s t"
  by (simp add: same_rest_def)

lemma settle_eqD:
  assumes "settle m = settle m'"
  shows "sane m = sane m'" "clean lk m = clean lk m'" "lock_mine lk m = lock_mine lk m'"
    "lock_free lk m = lock_free lk m'" "depth m = depth m'" "tp m = tp m'" "sie m = sie m'"
    "switches m = switches m'" "locks m = locks m'" "cpu_proc (cpus m c) = cpu_proc (cpus m' c)"
proof -
  show "sane m = sane m'" using sane_settle [of m] sane_settle [of m'] assms by simp
  show "clean lk m = clean lk m'" "lock_mine lk m = lock_mine lk m'"
    "lock_free lk m = lock_free lk m'" "depth m = depth m'" "tp m = tp m'" "sie m = sie m'"
    "switches m = switches m'" "locks m = locks m'" "cpu_proc (cpus m c) = cpu_proc (cpus m' c)"
    using settle_simps [where m = m] settle_simps [where m = m'] assms by metis+
qed

lemma kmem_pool_mem:
  assumes "kmem_pool e ps s" and "\<And>x. PGROUNDDOWN x \<in> set ps \<Longrightarrow> m x = mem s x"
  shows "kmem_pool e ps (s\<lparr>mem := m\<rparr>)"
proof -
  have "freechain m (freelist s) ps = freechain (mem s) (freelist s) ps"
    by (rule freechain_cong) (use assms in \<open>auto simp: kmem_pool_def kmem_inv_def kpage_def\<close>)
  then show ?thesis using assms(1) by (simp add: kmem_pool_def kmem_inv_def kmem_ready_def)
qed

lemma kalloc_wp:
  assumes "kmem_pool e ps s"
    and "\<And>t. ps = [] \<Longrightarrow> kmem_pool e [] t \<Longrightarrow> mem t = mem s \<Longrightarrow> same_rest s t \<Longrightarrow> Q 0 t"
    and "\<And>p qs t. ps = p # qs \<Longrightarrow> kpage e p \<Longrightarrow> p \<noteq> 0 \<Longrightarrow> p \<notin> set qs \<Longrightarrow> kmem_pool e qs t \<Longrightarrow>
       mem t = page_fill (mem s) p 5 \<Longrightarrow> same_rest s t \<Longrightarrow> Q p t"
  shows "wpK kalloc Q e s"
proof -
  have rdy: "kmem_ready s" and inv: "kmem_inv e ps s" and link: "link_ok e"
    using assms(1) by (simp_all add: kmem_pool_def)
  obtain r t where run: "kalloc e s = Ok r t" and rest: "same_rest s t"
    using kalloc_run [OF rdy, of e] by (auto simp: same_rest_def split: if_splits)
  note post = kmem_inv_kalloc [OF rdy inv, unfolded wpK_def run, simplified]
  show ?thesis
  proof (cases ps)
    case Nil
    then have "Q r t" using post assms(2) [of t] inv link rest
      by (auto simp: kmem_pool_def kmem_inv_def)
    then show ?thesis using run by (simp add: wpK_def)
  next
    case (Cons p qs)
    then have "Q r t"
      using post assms(3) [of p qs t] inv link rest kpage_nonzero [of e p]
      by (auto simp: kmem_pool_def kmem_inv_def)
    then show ?thesis using run by (simp add: wpK_def)
  qed
qed

lemma kfree_wp:
  assumes "kmem_pool e ps s" and "kpage e pa" and "pa \<notin> set ps"
    and "\<And>t. kmem_pool e (pa # ps) t \<Longrightarrow> same_rest s t \<Longrightarrow>
       (\<And>x. PGROUNDDOWN x \<noteq> pa \<Longrightarrow> mem t x = mem s x) \<Longrightarrow> Q () t"
  shows "wpK (kfree pa) Q e s"
proof -
  have rdy: "kmem_ready s" using assms(1) by (simp add: kmem_pool_def)
  let ?t = "s\<lparr>mach := settle (mach s), mem := store64 (page_fill (mem s) pa 1) pa (freelist s), freelist := pa\<rparr>"
  have run: "kfree pa e s = Ok () ?t" by (rule kfree_run [OF rdy assms(2)])
  have pa: "page_aligned pa" using assms(2) by (simp add: kpage_def)
  have "Q () ?t"
  proof (rule assms(4))
    show "kmem_pool e (pa # ps) ?t"
      using kp.free_page [OF assms(1-3)] run by (simp add: wpK_def)
  next
    fix x assume "PGROUNDDOWN x \<noteq> pa"
    then show "mem ?t x = mem s x"
      using pa by (simp add: store64_page page_aligned_8 PGROUNDDOWN_aligned page_fill_other)
  qed (simp add: same_rest_def)
  then show ?thesis using run by (simp add: wpK_def)
qed

section \<open>Properties\<close>

definition kmem_st0 :: kmem_st where
  "kmem_st0 = \<lparr>mach = mach0, mem = (\<lambda>_. 0), freelist = 0\<rparr>"

text \<open>
  C3. After \<^verbatim>\<open>kinit\<close>, \<open>n\<close> calls of \<^verbatim>\<open>kalloc\<close> hand out the \<open>n\<close> highest pages between the end of
  the kernel and \<^verbatim>\<open>PHYSTOP\<close>, every page once and the highest first, and 0 when the pages are
  used up; the pages not handed out yet are still in the pool.
\<close>

theorem kalloc_after_boot:
  assumes "link_ok e" and "sane (mach s)" and "freelist s = 0"
  shows "wpK (thenK kinit (alloc_times kalloc n)) (\<lambda>rs t.
    let first = PGROUNDUP (end_sym e); total = (unat PHYSTOP - unat first) div 4096;
        pages = rev (pages_from first total)
    in rs = take n pages @ replicate (n - total) 0 \<and> distinct pages \<and> kmem_pool e (drop n pages) t) e s"
proof -
  let ?b = "PGROUNDUP (end_sym e)"
  let ?ps = "rev (pages_from ?b ((unat PHYSTOP - unat ?b) div 4096))"
  have "wpK kinit (\<lambda>_ t. kmem_pool e ?ps t) e s"
    using kinit_run [OF assms] assms(1) by (auto simp: kmem_pool_def elim!: wpK_mono)
  then have "wpK kinit (\<lambda>_ t. wpK (alloc_times kalloc n)
      (\<lambda>rs u. rs = take n ?ps @ replicate (n - length ?ps) 0 \<and> distinct ?ps \<and> kmem_pool e (drop n ?ps) u) e t) e s"
  proof (rule wpK_mono)
    fix t assume p: "kmem_pool e ?ps t"
    show "wpK (alloc_times kalloc n)
      (\<lambda>rs u. rs = take n ?ps @ replicate (n - length ?ps) 0 \<and> distinct ?ps \<and> kmem_pool e (drop n ?ps) u) e t"
      using kp.alloc_times_run [OF p] kp.pool_distinct [OF p] by (auto elim!: wpK_mono)
  qed
  then show ?thesis by (simp add: wp Let_def pages_from_def)
qed

theorem kalloc_after_boot_witness:
  "wpK (thenK kinit (alloc_times kalloc 2)) (\<lambda>rs t. rs = [0x87fff000, 0x87ffe000]) idle_env kmem_st0"
proof -
  have first: "PGROUNDUP (end_sym (idle_env :: kmem_st env)) = 0x80022000" by (simp add: PGROUNDUP_def)
  have pages: "take 2 (rev (pages_from 0x80022000 32734)) = [0x87fff000, 0x87ffe000]"
    using pages_from_Suc [of "0x80022000" 32733] pages_from_Suc [of "0x80022000" 32732] by (simp add: page_at_def)
  show ?thesis
    using kalloc_after_boot [where e = idle_env and s = kmem_st0 and n = 2] first pages
    by (auto simp: kmem_st0_def link_ok_def Let_def elim!: wpK_mono)
qed


end
