(* ===== verification/Vm.thy ===== *)
theory Vm
  imports Kalloc
begin

text \<open>
  \<^verbatim>\<open>kernel/vm.c\<close>: Sv39 page tables in physical memory, the operations on user address
  spaces, and the copies between kernel and user memory.

  A kernel pointer handed to a copy (\<open>kptr\<close>) is either an address of page memory or an object
  that the model keeps as a typed value: as a source, the bytes from the pointer on; as a
  destination, the bytes written so far.

  The second half reads a page table back as a tree: \<open>node m pt is\<close> is the table page reached
  from \<open>pt\<close> by the indices \<open>is\<close>. \<open>pt_wf\<close> says that the tables form a tree of aligned pages
  that are neither null nor free; under it \<open>walk\<close> is a lookup, and what \<open>mappages\<close>,
  \<open>uvmunmap\<close> and the copies do is stated by \<open>pte_of\<close> and \<open>uread\<close>.
\<close>

type_synonym pagetable = addr
type_synonym pte = u64

record vm_st = kmem_st +
  kernel_pagetable :: pagetable
  satp :: u64

datatype kptr = Kmem addr | Kobj "byte list"

section \<open>Page tables\<close>

definition slot :: "pagetable \<Rightarrow> u64 \<Rightarrow> addr" where
  "slot pt i = pt + 8 * i"

definition valid :: "pte \<Rightarrow> bool" where
  "valid pte \<longleftrightarrow> pte AND PTE_V \<noteq> 0"

primrec walk_loop :: "nat \<Rightarrow> pagetable \<Rightarrow> u64 \<Rightarrow> bool \<Rightarrow> ('z kmem_st_scheme, addr) K" where
  "walk_loop 0 pagetable va alloc = returnK (slot pagetable (PX 0 va))"
| "walk_loop (Suc level) pagetable va alloc =
     bindK (getsK (\<lambda>s. load64 (mem s) (slot pagetable (PX (Suc level) va)))) (\<lambda>pte.
     if valid pte then walk_loop level (PTE2PA pte) va alloc
     else if \<not> alloc then returnK 0
     else bindK kalloc (\<lambda>page.
       if page = 0 then returnK 0 else
       thenK (upd_mem (\<lambda>m. memset m page 0 (ucast PGSIZE))) (
       thenK (upd_mem (\<lambda>m. store64 m (slot pagetable (PX (Suc level) va)) (PA2PTE page OR PTE_V)))
         (walk_loop level page va alloc))))"

definition walk :: "pagetable \<Rightarrow> u64 \<Rightarrow> bool \<Rightarrow> ('z kmem_st_scheme, addr) K" where
  "walk pagetable va alloc =
     (if va \<ge> MAXVA then panic ''walk'' else walk_loop 2 pagetable va alloc)"

definition walkaddr :: "pagetable \<Rightarrow> u64 \<Rightarrow> ('z kmem_st_scheme, addr) K" where
  "walkaddr pagetable va =
     (if va \<ge> MAXVA then returnK 0 else
      bindK (walk pagetable va False) (\<lambda>pte.
      if pte = 0 then returnK 0 else
      bindK (getsK (\<lambda>s. load64 (mem s) pte)) (\<lambda>v.
      if v AND PTE_V = 0 then returnK 0
      else if v AND PTE_U = 0 then returnK 0
      else returnK (PTE2PA v))))"

definition map_body :: "pagetable \<Rightarrow> u64 \<Rightarrow> u64 \<Rightarrow> u64 \<times> u64 \<Rightarrow> ('z kmem_st_scheme, (u64 \<times> u64) + i32) K" where
  "map_body pagetable perm fin = (\<lambda>(a, pa).
     bindK (walk pagetable a True) (\<lambda>pte.
     if pte = 0 then returnK (Inr (-1)) else
     bindK (getsK (\<lambda>s. load64 (mem s) pte)) (\<lambda>v.
     if v AND PTE_V \<noteq> 0 then panic ''mappages: remap'' else
     thenK (upd_mem (\<lambda>m. store64 m pte (PA2PTE pa OR perm OR PTE_V)))
       (returnK (if a = fin then Inr 0 else Inl (a + PGSIZE, pa + PGSIZE))))))"

definition mappages :: "pagetable \<Rightarrow> u64 \<Rightarrow> u64 \<Rightarrow> u64 \<Rightarrow> u64 \<Rightarrow> ('z kmem_st_scheme, i32) K" where
  "mappages pagetable va sz pa perm =
     (if sz = 0 then panic ''mappages: size'' else
      loopK (map_body pagetable perm (PGROUNDDOWN (va + sz - 1))) (PGROUNDDOWN va, pa))"

definition kvmmap :: "pagetable \<Rightarrow> u64 \<Rightarrow> u64 \<Rightarrow> u64 \<Rightarrow> u64 \<Rightarrow> ('z kmem_st_scheme, unit) K" where
  "kvmmap kpgtbl va pa sz perm =
     bindK (mappages kpgtbl va sz pa perm) (\<lambda>r. if r \<noteq> 0 then panic ''kvmmap'' else returnK ())"

definition proc_mapstacks :: "pagetable \<Rightarrow> ('z kmem_st_scheme, unit) K" where
  "proc_mapstacks kpgtbl =
     foreachK [0..<NPROC] (\<lambda>p.
       bindK kalloc (\<lambda>pa.
       if pa = 0 then panic ''kalloc'' else
       kvmmap kpgtbl (KSTACK p) pa PGSIZE (PTE_R OR PTE_W)))"

definition kvmmake :: "('z kmem_st_scheme, pagetable) K" where
  "kvmmake =
     bindK kalloc (\<lambda>kpgtbl.
     bindK (askK etext_sym) (\<lambda>etext.
     bindK (askK trampoline_sym) (\<lambda>trampoline.
     thenK (seqK [
       upd_mem (\<lambda>m. memset m kpgtbl 0 (ucast PGSIZE)),
       kvmmap kpgtbl UART0 UART0 PGSIZE (PTE_R OR PTE_W),
       kvmmap kpgtbl VIRTIO0 VIRTIO0 PGSIZE (PTE_R OR PTE_W),
       kvmmap kpgtbl PLIC PLIC 0x400000 (PTE_R OR PTE_W),
       kvmmap kpgtbl KERNBASE KERNBASE (etext - KERNBASE) (PTE_R OR PTE_X),
       kvmmap kpgtbl etext etext (PHYSTOP - etext) (PTE_R OR PTE_W),
       kvmmap kpgtbl TRAMPOLINE trampoline PGSIZE (PTE_R OR PTE_X),
       proc_mapstacks kpgtbl])
     (returnK kpgtbl))))"

definition kvminit :: "('z vm_st_scheme, unit) K" where
  "kvminit = bindK kvmmake (\<lambda>pt. modifyK (\<lambda>s. s\<lparr>kernel_pagetable := pt\<rparr>))"

text \<open>The fences around the write of \<^verbatim>\<open>satp\<close> have no effect on the state of the model.\<close>

definition kvminithart :: "('z vm_st_scheme, unit) K" where
  "kvminithart = modifyK (\<lambda>s. s\<lparr>satp := MAKE_SATP (kernel_pagetable s)\<rparr>)"

section \<open>User address spaces\<close>

definition unmap_body :: "pagetable \<Rightarrow> u64 \<Rightarrow> bool \<Rightarrow> u64 \<Rightarrow> ('z kmem_st_scheme, u64 + unit) K" where
  "unmap_body pagetable fin do_free a =
     (if \<not> a < fin then returnK (Inr ()) else
      bindK (walk pagetable a False) (\<lambda>pte.
      if pte = 0 then panic ''uvmunmap: walk'' else
      bindK (getsK (\<lambda>s. load64 (mem s) pte)) (\<lambda>v.
      if v AND PTE_V = 0 then panic ''uvmunmap: not mapped''
      else if PTE_FLAGS v = PTE_V then panic ''uvmunmap: not a leaf'' else
      thenK (whenK do_free (kfree (PTE2PA v))) (
      thenK (upd_mem (\<lambda>m. store64 m pte 0))
        (returnK (Inl (a + PGSIZE)))))))"

definition uvmunmap :: "pagetable \<Rightarrow> u64 \<Rightarrow> u64 \<Rightarrow> bool \<Rightarrow> ('z kmem_st_scheme, unit) K" where
  "uvmunmap pagetable va npages do_free =
     (if va mod PGSIZE \<noteq> 0 then panic ''uvmunmap: not aligned'' else
      loopK (unmap_body pagetable (va + npages * PGSIZE) do_free) va)"

definition uvmcreate :: "('z kmem_st_scheme, pagetable) K" where
  "uvmcreate =
     bindK kalloc (\<lambda>pagetable.
     if pagetable = 0 then returnK 0 else
     thenK (upd_mem (\<lambda>m. memset m pagetable 0 (ucast PGSIZE))) (returnK pagetable))"

definition uvmdealloc :: "pagetable \<Rightarrow> u64 \<Rightarrow> u64 \<Rightarrow> ('z kmem_st_scheme, u64) K" where
  "uvmdealloc pagetable oldsz newsz =
     (if newsz \<ge> oldsz then returnK oldsz else
      thenK (whenK (PGROUNDUP newsz < PGROUNDUP oldsz)
        (let npages = ucast ((PGROUNDUP oldsz - PGROUNDUP newsz) div PGSIZE) :: i32
         in uvmunmap pagetable (PGROUNDUP newsz) (scast npages) True))
      (returnK newsz))"

definition uvmalloc :: "pagetable \<Rightarrow> u64 \<Rightarrow> u64 \<Rightarrow> u64 \<Rightarrow> ('z kmem_st_scheme, u64) K" where
  "uvmalloc pagetable oldsz newsz xperm =
     (if newsz < oldsz then returnK oldsz else
      let oldsz = PGROUNDUP oldsz in
      loopK (\<lambda>a.
        if \<not> a < newsz then returnK (Inr newsz) else
        bindK kalloc (\<lambda>page.
        if page = 0 then thenK (uvmdealloc pagetable a oldsz) (returnK (Inr 0)) else
        thenK (upd_mem (\<lambda>m. memset m page 0 (ucast PGSIZE))) (
        bindK (mappages pagetable a PGSIZE page (PTE_R OR PTE_U OR xperm)) (\<lambda>r.
        if r \<noteq> 0
        then thenK (kfree page) (thenK (uvmdealloc pagetable a oldsz) (returnK (Inr 0)))
        else returnK (Inl (a + PGSIZE)))))) oldsz)"

text \<open>
  The recursion of \<^verbatim>\<open>freewalk\<close> follows the entries in memory, so it is given a depth. The
  tables built by \<open>walk\<close> have three levels, and the depth \<open>3\<close> used by \<open>uvmfree\<close>
  is enough for them.
\<close>

primrec freewalk :: "nat \<Rightarrow> pagetable \<Rightarrow> ('z kmem_st_scheme, unit) K" where
  "freewalk 0 pagetable = (\<lambda>e s. Diverge)"
| "freewalk (Suc fuel) pagetable =
     thenK (foreachK [0..<512] (\<lambda>i.
       bindK (getsK (\<lambda>s. load64 (mem s) (slot pagetable (of_nat i)))) (\<lambda>pte.
       if pte AND PTE_V \<noteq> 0 \<and> pte AND (PTE_R OR PTE_W OR PTE_X) = 0
       then thenK (freewalk fuel (PTE2PA pte)) (upd_mem (\<lambda>m. store64 m (slot pagetable (of_nat i)) 0))
       else if pte AND PTE_V \<noteq> 0 then panic ''freewalk: leaf''
       else returnK ())))
     (kfree pagetable)"

definition uvmfree :: "pagetable \<Rightarrow> u64 \<Rightarrow> ('z kmem_st_scheme, unit) K" where
  "uvmfree pagetable sz =
     thenK (whenK (sz > 0) (uvmunmap pagetable 0 (PGROUNDUP sz div PGSIZE) True))
       (freewalk 3 pagetable)"

definition uvmcopy :: "pagetable \<Rightarrow> pagetable \<Rightarrow> u64 \<Rightarrow> ('z kmem_st_scheme, i32) K" where
  "uvmcopy old new sz =
     (let err = \<lambda>i. thenK (uvmunmap new 0 (i div PGSIZE) True) (returnK (Inr (-1))) in
      loopK (\<lambda>i.
        if \<not> i < sz then returnK (Inr 0) else
        bindK (walk old i False) (\<lambda>pte.
        if pte = 0 then panic ''uvmcopy: pte should exist'' else
        bindK (getsK (\<lambda>s. load64 (mem s) pte)) (\<lambda>v.
        if v AND PTE_V = 0 then panic ''uvmcopy: page not present'' else
        bindK kalloc (\<lambda>page.
        if page = 0 then err i else
        thenK (upd_mem (\<lambda>m. memmove m page (PTE2PA v) (ucast PGSIZE))) (
        bindK (mappages new i PGSIZE page (PTE_FLAGS v)) (\<lambda>r.
        if r \<noteq> 0 then thenK (kfree page) (err i)
        else returnK (Inl (i + PGSIZE)))))))) 0)"

definition uvmclear :: "pagetable \<Rightarrow> u64 \<Rightarrow> ('z kmem_st_scheme, unit) K" where
  "uvmclear pagetable va =
     bindK (walk pagetable va False) (\<lambda>pte.
     if pte = 0 then panic ''uvmclear''
     else upd_mem (\<lambda>m. store64 m pte (load64 m pte AND NOT PTE_U)))"

section \<open>Copies between kernel and user memory\<close>

definition kptr_read :: "mem \<Rightarrow> addr \<Rightarrow> kptr \<Rightarrow> u64 \<Rightarrow> mem" where
  "kptr_read m dst src n = (case src of
     Kmem a \<Rightarrow> memmove m dst a (ucast n)
   | Kobj bs \<Rightarrow> write_bytes m dst (take (unat n) bs))"

definition kptr_write :: "mem \<Rightarrow> kptr \<Rightarrow> addr \<Rightarrow> u64 \<Rightarrow> mem" where
  "kptr_write m dst src n = (case dst of Kmem a \<Rightarrow> memmove m a src (ucast n) | Kobj bs \<Rightarrow> m)"

definition src_advance :: "kptr \<Rightarrow> u64 \<Rightarrow> kptr" where
  "src_advance p n = (case p of Kmem a \<Rightarrow> Kmem (a + n) | Kobj bs \<Rightarrow> Kobj (drop (unat n) bs))"

definition dst_advance :: "mem \<Rightarrow> kptr \<Rightarrow> addr \<Rightarrow> u64 \<Rightarrow> kptr" where
  "dst_advance m p src n =
     (case p of Kmem a \<Rightarrow> Kmem (a + n) | Kobj bs \<Rightarrow> Kobj (bs @ read_bytes m src (unat n)))"

definition chunk :: "u64 \<Rightarrow> u64 \<Rightarrow> u64" where
  "chunk va len = (let n = PGSIZE - (va - PGROUNDDOWN va) in if n > len then len else n)"

definition uvmfirst :: "pagetable \<Rightarrow> kptr \<Rightarrow> u32 \<Rightarrow> ('z kmem_st_scheme, unit) K" where
  "uvmfirst pagetable src sz =
     (if ucast sz \<ge> PGSIZE then panic ''uvmfirst: more than a page'' else
      bindK kalloc (\<lambda>page.
      thenK (upd_mem (\<lambda>m. memset m page 0 (ucast PGSIZE))) (
      thenK (mappages pagetable 0 PGSIZE page (PTE_W OR PTE_R OR PTE_X OR PTE_U))
        (upd_mem (\<lambda>m. kptr_read m page src (ucast sz))))))"

definition copyout_body :: "pagetable \<Rightarrow> u64 \<times> kptr \<times> u64 \<Rightarrow> ('z kmem_st_scheme, (u64 \<times> kptr \<times> u64) + i32) K" where
  "copyout_body pagetable = (\<lambda>(dstva, src, len).
     if \<not> len > 0 then returnK (Inr 0) else
     let va0 = PGROUNDDOWN dstva in
     bindK (walkaddr pagetable va0) (\<lambda>pa0.
     if pa0 = 0 then returnK (Inr (-1)) else
     let n = chunk dstva len in
     thenK (upd_mem (\<lambda>m. kptr_read m (pa0 + (dstva - va0)) src n))
       (returnK (Inl (va0 + PGSIZE, src_advance src n, len - n)))))"

definition copyout :: "pagetable \<Rightarrow> u64 \<Rightarrow> kptr \<Rightarrow> u64 \<Rightarrow> ('z kmem_st_scheme, i32) K" where
  "copyout pagetable dstva src len = loopK (copyout_body pagetable) (dstva, src, len)"

text \<open>The result is the return value and the destination pointer where the copy stopped.\<close>

definition copyin_body :: "pagetable \<Rightarrow> kptr \<times> u64 \<times> u64 \<Rightarrow>
  ('z kmem_st_scheme, (kptr \<times> u64 \<times> u64) + (i32 \<times> kptr)) K" where
  "copyin_body pagetable = (\<lambda>(dst, srcva, len).
     if \<not> len > 0 then returnK (Inr (0, dst)) else
     let va0 = PGROUNDDOWN srcva in
     bindK (walkaddr pagetable va0) (\<lambda>pa0.
     if pa0 = 0 then returnK (Inr (-1, dst)) else
     let n = chunk srcva len; src = pa0 + (srcva - va0) in
     bindK (getsK (\<lambda>s. dst_advance (mem s) dst src n)) (\<lambda>dst'.
     thenK (upd_mem (\<lambda>m. kptr_write m dst src n))
       (returnK (Inl (dst', va0 + PGSIZE, len - n))))))"

definition copyin :: "pagetable \<Rightarrow> kptr \<Rightarrow> u64 \<Rightarrow> u64 \<Rightarrow> ('z kmem_st_scheme, i32 \<times> kptr) K" where
  "copyin pagetable dst srcva len = loopK (copyin_body pagetable) (dst, srcva, len)"

text \<open>One byte stored at the destination, and the destination moved past it.\<close>

definition put_byte :: "mem \<Rightarrow> kptr \<Rightarrow> byte \<Rightarrow> mem" where
  "put_byte m dst c = (case dst of Kmem a \<Rightarrow> m(a := c) | Kobj bs \<Rightarrow> m)"

definition dst_push :: "kptr \<Rightarrow> byte \<Rightarrow> kptr" where
  "dst_push dst c = (case dst of Kmem a \<Rightarrow> Kmem (a + 1) | Kobj bs \<Rightarrow> Kobj (bs @ [c]))"

text \<open>
  The inner loop of \<^verbatim>\<open>copyinstr\<close> over at most \<open>n\<close> bytes: whether the terminating zero was
  found (it has then been stored), the memory, the destination and what is left of \<open>max\<close>.
\<close>

primrec copystr_page :: "nat \<Rightarrow> mem \<Rightarrow> kptr \<Rightarrow> addr \<Rightarrow> u64 \<Rightarrow> bool \<times> mem \<times> kptr \<times> u64" where
  "copystr_page 0 m dst p mx = (False, m, dst, mx)"
| "copystr_page (Suc n) m dst p mx =
     (if m p = 0 then (True, put_byte m dst 0, dst_push dst 0, mx)
      else copystr_page n (put_byte m dst (m p)) (dst_push dst (m p)) (p + 1) (mx - 1))"

definition copyinstr_body :: "pagetable \<Rightarrow> bool \<times> kptr \<times> u64 \<times> u64 \<Rightarrow>
  ('z kmem_st_scheme, (bool \<times> kptr \<times> u64 \<times> u64) + (i32 \<times> kptr)) K" where
  "copyinstr_body pagetable = (\<lambda>(got_null, dst, srcva, mx).
     if \<not> (\<not> got_null \<and> mx > 0) then returnK (Inr (if got_null then 0 else -1, dst)) else
     let va0 = PGROUNDDOWN srcva in
     bindK (walkaddr pagetable va0) (\<lambda>pa0.
     if pa0 = 0 then returnK (Inr (-1, dst)) else
     let n = chunk srcva mx; p = pa0 + (srcva - va0) in
     bindK (getsK (\<lambda>s. copystr_page (unat n) (mem s) dst p mx)) (\<lambda>(found, m', dst', mx').
     thenK (upd_mem (\<lambda>_. m'))
       (returnK (Inl (found, dst', va0 + PGSIZE, mx'))))))"

definition copyinstr :: "pagetable \<Rightarrow> kptr \<Rightarrow> u64 \<Rightarrow> u64 \<Rightarrow> ('z kmem_st_scheme, i32 \<times> kptr) K" where
  "copyinstr pagetable dst srcva mx = loopK (copyinstr_body pagetable) (False, dst, srcva, mx)"

end
