(* ===== verification/Proc.thy ===== *)
theory Proc
  imports Vm
begin

text \<open>
  \<^verbatim>\<open>kernel/proc.c\<close> and \<^verbatim>\<open>kernel/proc.h\<close>, except what needs the file system (\<^verbatim>\<open>fork\<close>,
  \<^verbatim>\<open>exit\<close>, \<^verbatim>\<open>userinit\<close> and \<^verbatim>\<open>forkret\<close> are in \<open>Process\<close>): the process table, sleep and
  wakeup, the scheduler, and the coroutine switch \<^verbatim>\<open>co_yield\<close>.

  A \<^verbatim>\<open>struct proc *\<close> is an index of the table. A sleep channel is an address in C; here it is
  a value of \<open>chan\<close> that says which object the address belongs to. The trapframe page of
  a process is kept as a typed value under its address (\<open>tfs\<close>); a fresh page reads as the junk
  that \<^verbatim>\<open>kalloc\<close> fills it with.
\<close>

section \<open>State\<close>

datatype procstate = UNUSED | USED | SLEEPING | RUNNABLE | RUNNING | ZOMBIE

datatype chan =
    C_null | C_proc nat | C_context nat | C_ticks | C_log | C_sleep sleepref | C_pipe_nread addr
  | C_pipe_nwrite addr | C_cons_r | C_uart_tx_r | C_buf nat | C_disk_free

datatype reg =
    RA | SP | GP | TP | T0 | T1 | T2 | S0 | S1 | A0 | A1 | A2 | A3 | A4 | A5 | A6 | A7
  | S2 | S3 | S4 | S5 | S6 | S7 | S8 | S9 | S10 | S11 | T3 | T4 | T5 | T6

record trapframe =
  kernel_satp :: u64
  kernel_sp :: u64
  kernel_trap :: u64
  epc :: u64
  kernel_hartid :: u64
  regs :: "reg \<Rightarrow> u64"

record kcontext =
  ctx_ra :: u64
  ctx_sp :: u64
  ctx_s :: "nat \<Rightarrow> u64"

record proc =
  p_state :: procstate
  p_chan :: chan
  p_killed :: i32
  p_xstate :: i32
  p_pid :: i32
  p_parent :: "nat option"
  p_kstack :: u64
  p_sz :: u64
  p_pagetable :: pagetable
  p_trapframe :: addr
  p_context :: kcontext
  p_ofile :: "nat \<Rightarrow> nat option"
  p_cwd :: "nat option"
  p_name :: "byte list"

record proc_st = vm_st +
  procs :: "nat \<Rightarrow> proc"
  nextpid :: i32
  initproc :: "nat option"
  tfs :: "addr \<Rightarrow> trapframe"
  ticks :: u32
  first :: bool

definition tf0 :: trapframe where
  "tf0 = \<lparr>kernel_satp = 0, kernel_sp = 0, kernel_trap = 0, epc = 0, kernel_hartid = 0, regs = (\<lambda>_. 0)\<rparr>"

definition proc0 :: proc where
  "proc0 = \<lparr>p_state = UNUSED, p_chan = C_null, p_killed = 0, p_xstate = 0, p_pid = 0, p_parent = None,
     p_kstack = 0, p_sz = 0, p_pagetable = 0, p_trapframe = 0,
     p_context = \<lparr>ctx_ra = 0, ctx_sp = 0, ctx_s = (\<lambda>_. 0)\<rparr>, p_ofile = (\<lambda>_. None), p_cwd = None,
     p_name = replicate 16 0\<rparr>"

definition proc_st0 :: proc_st where
  "proc_st0 = \<lparr>mach = mach0, mem = (\<lambda>_. 0), freelist = 0, kernel_pagetable = 0, satp = 0,
     procs = (\<lambda>_. proc0), nextpid = 1, initproc = None, tfs = (\<lambda>_. tf0), ticks = 0, first = True\<rparr>"

definition junk64 :: u64 where
  "junk64 = 0x0505050505050505"

definition tf_junk :: trapframe where
  "tf_junk = \<lparr>kernel_satp = junk64, kernel_sp = junk64, kernel_trap = junk64, epc = junk64,
     kernel_hartid = junk64, regs = (\<lambda>_. junk64)\<rparr>"

definition upd_proc :: "nat \<Rightarrow> (proc \<Rightarrow> proc) \<Rightarrow> ('z proc_st_scheme, unit) K" where
  "upd_proc p f = modifyK (\<lambda>s. s\<lparr>procs := (procs s)(p := f (procs s p))\<rparr>)"

definition proc_get :: "nat \<Rightarrow> (proc \<Rightarrow> 'a) \<Rightarrow> ('z proc_st_scheme, 'a) K" where
  "proc_get p f = getsK (\<lambda>s. f (procs s p))"

definition upd_tf :: "nat \<Rightarrow> (trapframe \<Rightarrow> trapframe) \<Rightarrow> ('z proc_st_scheme, unit) K" where
  "upd_tf p f = modifyK (\<lambda>s. s\<lparr>tfs := (tfs s)(p_trapframe (procs s p) := f (tfs s (p_trapframe (procs s p))))\<rparr>)"

definition tf_get :: "nat \<Rightarrow> (trapframe \<Rightarrow> 'a) \<Rightarrow> ('z proc_st_scheme, 'a) K" where
  "tf_get p f = getsK (\<lambda>s. f (tfs s (p_trapframe (procs s p))))"

definition set_reg :: "reg \<Rightarrow> u64 \<Rightarrow> trapframe \<Rightarrow> trapframe" where
  "set_reg r v tf = tf\<lparr>regs := (regs tf)(r := v)\<rparr>"

text \<open>
  The loops of \<^verbatim>\<open>allocproc\<close>, \<^verbatim>\<open>kill\<close> and \<^verbatim>\<open>find_proc\<close> take the lock of one entry after the
  other and stop, with that lock held, at the first entry that satisfies a test.
\<close>

definition scan :: "(proc \<Rightarrow> bool) \<Rightarrow> (nat \<Rightarrow> ('z proc_st_scheme, 'a) K) \<Rightarrow> nat \<Rightarrow> ('z proc_st_scheme, 'a option) K" where
  "scan test hit p =
     thenK (acquire (Proc_lock p)) (
     bindK (proc_get p test) (\<lambda>b.
     if b then bindK (hit p) (\<lambda>x. returnK (Some x))
     else thenK (release (Proc_lock p)) (returnK None)))"

section \<open>The process table\<close>

definition procinit :: "('z proc_st_scheme, unit) K" where
  "procinit =
     thenK (initlock Pid_lock ''nextpid'') (
     thenK (initlock Wait_lock ''wait_lock'')
       (foreachK [0..<NPROC] (\<lambda>p.
          thenK (initlock (Proc_lock p) ''proc'')
            (upd_proc p (\<lambda>r. r\<lparr>p_state := UNUSED, p_kstack := KSTACK p\<rparr>)))))"

definition myproc :: "('z proc_st_scheme, nat option) K" where
  "myproc =
     thenK push_off (
     bindK mycpu (\<lambda>c.
     bindK (getsK (\<lambda>s. cpu_proc (cpus (mach s) c))) (\<lambda>p.
     thenK pop_off (returnK p))))"

text \<open>
  Most callers of \<^verbatim>\<open>myproc\<close> use the result without a check. Page 0 is not mapped in the kernel,
  so with no process this is a fault that \<^verbatim>\<open>kerneltrap\<close> ends in a panic.
\<close>

definition curproc :: "('z proc_st_scheme, nat) K" where
  "curproc = bindK myproc (\<lambda>o'. case o' of None \<Rightarrow> panic ''kerneltrap'' | Some p \<Rightarrow> returnK p)"

text \<open>A use of a pointer that may be null: page 0 is not mapped, the fault ends in a panic.\<close>

definition deref :: "'p option \<Rightarrow> ('p \<Rightarrow> ('s, 'a) K) \<Rightarrow> ('s, 'a) K" where
  "deref p f = (case p of None \<Rightarrow> panic ''kerneltrap'' | Some x \<Rightarrow> f x)"

definition allocpid :: "('z proc_st_scheme, i32) K" where
  "allocpid =
     thenK (acquire Pid_lock) (
     bindK (getsK nextpid) (\<lambda>pid.
     thenK (modifyK (\<lambda>s. s\<lparr>nextpid := nextpid s + 1\<rparr>)) (
     thenK (release Pid_lock)
       (returnK pid))))"

definition proc_pagetable :: "nat \<Rightarrow> ('z proc_st_scheme, pagetable) K" where
  "proc_pagetable p =
     bindK uvmcreate (\<lambda>pagetable.
     if pagetable = 0 then returnK 0 else
     bindK (askK trampoline_sym) (\<lambda>trampoline.
     bindK (mappages pagetable TRAMPOLINE PGSIZE trampoline (PTE_R OR PTE_X)) (\<lambda>r.
     if sint r < 0 then thenK (uvmfree pagetable 0) (returnK 0) else
     bindK (proc_get p p_trapframe) (\<lambda>tf.
     bindK (mappages pagetable TRAPFRAME PGSIZE tf (PTE_R OR PTE_W)) (\<lambda>r.
     if sint r < 0
     then thenK (uvmunmap pagetable TRAMPOLINE 1 False) (thenK (uvmfree pagetable 0) (returnK 0))
     else returnK pagetable)))))"

definition proc_freepagetable :: "pagetable \<Rightarrow> u64 \<Rightarrow> ('z proc_st_scheme, unit) K" where
  "proc_freepagetable pagetable sz =
     seqK [
       uvmunmap pagetable TRAMPOLINE 1 False,
       uvmunmap pagetable TRAPFRAME 1 False,
       uvmfree pagetable sz]"

definition freeproc :: "nat \<Rightarrow> ('z proc_st_scheme, unit) K" where
  "freeproc p =
     bindK (proc_get p p_trapframe) (\<lambda>tf.
     thenK (whenK (tf \<noteq> 0) (kfree tf)) (
     thenK (upd_proc p (\<lambda>r. r\<lparr>p_trapframe := 0\<rparr>)) (
     bindK (proc_get p p_pagetable) (\<lambda>pt.
     bindK (proc_get p p_sz) (\<lambda>sz.
     thenK (whenK (pt \<noteq> 0) (proc_freepagetable pt sz))
       (upd_proc p (\<lambda>r. r\<lparr>p_pagetable := 0, p_sz := 0, p_pid := 0, p_parent := None,
          p_name := (p_name r)[0 := 0], p_chan := C_null, p_killed := 0, p_xstate := 0,
          p_state := UNUSED\<rparr>)))))))"

definition allocproc :: "('z proc_st_scheme, nat option) K" where
  "allocproc =
     bindK (forK [0..<NPROC] (scan (\<lambda>r. p_state r = UNUSED) returnK)) (\<lambda>found.
     case found of None \<Rightarrow> returnK None
     | Some p \<Rightarrow>
       bindK allocpid (\<lambda>pid.
       thenK (upd_proc p (\<lambda>r. r\<lparr>p_pid := pid, p_state := USED\<rparr>)) (
       bindK kalloc (\<lambda>tf.
       thenK (upd_proc p (\<lambda>r. r\<lparr>p_trapframe := tf\<rparr>)) (
       if tf = 0
       then thenK (freeproc p) (thenK (release (Proc_lock p)) (returnK None)) else
       thenK (modifyK (\<lambda>s. s\<lparr>tfs := (tfs s)(tf := tf_junk)\<rparr>)) (
       bindK (proc_pagetable p) (\<lambda>pt.
       thenK (upd_proc p (\<lambda>r. r\<lparr>p_pagetable := pt\<rparr>)) (
       if pt = 0
       then thenK (freeproc p) (thenK (release (Proc_lock p)) (returnK None)) else
       bindK (askK forkret_sym) (\<lambda>forkret.
       thenK (upd_proc p (\<lambda>r. r\<lparr>p_context :=
           \<lparr>ctx_ra = forkret, ctx_sp = p_kstack r + PGSIZE, ctx_s = (\<lambda>_. 0)\<rparr>\<rparr>))
         (returnK (Some p)))))))))))"

definition growproc :: "i32 \<Rightarrow> ('z proc_st_scheme, i32) K" where
  "growproc n =
     bindK curproc (\<lambda>p.
     bindK (proc_get p p_sz) (\<lambda>sz.
     bindK (proc_get p p_pagetable) (\<lambda>pt.
     if sint n > 0 then
       bindK (uvmalloc pt sz (sz + scast n) PTE_W) (\<lambda>sz.
       if sz = 0 then returnK (-1)
       else thenK (upd_proc p (\<lambda>r. r\<lparr>p_sz := sz\<rparr>)) (returnK 0))
     else if sint n < 0 then
       bindK (uvmdealloc pt sz (sz + scast n)) (\<lambda>sz.
       thenK (upd_proc p (\<lambda>r. r\<lparr>p_sz := sz\<rparr>)) (returnK 0))
     else thenK (upd_proc p (\<lambda>r. r\<lparr>p_sz := sz\<rparr>)) (returnK 0))))"

section \<open>Sleeping and scheduling\<close>

definition sched :: "('z proc_st_scheme, unit) K" where
  "sched =
     bindK curproc (\<lambda>p.
     bindK (holding (Proc_lock p)) (\<lambda>h.
     if \<not> h then panic ''sched p->lock'' else
     bindK mycpu (\<lambda>c.
     bindK (getsK (\<lambda>s. noff (cpus (mach s) c))) (\<lambda>n.
     if n \<noteq> 1 then panic ''sched locks'' else
     bindK (proc_get p p_state) (\<lambda>st.
     if st = RUNNING then panic ''sched running'' else
     bindK intr_get (\<lambda>on.
     if on then panic ''sched interruptible'' else
     bindK (getsK (\<lambda>s. intena (cpus (mach s) c))) (\<lambda>ie.
     thenK (swtch (Proc_context p) (Cpu_context c)) (
     bindK mycpu (\<lambda>c'. upd_cpu c' (\<lambda>r. r\<lparr>intena := ie\<rparr>))))))))))"

definition yield :: "('z proc_st_scheme, unit) K" where
  "yield =
     bindK curproc (\<lambda>p. seqK [
       acquire (Proc_lock p),
       upd_proc p (\<lambda>r. r\<lparr>p_state := RUNNABLE\<rparr>),
       sched,
       release (Proc_lock p)])"

definition sleep :: "chan \<Rightarrow> lockref \<Rightarrow> ('z proc_st_scheme, unit) K" where
  "sleep chan lk =
     bindK curproc (\<lambda>p. seqK [
       acquire (Proc_lock p),
       release lk,
       upd_proc p (\<lambda>r. r\<lparr>p_chan := chan, p_state := SLEEPING\<rparr>),
       sched,
       upd_proc p (\<lambda>r. r\<lparr>p_chan := C_null\<rparr>),
       release (Proc_lock p),
       acquire lk])"

definition wake_one :: "chan \<Rightarrow> nat \<Rightarrow> ('z proc_st_scheme, unit) K" where
  "wake_one chan p =
     bindK myproc (\<lambda>me.
     whenK (Some p \<noteq> me) (
       thenK (acquire (Proc_lock p)) (
       thenK (upd_proc p (\<lambda>r. if p_state r = SLEEPING \<and> p_chan r = chan then r\<lparr>p_state := RUNNABLE\<rparr> else r))
         (release (Proc_lock p)))))"

definition wakeup :: "chan \<Rightarrow> ('z proc_st_scheme, unit) K" where
  "wakeup chan = foreachK [0..<NPROC] (wake_one chan)"

definition kill :: "i32 \<Rightarrow> ('z proc_st_scheme, i32) K" where
  "kill pid =
     bindK (forK [0..<NPROC] (scan (\<lambda>r. p_pid r = pid) (\<lambda>p.
       thenK (upd_proc p (\<lambda>r. r\<lparr>p_killed := 1\<rparr>)) (
       thenK (upd_proc p (\<lambda>r. if p_state r = SLEEPING then r\<lparr>p_state := RUNNABLE\<rparr> else r)) (
       thenK (release (Proc_lock p)) (returnK 0))))))
     (\<lambda>r. returnK (case r of None \<Rightarrow> -1 | Some x \<Rightarrow> x))"

definition setkilled :: "nat \<Rightarrow> ('z proc_st_scheme, unit) K" where
  "setkilled p = seqK [
     acquire (Proc_lock p),
     upd_proc p (\<lambda>r. r\<lparr>p_killed := 1\<rparr>),
     release (Proc_lock p)]"

definition killed :: "nat \<Rightarrow> ('z proc_st_scheme, i32) K" where
  "killed p =
     thenK (acquire (Proc_lock p)) (
     bindK (proc_get p p_killed) (\<lambda>k.
     thenK (release (Proc_lock p)) (returnK k)))"

definition reparent :: "nat \<Rightarrow> ('z proc_st_scheme, unit) K" where
  "reparent p =
     foreachK [0..<NPROC] (\<lambda>pp.
       bindK (proc_get pp p_parent) (\<lambda>par.
       whenK (par = Some p) (
         bindK (getsK initproc) (\<lambda>init.
         thenK (upd_proc pp (\<lambda>r. r\<lparr>p_parent := init\<rparr>))
           (wakeup (case init of None \<Rightarrow> C_null | Some i \<Rightarrow> C_proc i))))))"

text \<open>One scan of the table by \<^verbatim>\<open>wait\<close>: its result, or whether the process has children.\<close>

primrec wait_scan :: "nat \<Rightarrow> u64 \<Rightarrow> nat list \<Rightarrow> bool \<Rightarrow> ('z proc_st_scheme, bool + i32) K" where
  "wait_scan p addr [] havekids = returnK (Inl havekids)"
| "wait_scan p addr (pp # pps) havekids =
     bindK (proc_get pp p_parent) (\<lambda>par.
     if par \<noteq> Some p then wait_scan p addr pps havekids else
     thenK (acquire (Proc_lock pp)) (
     bindK (proc_get pp p_state) (\<lambda>st.
     if st = ZOMBIE then
       bindK (proc_get pp p_pid) (\<lambda>pid.
       bindK (proc_get p p_pagetable) (\<lambda>pt.
       bindK (proc_get pp p_xstate) (\<lambda>xs.
       bindK (if addr \<noteq> 0 then copyout pt addr (Kobj (bytes_of 4 xs)) 4 else returnK 0) (\<lambda>r.
       if sint r < 0
       then thenK (release (Proc_lock pp)) (thenK (release Wait_lock) (returnK (Inr (-1))))
       else thenK (freeproc pp) (
            thenK (release (Proc_lock pp)) (
            thenK (release Wait_lock) (returnK (Inr pid))))))))
     else thenK (release (Proc_lock pp)) (wait_scan p addr pps True))))"

definition wait :: "u64 \<Rightarrow> ('z proc_st_scheme, i32) K" where
  "wait addr =
     bindK curproc (\<lambda>p.
     thenK (acquire Wait_lock)
       (loopK (\<lambda>_.
          bindK (wait_scan p addr [0..<NPROC] False) (\<lambda>r. case r of
            Inr x \<Rightarrow> returnK (Inr x)
          | Inl havekids \<Rightarrow>
              bindK (if \<not> havekids then returnK True else bindK (killed p) (\<lambda>k. returnK (k \<noteq> 0))) (\<lambda>stop.
              if stop then thenK (release Wait_lock) (returnK (Inr (-1)))
              else thenK (sleep (C_proc p) Wait_lock) (returnK (Inl ()))))) ()))"

text \<open>One turn of the scheduler's inner loop, one scan of the table, and the scheduler.\<close>

definition schedule :: "nat \<Rightarrow> nat \<Rightarrow> ('z proc_st_scheme, unit) K" where
  "schedule c p =
     thenK (acquire (Proc_lock p)) (
     bindK (proc_get p p_state) (\<lambda>st.
     if st = RUNNABLE then
       thenK (upd_proc p (\<lambda>r. r\<lparr>p_state := RUNNING\<rparr>)) (
       thenK (upd_cpu c (\<lambda>r. r\<lparr>cpu_proc := Some p\<rparr>)) (
       thenK (swtch (Cpu_context c) (Proc_context p)) (
       bindK (getsK (\<lambda>s. cpu_proc (cpus (mach s) c))) (\<lambda>ran.
       thenK (upd_cpu c (\<lambda>r. r\<lparr>cpu_proc := None\<rparr>))
         (case ran of None \<Rightarrow> panic ''kerneltrap'' | Some q \<Rightarrow> release (Proc_lock q))))))
     else release (Proc_lock p)))"

definition scheduler :: "('z proc_st_scheme, unit) K" where
  "scheduler =
     bindK mycpu (\<lambda>c.
     thenK (upd_cpu c (\<lambda>r. r\<lparr>cpu_proc := None\<rparr>))
       (loopK (\<lambda>_. thenK intr_on (thenK (foreachK [0..<NPROC] (schedule c)) (returnK (Inl ())))) ()))"

section \<open>Coroutines\<close>

definition co_chan :: "nat \<Rightarrow> chan" where
  "co_chan p = C_context p"

definition find_proc :: "i32 \<Rightarrow> ('z proc_st_scheme, nat option) K" where
  "find_proc pid = forK [0..<NPROC] (scan (\<lambda>r. p_pid r = pid \<and> p_state r \<noteq> UNUSED) returnK)"

text \<open>\<^verbatim>\<open>mycpu()->proc = target\<close>\<close>

definition set_curproc :: "nat \<Rightarrow> ('z kst_scheme, unit) K" where
  "set_curproc target = bindK mycpu (\<lambda>c. upd_cpu c (\<lambda>r. r\<lparr>cpu_proc := Some target\<rparr>))"

text \<open>The end of both branches of \<^verbatim>\<open>co_yield\<close>: the switch, and what runs when \<open>p\<close> is resumed.\<close>

definition co_back :: "nat \<Rightarrow> ('z proc_st_scheme, i32) K" where
  "co_back p =
     bindK (tf_get p (\<lambda>tf. ucast (regs tf A0))) (\<lambda>ret.
     thenK (upd_proc p (\<lambda>r. r\<lparr>p_chan := C_null\<rparr>)) (
     thenK (release (Proc_lock p)) (returnK ret)))"

definition co_switch :: "nat \<Rightarrow> nat \<Rightarrow> ('z proc_st_scheme, i32) K" where
  "co_switch p target = thenK (swtch (Proc_context p) (Proc_context target)) (co_back p)"

text \<open>The peer is already asleep in its own \<^verbatim>\<open>co_yield\<close>: exchange values and switch to it.\<close>

definition co_resume :: "nat \<Rightarrow> nat \<Rightarrow> i32 \<Rightarrow> ('z proc_st_scheme, i32) K" where
  "co_resume p target value =
     bindK (proc_get target p_chan) (\<lambda>ch.
     if ch \<noteq> co_chan p then thenK (release (Proc_lock target)) (returnK (-1)) else
     thenK (acquire (Proc_lock p)) (
     bindK (proc_get p p_killed) (\<lambda>k.
     if k \<noteq> 0
     then thenK (release (Proc_lock p)) (thenK (release (Proc_lock target)) (returnK (-1))) else
     thenK (upd_tf p (set_reg A1 (scast value))) (
     bindK (tf_get target (\<lambda>tf. regs tf A1)) (\<lambda>sent.
     thenK (upd_tf p (set_reg A0 sent)) (
     thenK (upd_tf target (\<lambda>tf. if regs tf A0 = -1 then set_reg A0 (scast value) tf else tf)) (
     thenK (upd_proc p (\<lambda>r. r\<lparr>p_chan := co_chan target, p_state := SLEEPING\<rparr>)) (
     thenK (upd_proc target (\<lambda>r. r\<lparr>p_state := RUNNING, p_chan := C_null\<rparr>)) (
     thenK (set_curproc target) (
     thenK (release (Proc_lock p))
       (co_switch p target)))))))))))"

text \<open>The first side to arrive parks itself and runs the peer.\<close>

definition co_park :: "nat \<Rightarrow> nat \<Rightarrow> i32 \<Rightarrow> ('z proc_st_scheme, i32) K" where
  "co_park p target value =
     thenK (acquire (Proc_lock p)) (
     bindK (proc_get p p_killed) (\<lambda>k.
     if k \<noteq> 0
     then thenK (release (Proc_lock p)) (thenK (release (Proc_lock target)) (returnK (-1))) else
     thenK (upd_tf p (set_reg A1 (scast value))) (
     thenK (upd_tf p (set_reg A0 (-1))) (
     thenK (upd_proc p (\<lambda>r. r\<lparr>p_chan := co_chan target, p_state := SLEEPING\<rparr>)) (
     thenK (upd_proc target (\<lambda>r. r\<lparr>p_state := RUNNING\<rparr>)) (
     thenK (set_curproc target) (
     thenK (release (Proc_lock p))
       (co_switch p target))))))))"

definition co_yield :: "i32 \<Rightarrow> i32 \<Rightarrow> ('z proc_st_scheme, i32) K" where
  "co_yield pid value =
     bindK curproc (\<lambda>p.
     bindK (proc_get p p_pid) (\<lambda>mypid.
     if sint pid \<le> 0 \<or> pid = mypid then returnK (-1) else
     bindK (find_proc pid) (\<lambda>found.
     case found of None \<Rightarrow> returnK (-1)
     | Some target \<Rightarrow>
       bindK (proc_get target (\<lambda>r. p_killed r \<noteq> 0 \<or> p_state r = UNUSED \<or> p_state r = ZOMBIE)) (\<lambda>dead.
       if dead then thenK (release (Proc_lock target)) (returnK (-1)) else
       bindK (proc_get target p_state) (\<lambda>st.
       if st = SLEEPING then co_resume p target value
       else if st \<noteq> RUNNABLE then thenK (release (Proc_lock target)) (returnK (-1))
       else co_park p target value)))))"

section \<open>Copies to and from either side\<close>

text \<open>
  A user address, or a kernel pointer, as the flag of \<^verbatim>\<open>either_copyout\<close> says. The result
  carries the pointer moved past the bytes, as every caller does next.
\<close>

datatype eptr = Uaddr u64 | Kaddr kptr

definition either_copyout :: "eptr \<Rightarrow> kptr \<Rightarrow> u64 \<Rightarrow> ('z proc_st_scheme, i32 \<times> eptr) K" where
  "either_copyout dst src len =
     bindK curproc (\<lambda>p.
     case dst of
       Uaddr a \<Rightarrow>
         bindK (proc_get p p_pagetable) (\<lambda>pt.
         bindK (copyout pt a src len) (\<lambda>r. returnK (r, Uaddr (a + len))))
     | Kaddr (Kmem a) \<Rightarrow>
         thenK (upd_mem (\<lambda>m. kptr_read m a src len)) (returnK (0, Kaddr (Kmem (a + len))))
     | Kaddr (Kobj bs) \<Rightarrow>
         bindK (getsK (\<lambda>s. case src of
             Kmem b \<Rightarrow> read_bytes (mem s) b (unat len) | Kobj cs \<Rightarrow> take (unat len) cs)) (\<lambda>cs.
         returnK (0, Kaddr (Kobj (bs @ cs)))))"

definition either_copyin :: "kptr \<Rightarrow> eptr \<Rightarrow> u64 \<Rightarrow> ('z proc_st_scheme, i32 \<times> kptr) K" where
  "either_copyin dst src len =
     bindK curproc (\<lambda>p.
     case src of
       Uaddr a \<Rightarrow> bindK (proc_get p p_pagetable) (\<lambda>pt. copyin pt dst a len)
     | Kaddr k \<Rightarrow>
         (case dst of
            Kmem a \<Rightarrow> thenK (upd_mem (\<lambda>m. kptr_read m a k len)) (returnK (0, Kmem (a + len)))
          | Kobj bs \<Rightarrow>
              bindK (getsK (\<lambda>s. case k of
                  Kmem b \<Rightarrow> read_bytes (mem s) b (unat len) | Kobj cs \<Rightarrow> take (unat len) cs)) (\<lambda>cs.
              returnK (0, Kobj (bs @ cs)))))"

end
