(* ===== verification/Printf.thy ===== *)
theory Printf
  imports Prelude
begin

text \<open>
  The formatting of \<^verbatim>\<open>kernel/printf.c\<close> and \<^verbatim>\<open>user/printf.c\<close> as the sequence of bytes they
  hand to \<^verbatim>\<open>consputc\<close> or \<^verbatim>\<open>putc\<close>. Format strings and string arguments are lists of bytes
  without the terminating zero; an argument list is a list of \<open>farg\<close>, consumed in order.
\<close>

datatype farg = Fint i32 | Flong u64 | Fptr u64 | Fstr "byte list option" | Fchar byte

definition ch :: "char \<Rightarrow> byte" where
  "ch c = of_nat (of_char c)"

definition str :: "string \<Rightarrow> byte list" where
  "str s = map ch s"

section \<open>Numbers\<close>

definition kdigits :: "byte list" where
  "kdigits = str ''0123456789abcdef''"

definition udigits :: "byte list" where
  "udigits = str ''0123456789ABCDEF''"

text \<open>The \<^verbatim>\<open>do\<close> loop over the digits, least significant first.\<close>

function digit_loop :: "byte list \<Rightarrow> nat \<Rightarrow> nat \<Rightarrow> byte list" where
  "digit_loop digits base x =
     digits ! (x mod base) # (if x div base = 0 \<or> base < 2 then [] else digit_loop digits base (x div base))"

  by pat_completeness auto

termination digit_loop
  by (relation "measure (\<lambda>(_, _, x). x)") (auto simp: div_greater_zero_iff intro!: div_less_dividend)

declare digit_loop.simps [simp del]

definition printint :: "i32 \<Rightarrow> nat \<Rightarrow> bool \<Rightarrow> byte list" where
  "printint xx base sign =
     (let neg = sign \<and> sint xx < 0;
          x = (if neg then - xx else xx);
          buf = digit_loop kdigits base (unat x) @ (if neg then [ch CHR ''-''] else [])
      in rev buf)"

primrec hex_loop :: "byte list \<Rightarrow> nat \<Rightarrow> u64 \<Rightarrow> byte list" where
  "hex_loop digits 0 x = []"
| "hex_loop digits (Suc i) x = digits ! unat (drop_bit 60 x) # hex_loop digits i (push_bit 4 x)"

definition printptr :: "u64 \<Rightarrow> byte list" where
  "printptr x = [ch CHR ''0'', ch CHR ''x''] @ hex_loop kdigits 16 x"

section \<open>The kernel's printf\<close>

text \<open>A missing or ill-typed argument has no meaning in C; the model then stops with \<open>None\<close>.\<close>

fun kformat :: "byte list \<Rightarrow> farg list \<Rightarrow> byte list option" where
  "kformat [] args = Some []"
| "kformat (c # fmt) args =
     (if c = 0 then Some []
      else if c \<noteq> ch CHR ''%'' then map_option ((#) c) (kformat fmt args)
      else case fmt of
        [] \<Rightarrow> Some []
      | d # fmt' \<Rightarrow>
          if d = 0 then Some []
          else if d = ch CHR ''d'' then
            (case args of Fint x # as \<Rightarrow> map_option ((@) (printint x 10 True)) (kformat fmt' as) | _ \<Rightarrow> None)
          else if d = ch CHR ''x'' then
            (case args of Fint x # as \<Rightarrow> map_option ((@) (printint x 16 True)) (kformat fmt' as) | _ \<Rightarrow> None)
          else if d = ch CHR ''p'' then
            (case args of Fptr x # as \<Rightarrow> map_option ((@) (printptr x)) (kformat fmt' as) | _ \<Rightarrow> None)
          else if d = ch CHR ''s'' then
            (case args of
               Fstr so # as \<Rightarrow>
                 map_option ((@) (case so of None \<Rightarrow> str ''(null)'' | Some s \<Rightarrow> takeWhile (\<lambda>b. b \<noteq> 0) s)) (kformat fmt' as)
             | _ \<Rightarrow> None)
          else if d = ch CHR ''%'' then map_option ((#) (ch CHR ''%'')) (kformat fmt' args)
          else map_option ((@) [ch CHR ''%'', d]) (kformat fmt' args))"

section \<open>The user library's printf\<close>

definition uprintint :: "i32 \<Rightarrow> nat \<Rightarrow> bool \<Rightarrow> byte list" where
  "uprintint xx base sign =
     (let neg = sign \<and> sint xx < 0;
          x = (if neg then - xx else xx);
          buf = digit_loop udigits base (unat x) @ (if neg then [ch CHR ''-''] else [])
      in rev buf)"

definition uprintptr :: "u64 \<Rightarrow> byte list" where
  "uprintptr x = [ch CHR ''0'', ch CHR ''x''] @ hex_loop udigits 16 x"

text \<open>One conversion: the bytes for the character after \<^verbatim>\<open>%\<close> and the arguments left.\<close>

fun uconv :: "byte \<Rightarrow> farg list \<Rightarrow> (byte list \<times> farg list) option" where
  "uconv c args =
     (if c = ch CHR ''d'' then
        (case args of Fint x # as \<Rightarrow> Some (uprintint x 10 True, as) | _ \<Rightarrow> None)
      else if c = ch CHR ''l'' then
        (case args of Flong x # as \<Rightarrow> Some (uprintint (ucast x) 10 False, as) | _ \<Rightarrow> None)
      else if c = ch CHR ''x'' then
        (case args of Fint x # as \<Rightarrow> Some (uprintint x 16 False, as) | _ \<Rightarrow> None)
      else if c = ch CHR ''p'' then
        (case args of Fptr x # as \<Rightarrow> Some (uprintptr x, as) | _ \<Rightarrow> None)
      else if c = ch CHR ''s'' then
        (case args of
           Fstr so # as \<Rightarrow> Some (case so of None \<Rightarrow> str ''(null)'' | Some s \<Rightarrow> takeWhile (\<lambda>b. b \<noteq> 0) s, as)
         | _ \<Rightarrow> None)
      else if c = ch CHR ''c'' then
        (case args of Fchar b # as \<Rightarrow> Some ([b], as) | _ \<Rightarrow> None)
      else if c = ch CHR ''%'' then Some ([c], args)
      else Some ([ch CHR ''%'', c], args))"

text \<open>\<^verbatim>\<open>vprintf\<close>: the flag says whether the last character was an unconsumed \<^verbatim>\<open>%\<close>.\<close>

fun vprintf :: "bool \<Rightarrow> byte list \<Rightarrow> farg list \<Rightarrow> byte list option" where
  "vprintf st [] args = Some []"
| "vprintf st (c # fmt) args =
     (if c = 0 then Some []
      else if \<not> st then
        (if c = ch CHR ''%'' then vprintf True fmt args
         else map_option ((#) c) (vprintf False fmt args))
      else case uconv c args of
        None \<Rightarrow> None
      | Some (out, as) \<Rightarrow> map_option ((@) out) (vprintf False fmt as))"

section \<open>What the digits say\<close>

primrec value_rev :: "nat \<Rightarrow> nat list \<Rightarrow> nat" where
  "value_rev base [] = 0"
| "value_rev base (d # ds) = d + base * value_rev base ds"

definition digit_of :: "byte list \<Rightarrow> byte \<Rightarrow> nat" where
  "digit_of digits b = length (takeWhile (\<lambda>c. c \<noteq> b) digits)"

lemma takeWhile_nth_distinct:
  "distinct xs \<Longrightarrow> i < length xs \<Longrightarrow> length (takeWhile (\<lambda>c. c \<noteq> xs ! i) xs) = i"
proof (induction xs arbitrary: i)
  case (Cons x xs)
  then show ?case by (cases i) (auto simp: nth_mem)
qed simp

lemma digit_of_nth: "distinct digits \<Longrightarrow> i < length digits \<Longrightarrow> digit_of digits (digits ! i) = i"
  by (simp add: digit_of_def takeWhile_nth_distinct)

lemma digit_loop_value:
  assumes "distinct digits" and "2 \<le> base" and "base \<le> length digits"
  shows "value_rev base (map (digit_of digits) (digit_loop digits base x)) = x"
  using assms
proof (induction digits base x rule: digit_loop.induct)
  case (1 digits base x)
  have "x mod base < base" using 1(3) by simp
  then have "x mod base < length digits" using 1(4) by simp
  then show ?case
    using 1 by (subst digit_loop.simps) (auto simp: digit_of_nth div_eq_0_iff)
qed

lemma digit_loop_bounded:
  "2 \<le> base \<Longrightarrow> x < base ^ Suc n \<Longrightarrow> length (digit_loop digits base x) \<le> Suc n"
proof (induction n arbitrary: x)
  case 0
  then show ?case by (subst digit_loop.simps) simp
next
  case (Suc n)
  have "x div base < base ^ Suc n" using Suc.prems by (simp add: less_mult_imp_div_less mult.commute)
  from Suc.IH [OF Suc.prems(1) this] show ?case by (subst digit_loop.simps) simp
qed

definition printed_value :: "byte list \<Rightarrow> nat \<Rightarrow> byte list \<Rightarrow> int" where
  "printed_value digits base bs =
     (case bs of
        [] \<Rightarrow> 0
      | b # ds \<Rightarrow>
          if b = ch CHR ''-'' then - int (value_rev base (map (digit_of digits) (rev ds)))
          else int (value_rev base (map (digit_of digits) (rev bs))))"

lemma digit_loop_set: "2 \<le> base \<Longrightarrow> base \<le> length digits \<Longrightarrow> set (digit_loop digits base x) \<subseteq> set digits"
proof (induction digits base x rule: digit_loop.induct)
  case (1 digits base x)
  have "x mod base < base" using 1(2) by simp
  then have "x mod base < length digits" using 1(3) by simp
  then show ?case using 1 by (subst digit_loop.simps) auto
qed

lemma kdigits_simps [simp]: "distinct kdigits" "length kdigits = 16" "ch CHR ''-'' \<notin> set kdigits"
  by (simp_all add: kdigits_def str_def ch_def)

lemma udigits_simps [simp]: "distinct udigits" "length udigits = 16" "ch CHR ''-'' \<notin> set udigits"
  by (simp_all add: udigits_def str_def ch_def)

lemma digit_loop_nonempty [simp]: "digit_loop digits base x \<noteq> []"
  by (subst digit_loop.simps) simp

lemma printed_digits:
  assumes "distinct digits" and "2 \<le> base" and "base \<le> length digits" and "ch CHR ''-'' \<notin> set digits"
  shows "printed_value digits base (rev (digit_loop digits base x)) = int x"
    and "printed_value digits base (rev (digit_loop digits base x @ [ch CHR ''-''])) = - int x"
proof -
  obtain b bs where b: "rev (digit_loop digits base x) = b # bs"
    by (metis digit_loop_nonempty list.exhaust rev_is_Nil_conv)
  then have "b \<in> set (digit_loop digits base x)" by (metis list.set_intros(1) set_rev)
  then have "b \<noteq> ch CHR ''-''" using digit_loop_set [OF assms(2,3)] assms(4) by blast
  moreover have "rev (b # bs) = digit_loop digits base x" using b by (metis rev_rev_ident)
  ultimately show "printed_value digits base (rev (digit_loop digits base x)) = int x"
    using digit_loop_value [OF assms(1-3)] by (simp add: b printed_value_def del: rev.simps)
  show "printed_value digits base (rev (digit_loop digits base x @ [ch CHR ''-''])) = - int x"
    using digit_loop_value [OF assms(1-3)] by (simp add: printed_value_def)
qed

lemma uint_of_sint:
  fixes x :: i32
  shows "sint x < 0 \<Longrightarrow> int (unat (- x)) = - sint x" and "0 \<le> sint x \<Longrightarrow> int (unat x) = sint x"
proof -
  have lim: "- (2 ^ 31) \<le> sint x" "sint x < 2 ^ 31" using sint_ge [of x] sint_lt [of x] by simp_all
  have u: "int (unat (of_int k :: i32)) = k" if "0 \<le> k" "k < 2 ^ 32" for k
    using that by (simp add: unsigned_of_int take_bit_int_eq_self)
  show "int (unat (- x)) = - sint x" if "sint x < 0"
    using u [of "- sint x"] that lim by simp
  show "int (unat x) = sint x" if "0 \<le> sint x"
    using u [of "sint x"] that lim by simp
qed

lemma printint_value:
  assumes "2 \<le> base" and "base \<le> 16"
  shows "printed_value kdigits base (printint x base True) = sint x"
  using printed_digits [of kdigits base] assms uint_of_sint [of x]
  by (simp add: printint_def Let_def)

lemma uprintint_value:
  assumes "2 \<le> base" and "base \<le> 16"
  shows "printed_value udigits base (uprintint x base True) = sint x"
    and "printed_value udigits base (uprintint x base False) = uint x"
  using printed_digits [of udigits base] assms uint_of_sint [of x]
  by (simp_all add: uprintint_def Let_def)

text \<open>The buffer \<^verbatim>\<open>char buf[16]\<close> is large enough for the two bases in use.\<close>

lemma printint_length:
  assumes "base = 10 \<or> base = 16"
  shows "length (printint x base sign) \<le> 11"
proof -
  have "unat y < 2 ^ 32" for y :: i32 using unsigned_less [of y] by simp
  then have "length (digit_loop kdigits base (unat y)) \<le> 10" for y :: i32
    using assms digit_loop_bounded [of base "unat y" 9 kdigits] less_le_trans [of "unat y" "2 ^ 32" "base ^ 10"] by auto
  from this [of x] this [of "- x"] show ?thesis by (auto simp: printint_def Let_def)
qed

lemma uprintint_length:
  assumes "base = 10 \<or> base = 16"
  shows "length (uprintint x base sign) \<le> 11"
proof -
  have "unat y < 2 ^ 32" for y :: i32 using unsigned_less [of y] by simp
  then have "length (digit_loop udigits base (unat y)) \<le> 10" for y :: i32
    using assms digit_loop_bounded [of base "unat y" 9 udigits] less_le_trans [of "unat y" "2 ^ 32" "base ^ 10"] by auto
  from this [of x] this [of "- x"] show ?thesis by (auto simp: uprintint_def Let_def)
qed

section \<open>The two formatters\<close>

lemma digit_loop_decimal: "digit_loop kdigits 10 x = digit_loop udigits 10 x"
proof (induction x rule: less_induct)
  case (less x)
  have "kdigits ! i = udigits ! i" if "i < 10" for i
  proof -
    have "i \<in> {0,1,2,3,4,5,6,7,8,9}" using that by auto
    then show ?thesis by (auto simp: kdigits_def udigits_def str_def)
  qed
  then have "kdigits ! (x mod 10) = udigits ! (x mod 10)" by simp
  then show ?case using less [of "x div 10"] by (subst (1 2) digit_loop.simps) auto
qed

lemma printint_decimal: "uprintint x 10 True = printint x 10 True"
  by (simp add: printint_def uprintint_def digit_loop_decimal)

text \<open>A format that uses none of the conversions on which the two differ.\<close>

fun shared :: "byte list \<Rightarrow> bool" where
  "shared [] \<longleftrightarrow> True"
| "shared (c # fmt) \<longleftrightarrow> (if c = 0 then True else if c \<noteq> ch CHR ''%'' then shared fmt
     else case fmt of [] \<Rightarrow> True
       | d # fmt' \<Rightarrow> d = 0 \<or> d \<notin> {ch CHR ''x'', ch CHR ''p'', ch CHR ''l'', ch CHR ''c''} \<and> shared fmt')"

lemma ch_simps:
  "ch CHR ''%'' = 37" "ch CHR ''d'' = 100" "ch CHR ''x'' = 120" "ch CHR ''p'' = 112" "ch CHR ''s'' = 115"
  "ch CHR ''l'' = 108" "ch CHR ''c'' = 99"
  by (simp_all add: ch_def)

section \<open>Properties\<close>

text \<open>
  C18. \<^verbatim>\<open>printint\<close> prints the value of its argument: reading the digits back in the base, with
  the sign, gives the number, also for the least one, and the characters fit the
  16-byte buffer in which they are collected.
\<close>

theorem printint_readback:
  assumes "base = 10 \<or> base = 16"
  shows "printed_value kdigits base (printint x base True) = sint x \<and> length (printint x base True) \<le> 16 \<and>
     printed_value udigits base (uprintint x base True) = sint x \<and> printed_value udigits base (uprintint x base False) = uint x \<and>
     length (uprintint x base sg) \<le> 16"
  using printint_value [of base x] uprintint_value [of base x] printint_length [OF assms, of x True] uprintint_length [OF assms, of x sg] assms
  by auto

theorem printint_readback_witness:
  "printed_value kdigits 10 (printint 0x80000000 10 True) = - 2147483648 \<and> length (printint 0x80000000 10 True) \<le> 16"
  using printint_readback [of 10 "0x80000000"] by simp

text \<open>
  C17. The kernel's \<^verbatim>\<open>printf\<close> and the user library's agree: for every format without \<^verbatim>\<open>%x\<close>, \<^verbatim>\<open>%p\<close>,
  \<^verbatim>\<open>%l\<close> and \<^verbatim>\<open>%c\<close>, on which they differ, they print the same bytes for the same arguments.
\<close>

theorem printf_agree: "shared fmt \<Longrightarrow> kformat fmt args = vprintf False fmt args"
proof (induction "length fmt" arbitrary: fmt args rule: less_induct)
  case less
  show ?case
  proof (cases fmt)
    case (Cons c f)
    show ?thesis
    proof (cases "c = 0 \<or> c \<noteq> ch CHR ''%''")
      case True
      then show ?thesis using Cons less by auto
    next
      case False
      then have c: "c = ch CHR ''%''" "ch CHR ''%'' \<noteq> 0" by (simp_all add: ch_simps)
      show ?thesis
      proof (cases f)
        case f: (Cons d f')
        have IH: "kformat f' as = vprintf False f' as" if "d \<noteq> 0" for as
          using less.prems that by (intro less.hyps) (simp_all add: Cons f c)
        have "d = 0 \<or> d \<notin> {ch CHR ''x'', ch CHR ''p'', ch CHR ''l'', ch CHR ''c''}" using less.prems by (auto simp: Cons f c)
        then consider "d = 0" | "d = 37" | "d = 100" | "d = 115" | "d \<notin> {0, 37, 99, 100, 108, 112, 115, 120}" by (auto simp: ch_simps)
        then show ?thesis by cases (auto simp: Cons f c IH ch_simps printint_decimal fun_eq_iff intro!: option.map_cong split: list.splits farg.splits)
      qed (simp add: Cons c)
    qed
  qed simp
qed

theorem printf_agree_witness:
  "kformat (str ''pid %d: %s%%'') [Fint (- 7), Fstr (Some (str ''sh''))] = vprintf False (str ''pid %d: %s%%'') [Fint (- 7), Fstr (Some (str ''sh''))]"
  by (rule printf_agree) (simp add: str_def ch_def)

text \<open>
  C19. The user library prints only the low 32 bits of an argument of \<^verbatim>\<open>%l\<close>, although it fetches
  64 bits, because \<^verbatim>\<open>printint\<close> takes an \<^verbatim>\<open>int\<close>.
\<close>

theorem printf_long_truncates:
  "\<exists>bs. vprintf False (str ''%l'') [Flong x] = Some bs \<and> printed_value udigits 10 bs = uint x mod 2 ^ 32"
  using uprintint_value(2) [of 10 "ucast x"] by (simp add: str_def ch_simps unsigned_ucast_eq take_bit_eq_mod)

end
