(* ===== verification/Uart.thy ===== *)
theory Uart
  imports Proc Printf
begin

text \<open>
  \<^verbatim>\<open>kernel/uart.c\<close>, and the printing of \<^verbatim>\<open>kernel/printf.c\<close> and \<^verbatim>\<open>procdump\<close> on top of it. The
  device is seen through its registers: \<open>uart_out\<close> is what has been written to \<^verbatim>\<open>THR\<close>,
  \<open>uart_in\<close> what is waiting in \<^verbatim>\<open>RHR\<close>, \<open>uart_cfg\<close> the other register writes, newest first;
  whether \<^verbatim>\<open>LSR_TX_IDLE\<close> is set at a given read is for the environment to say.
\<close>

definition UART_TX_BUF_SIZE :: nat where "UART_TX_BUF_SIZE = 32"

record con_st = proc_st +
  uart_tx_buf :: "nat \<Rightarrow> byte"
  uart_tx_w :: u64
  uart_tx_r :: u64
  uart_out :: "byte list"
  uart_in :: "byte list"
  uart_cfg :: "(nat \<times> byte) list"
  lsr_reads :: nat
  panicked :: bool
  pr_locking :: bool
  cons_buf :: "nat \<Rightarrow> byte"
  cons_r :: u32
  cons_w :: u32
  cons_e :: u32

section \<open>Registers\<close>

definition lsr_tx_idle :: "('z con_st_scheme, bool) K" where
  "lsr_tx_idle =
     bindK (getsK lsr_reads) (\<lambda>n.
     thenK (modifyK (\<lambda>s. s\<lparr>lsr_reads := Suc n\<rparr>))
       (askK (\<lambda>e. tx_idle e n)))"

definition write_thr :: "byte \<Rightarrow> ('z con_st_scheme, unit) K" where
  "write_thr c = modifyK (\<lambda>s. s\<lparr>uart_out := uart_out s @ [c]\<rparr>)"

definition write_cfg :: "nat \<Rightarrow> byte \<Rightarrow> ('z con_st_scheme, unit) K" where
  "write_cfg r v = modifyK (\<lambda>s. s\<lparr>uart_cfg := (r, v) # uart_cfg s\<rparr>)"

section \<open>Operations\<close>

definition uartinit :: "('z con_st_scheme, unit) K" where
  "uartinit = seqK [
     write_cfg 1 0x00,
     write_cfg 3 0x80,
     write_cfg 0 0x03,
     write_cfg 1 0x00,
     write_cfg 3 0x03,
     write_cfg 2 0x07,
     write_cfg 1 0x03,
     initlock Uart_tx_lock ''uart'']"

definition uartputc_sync :: "byte \<Rightarrow> ('z con_st_scheme, unit) K" where
  "uartputc_sync c =
     thenK push_off (
     bindK (getsK panicked) (\<lambda>pk.
     if pk then (\<lambda>e s. Diverge) else
     thenK (loopK (\<lambda>_. bindK lsr_tx_idle (\<lambda>idle. returnK (if idle then Inr () else Inl ()))) ()) (
     thenK (write_thr c)
       pop_off)))"

text \<open>Taking a byte from the transmit buffer and adding one.\<close>

definition uart_pop :: "'z con_st_scheme \<Rightarrow> 'z con_st_scheme" where
  "uart_pop s = s\<lparr>uart_tx_r := uart_tx_r s + 1\<rparr>"

definition uart_push :: "byte \<Rightarrow> 'z con_st_scheme \<Rightarrow> 'z con_st_scheme" where
  "uart_push c s = s\<lparr>uart_tx_buf := (uart_tx_buf s)(unat (uart_tx_w s) mod UART_TX_BUF_SIZE := c),
     uart_tx_w := uart_tx_w s + 1\<rparr>"

definition uartstart :: "('z con_st_scheme, unit) K" where
  "uartstart = loopK (\<lambda>_.
     bindK (getsK (\<lambda>s. uart_tx_w s = uart_tx_r s)) (\<lambda>empty.
     if empty then returnK (Inr ()) else
     bindK lsr_tx_idle (\<lambda>idle.
     if \<not> idle then returnK (Inr ()) else
     bindK (getsK (\<lambda>s. uart_tx_buf s (unat (uart_tx_r s) mod UART_TX_BUF_SIZE))) (\<lambda>c.
     thenK (modifyK uart_pop) (
     thenK (wakeup C_uart_tx_r) (
     thenK (write_thr c)
       (returnK (Inl ())))))))) ()"

definition uartputc :: "byte \<Rightarrow> ('z con_st_scheme, unit) K" where
  "uartputc c =
     thenK (acquire Uart_tx_lock) (
     bindK (getsK panicked) (\<lambda>pk.
     if pk then (\<lambda>e s. Diverge) else
     thenK (loopK (\<lambda>_.
       bindK (getsK (\<lambda>s. uart_tx_w s = uart_tx_r s + of_nat UART_TX_BUF_SIZE)) (\<lambda>full.
       if full then thenK (sleep C_uart_tx_r Uart_tx_lock) (returnK (Inl ())) else returnK (Inr ()))) ()) (
     thenK (modifyK (uart_push c)) (
     thenK uartstart
       (release Uart_tx_lock)))))"

definition uartgetc :: "('z con_st_scheme, byte option) K" where
  "uartgetc =
     bindK (getsK uart_in) (\<lambda>bs. case bs of
       [] \<Rightarrow> returnK None
     | b # bs' \<Rightarrow> thenK (modifyK (\<lambda>s. s\<lparr>uart_in := bs'\<rparr>)) (returnK (Some b)))"

section \<open>Printing\<close>

text \<open>\<^verbatim>\<open>consputc\<close> of \<^verbatim>\<open>kernel/console.c\<close>; \<open>None\<close> is its \<^verbatim>\<open>BACKSPACE\<close>.\<close>

definition consputc :: "byte option \<Rightarrow> ('z con_st_scheme, unit) K" where
  "consputc c = (case c of
     None \<Rightarrow> seqK [uartputc_sync 8, uartputc_sync (ch CHR '' ''), uartputc_sync 8]
   | Some b \<Rightarrow> uartputc_sync b)"

definition printf :: "string \<Rightarrow> farg list \<Rightarrow> ('z con_st_scheme, unit) K" where
  "printf fmt args =
     bindK (getsK pr_locking) (\<lambda>locking.
     thenK (whenK locking (acquire Pr_lock)) (
     thenK (case kformat (str fmt) args of
              None \<Rightarrow> (\<lambda>e s. Diverge)
            | Some bs \<Rightarrow> foreachK bs (\<lambda>b. consputc (Some b)))
       (whenK locking (release Pr_lock))))"

definition printfinit :: "('z con_st_scheme, unit) K" where
  "printfinit = thenK (initlock Pr_lock ''pr'') (modifyK (\<lambda>s. s\<lparr>pr_locking := True\<rparr>))"

definition state_name :: "procstate \<Rightarrow> string" where
  "state_name st = (case st of
     UNUSED \<Rightarrow> ''unused'' | USED \<Rightarrow> ''used'' | SLEEPING \<Rightarrow> ''sleep ''
   | RUNNABLE \<Rightarrow> ''runble'' | RUNNING \<Rightarrow> ''run   '' | ZOMBIE \<Rightarrow> ''zombie'')"

definition procdump :: "('z con_st_scheme, unit) K" where
  "procdump =
     thenK (printf [CHR 0x0A] []) (
     foreachK [0..<NPROC] (\<lambda>p.
       bindK (proc_get p id) (\<lambda>r.
       if p_state r = UNUSED then returnK ()
       else thenK (printf ''%d %s %s'' [Fint (p_pid r), Fstr (Some (str (state_name (p_state r)))), Fstr (Some (p_name r))])
                  (printf [CHR 0x0A] []))))"

end
