(* ===== verification/Console.thy ===== *)
theory Console
  imports Uart
begin

text \<open>
  \<^verbatim>\<open>kernel/console.c\<close>: the line-editing input buffer between the UART interrupt and
  \<^verbatim>\<open>read\<close>. \<^verbatim>\<open>cons.r\<close>, \<^verbatim>\<open>cons.w\<close> and \<^verbatim>\<open>cons.e\<close> are 32-bit counters into a ring of 128 bytes.
\<close>

definition INPUT_BUF_SIZE :: nat where "INPUT_BUF_SIZE = 128"

definition ctrl :: "char \<Rightarrow> byte" where
  "ctrl x = ch x - ch CHR ''@''"

text \<open>Adding a byte at \<^verbatim>\<open>cons.e\<close>, taking it back, and taking one at \<^verbatim>\<open>cons.r\<close>.\<close>

definition cons_push :: "byte \<Rightarrow> 'z con_st_scheme \<Rightarrow> 'z con_st_scheme" where
  "cons_push c s = s\<lparr>cons_buf := (cons_buf s)(unat (cons_e s) mod INPUT_BUF_SIZE := c), cons_e := cons_e s + 1\<rparr>"

definition cons_back :: "'z con_st_scheme \<Rightarrow> 'z con_st_scheme" where
  "cons_back s = s\<lparr>cons_e := cons_e s - 1\<rparr>"

definition cons_pop :: "'z con_st_scheme \<Rightarrow> 'z con_st_scheme" where
  "cons_pop s = s\<lparr>cons_r := cons_r s + 1\<rparr>"

definition consolewrite :: "eptr \<Rightarrow> i32 \<Rightarrow> ('z con_st_scheme, i32) K" where
  "consolewrite src n =
     loopK (\<lambda>i.
       if \<not> sint i < sint n then returnK (Inr i) else
       bindK (either_copyin (Kobj []) (case src of
           Uaddr a \<Rightarrow> Uaddr (a + scast i)
         | Kaddr (Kmem a) \<Rightarrow> Kaddr (Kmem (a + scast i))
         | Kaddr (Kobj bs) \<Rightarrow> Kaddr (Kobj (drop (nat (sint i)) bs))) 1) (\<lambda>(r, dst).
       if r = -1 then returnK (Inr i) else
       thenK (uartputc (case dst of Kobj [c] \<Rightarrow> c | _ \<Rightarrow> 0))
         (returnK (Inl (i + 1))))) 0"

text \<open>
  \<^verbatim>\<open>consoleread\<close>: the loop variables are the destination and the number of bytes still wanted;
  the result carries the destination where the copy stopped.
\<close>

definition consoleread_wait :: "('z con_st_scheme, bool) K" where
  "consoleread_wait = loopK (\<lambda>_.
     bindK (getsK (\<lambda>s. cons_r s = cons_w s)) (\<lambda>empty.
     if \<not> empty then returnK (Inr True) else
     bindK curproc (\<lambda>p.
     bindK (killed p) (\<lambda>k.
     if k \<noteq> 0 then returnK (Inr False)
     else thenK (sleep C_cons_r Cons_lock) (returnK (Inl ())))))) ()"

definition consoleread_body :: "i32 \<Rightarrow> eptr \<times> i32 \<Rightarrow> ('z con_st_scheme, (eptr \<times> i32) + (i32 \<times> eptr)) K" where
  "consoleread_body target = (\<lambda>(dst, n).
     let done = thenK (release Cons_lock) (returnK (Inr (target - n, dst))) in
     if \<not> sint n > 0 then done else
     bindK consoleread_wait (\<lambda>ok.
     if \<not> ok then thenK (release Cons_lock) (returnK (Inr (-1, dst))) else
     bindK (getsK (\<lambda>s. cons_buf s (unat (cons_r s) mod INPUT_BUF_SIZE))) (\<lambda>c.
     thenK (modifyK cons_pop) (
     if c = ctrl CHR ''D'' then
       thenK (whenK (n < target) (modifyK (\<lambda>s. s\<lparr>cons_r := cons_r s - 1\<rparr>))) done
     else
       bindK (either_copyout dst (Kobj [c]) 1) (\<lambda>(r, dst').
       if r = -1 then done
       else if c = 10 then thenK (release Cons_lock) (returnK (Inr (target - (n - 1), dst')))
       else returnK (Inl (dst', n - 1)))))))"

definition consoleread :: "eptr \<Rightarrow> i32 \<Rightarrow> ('z con_st_scheme, i32 \<times> eptr) K" where
  "consoleread dst n = thenK (acquire Cons_lock) (loopK (consoleread_body n) (dst, n))"

definition kill_line :: "('z con_st_scheme, unit) K" where
  "kill_line = loopK (\<lambda>_.
     bindK (getsK (\<lambda>s. cons_e s \<noteq> cons_w s \<and>
        cons_buf s (unat (cons_e s - 1) mod INPUT_BUF_SIZE) \<noteq> 10)) (\<lambda>more.
     if \<not> more then returnK (Inr ()) else
     thenK (modifyK cons_back) (
     thenK (consputc None) (returnK (Inl ()))))) ()"

definition cons_input :: "byte \<Rightarrow> ('z con_st_scheme, unit) K" where
  "cons_input c0 =
     bindK (getsK (\<lambda>s. c0 \<noteq> 0 \<and> unat (cons_e s - cons_r s) < INPUT_BUF_SIZE)) (\<lambda>room.
     whenK room (
       let c = (if c0 = 13 then 10 else c0) in
       thenK (consputc (Some c)) (
       thenK (modifyK (cons_push c)) (
       bindK (getsK (\<lambda>s. unat (cons_e s - cons_r s) = INPUT_BUF_SIZE)) (\<lambda>full.
       whenK (c = 10 \<or> c = ctrl CHR ''D'' \<or> full) (
         thenK (modifyK (\<lambda>s. s\<lparr>cons_w := cons_e s\<rparr>))
           (wakeup C_cons_r)))))))"

definition consoleintr :: "byte \<Rightarrow> ('z con_st_scheme, unit) K" where
  "consoleintr c =
     thenK (acquire Cons_lock) (
     thenK (
       if c = ctrl CHR ''P'' then procdump
       else if c = ctrl CHR ''U'' then kill_line
       else if c = ctrl CHR ''H'' \<or> c = 0x7f then
         bindK (getsK (\<lambda>s. cons_e s \<noteq> cons_w s)) (\<lambda>b.
         whenK b (thenK (modifyK cons_back) (consputc None)))
       else cons_input c)
       (release Cons_lock))"

definition uartintr :: "('z con_st_scheme, unit) K" where
  "uartintr =
     thenK (loopK (\<lambda>_. bindK uartgetc (\<lambda>o'. case o' of
        None \<Rightarrow> returnK (Inr ())
      | Some c \<Rightarrow> thenK (consoleintr c) (returnK (Inl ())))) ()) (
     seqK [acquire Uart_tx_lock, uartstart, release Uart_tx_lock])"

end
