(* ===== verification/Sleeplock.thy ===== *)
theory Sleeplock
  imports Console
begin

text \<open>
  \<^verbatim>\<open>kernel/sleeplock.c\<close>: locks that a process may hold while it sleeps. A sleep lock is named by
  the object it protects (\<open>sleepref\<close>); the spin lock inside it is \<open>Sleep_lock\<close>.
\<close>

record sleeplock =
  sl_locked :: u32
  sl_name :: string
  sl_pid :: i32

record slk_st = con_st +
  sleeplocks :: "sleepref \<Rightarrow> sleeplock"

definition sleeplock0 :: sleeplock where
  "sleeplock0 = \<lparr>sl_locked = 0, sl_name = [], sl_pid = 0\<rparr>"

definition upd_slk :: "sleepref \<Rightarrow> (sleeplock \<Rightarrow> sleeplock) \<Rightarrow> ('z slk_st_scheme, unit) K" where
  "upd_slk l f = modifyK (\<lambda>s. s\<lparr>sleeplocks := (sleeplocks s)(l := f (sleeplocks s l))\<rparr>)"

definition initsleeplock :: "sleepref \<Rightarrow> string \<Rightarrow> ('z slk_st_scheme, unit) K" where
  "initsleeplock l name =
     thenK (initlock (Sleep_lock l) ''sleep lock'')
       (upd_slk l (\<lambda>r. r\<lparr>sl_name := name, sl_locked := 0, sl_pid := 0\<rparr>))"

definition acquiresleep :: "sleepref \<Rightarrow> ('z slk_st_scheme, unit) K" where
  "acquiresleep l =
     thenK (acquire (Sleep_lock l)) (
     thenK (loopK (\<lambda>_.
       bindK (getsK (\<lambda>s. sl_locked (sleeplocks s l) \<noteq> 0)) (\<lambda>b.
       if b then thenK (sleep (C_sleep l) (Sleep_lock l)) (returnK (Inl ())) else returnK (Inr ()))) ()) (
     thenK (upd_slk l (\<lambda>r. r\<lparr>sl_locked := 1\<rparr>)) (
     bindK curproc (\<lambda>p.
     bindK (proc_get p p_pid) (\<lambda>pid.
     thenK (upd_slk l (\<lambda>r. r\<lparr>sl_pid := pid\<rparr>))
       (release (Sleep_lock l)))))))"

definition releasesleep :: "sleepref \<Rightarrow> ('z slk_st_scheme, unit) K" where
  "releasesleep l = seqK [
     acquire (Sleep_lock l),
     upd_slk l (\<lambda>r. r\<lparr>sl_locked := 0, sl_pid := 0\<rparr>),
     wakeup (C_sleep l),
     release (Sleep_lock l)]"

definition holdingsleep :: "sleepref \<Rightarrow> ('z slk_st_scheme, bool) K" where
  "holdingsleep l =
     thenK (acquire (Sleep_lock l)) (
     bindK (getsK (\<lambda>s. sl_locked (sleeplocks s l) \<noteq> 0)) (\<lambda>b.
     bindK (if b then bindK curproc (\<lambda>p. bindK (proc_get p p_pid) (\<lambda>pid.
              getsK (\<lambda>s. sl_pid (sleeplocks s l) = pid))) else returnK False) (\<lambda>r.
     thenK (release (Sleep_lock l)) (returnK r))))"

end
