(* ===== verification/Pipe.thy ===== *)
theory Pipe
  imports Sleeplock
begin

text \<open>
  \<^verbatim>\<open>kernel/pipe.c\<close> without \<^verbatim>\<open>pipealloc\<close> (see \<open>File\<close>): a ring of 512 bytes with two counters of
  32 bits that are never reduced. The page of a pipe is kept as a typed value under its address.
\<close>

definition PIPESIZE :: nat where "PIPESIZE = 512"

record pipe =
  pi_data :: "nat \<Rightarrow> byte"
  nread :: u32
  nwrite :: u32
  readopen :: i32
  writeopen :: i32

record pipe_st = slk_st +
  pipes :: "addr \<Rightarrow> pipe"

definition upd_pipe :: "addr \<Rightarrow> (pipe \<Rightarrow> pipe) \<Rightarrow> ('z pipe_st_scheme, unit) K" where
  "upd_pipe pi f = modifyK (\<lambda>s. s\<lparr>pipes := (pipes s)(pi := f (pipes s pi))\<rparr>)"

definition pipe_get :: "addr \<Rightarrow> (pipe \<Rightarrow> 'a) \<Rightarrow> ('z pipe_st_scheme, 'a) K" where
  "pipe_get pi f = getsK (\<lambda>s. f (pipes s pi))"

definition pipeclose :: "addr \<Rightarrow> bool \<Rightarrow> ('z pipe_st_scheme, unit) K" where
  "pipeclose pi writable =
     thenK (acquire (Pipe_lock pi)) (
     thenK (if writable
            then thenK (upd_pipe pi (\<lambda>p. p\<lparr>writeopen := 0\<rparr>)) (wakeup (C_pipe_nread pi))
            else thenK (upd_pipe pi (\<lambda>p. p\<lparr>readopen := 0\<rparr>)) (wakeup (C_pipe_nwrite pi))) (
     bindK (pipe_get pi (\<lambda>p. readopen p = 0 \<and> writeopen p = 0)) (\<lambda>dead.
     if dead then thenK (release (Pipe_lock pi)) (kfree pi)
     else release (Pipe_lock pi))))"

text \<open>Appending a byte and taking one off.\<close>

definition pipe_push :: "byte \<Rightarrow> pipe \<Rightarrow> pipe" where
  "pipe_push c p = p\<lparr>pi_data := (pi_data p)(unat (nwrite p) mod PIPESIZE := c), nwrite := nwrite p + 1\<rparr>"

definition pipe_head :: "pipe \<Rightarrow> byte" where
  "pipe_head p = pi_data p (unat (nread p) mod PIPESIZE)"

definition pipe_pop :: "pipe \<Rightarrow> pipe" where
  "pipe_pop p = p\<lparr>nread := nread p + 1\<rparr>"

definition pipewrite_body :: "addr \<Rightarrow> nat \<Rightarrow> u64 \<Rightarrow> i32 \<Rightarrow> i32 \<Rightarrow> ('z pipe_st_scheme, i32 + i32) K" where
  "pipewrite_body pi pr addr n i =
     (let finish = thenK (wakeup (C_pipe_nread pi)) (thenK (release (Pipe_lock pi)) (returnK (Inr i))) in
      if \<not> sint i < sint n then finish else
      bindK (pipe_get pi (\<lambda>p. readopen p = 0)) (\<lambda>shut.
      bindK (if shut then returnK True else bindK (killed pr) (\<lambda>k. returnK (k \<noteq> 0))) (\<lambda>stop.
      if stop then thenK (release (Pipe_lock pi)) (returnK (Inr (-1))) else
      bindK (pipe_get pi (\<lambda>p. nwrite p = nread p + of_nat PIPESIZE)) (\<lambda>full.
      if full then
        thenK (wakeup (C_pipe_nread pi)) (
        thenK (sleep (C_pipe_nwrite pi) (Pipe_lock pi)) (returnK (Inl i)))
      else
        bindK (proc_get pr p_pagetable) (\<lambda>pt.
        bindK (copyin pt (Kobj []) (addr + scast i) 1) (\<lambda>(r, dst).
        if r = -1 then finish else
        thenK (upd_pipe pi (pipe_push (case dst of Kobj [c] \<Rightarrow> c | _ \<Rightarrow> 0)))
          (returnK (Inl (i + 1)))))))))"

definition pipewrite :: "addr \<Rightarrow> u64 \<Rightarrow> i32 \<Rightarrow> ('z pipe_st_scheme, i32) K" where
  "pipewrite pi addr n =
     bindK curproc (\<lambda>pr.
     thenK (acquire (Pipe_lock pi)) (loopK (pipewrite_body pi pr addr n) 0))"

text \<open>The wait for data of \<^verbatim>\<open>piperead\<close>: whether the caller may go on.\<close>

definition piperead_wait :: "addr \<Rightarrow> nat \<Rightarrow> ('z pipe_st_scheme, bool) K" where
  "piperead_wait pi pr = loopK (\<lambda>_.
     bindK (pipe_get pi (\<lambda>p. nread p = nwrite p \<and> writeopen p \<noteq> 0)) (\<lambda>empty.
     if \<not> empty then returnK (Inr True) else
     bindK (killed pr) (\<lambda>k.
     if k \<noteq> 0 then returnK (Inr False)
     else thenK (sleep (C_pipe_nread pi) (Pipe_lock pi)) (returnK (Inl ()))))) ()"

definition piperead_body :: "addr \<Rightarrow> nat \<Rightarrow> u64 \<Rightarrow> i32 \<Rightarrow> i32 \<Rightarrow> ('z pipe_st_scheme, i32 + i32) K" where
  "piperead_body pi pr addr n i =
     (if \<not> sint i < sint n then returnK (Inr i) else
      bindK (pipe_get pi (\<lambda>p. nread p = nwrite p)) (\<lambda>empty.
      if empty then returnK (Inr i) else
      bindK (pipe_get pi pipe_head) (\<lambda>c.
      thenK (upd_pipe pi pipe_pop) (
      bindK (proc_get pr p_pagetable) (\<lambda>pt.
      bindK (copyout pt (addr + scast i) (Kobj [c]) 1) (\<lambda>r.
      returnK (if r = -1 then Inr i else Inl (i + 1))))))))"

definition piperead :: "addr \<Rightarrow> u64 \<Rightarrow> i32 \<Rightarrow> ('z pipe_st_scheme, i32) K" where
  "piperead pi addr n =
     bindK curproc (\<lambda>pr.
     thenK (acquire (Pipe_lock pi)) (
     bindK (piperead_wait pi pr) (\<lambda>ok.
     if \<not> ok then thenK (release (Pipe_lock pi)) (returnK (-1)) else
     bindK (loopK (piperead_body pi pr addr n) 0) (\<lambda>i.
     thenK (wakeup (C_pipe_nwrite pi)) (
     thenK (release (Pipe_lock pi)) (returnK i))))))"

end
