(* ===== verification/Bio.thy ===== *)
theory Bio
  imports Pipe
begin

text \<open>
  \<^verbatim>\<open>kernel/bio.c\<close>: the buffer cache. The doubly linked list of buffers in order of use is
  kept as the code keeps it, by \<^verbatim>\<open>prev\<close> and \<^verbatim>\<open>next\<close> pointers through the buffers and the list
  head (\<open>bref\<close>).

  The disk behind it is the map \<open>disk\<close> from block numbers to blocks. \<open>disk_rw\<close> is what
  \<^verbatim>\<open>virtio_disk_rw\<close> promises its callers: when it returns, the block has been transferred.
  Every write is also recorded in \<open>disk_writes\<close>, newest first: a crash leaves the disk as some
  prefix of the writes has made it.
\<close>

definition BSIZE :: nat where [simp]: "BSIZE = 1024"

datatype bref = Bhead | B nat

record buf =
  b_valid :: i32
  b_disk :: i32
  b_dev :: u32
  b_blockno :: u32
  b_refcnt :: u32
  b_data :: "byte list"

record bio_st = pipe_st +
  bufs :: "nat \<Rightarrow> buf"
  bprev :: "bref \<Rightarrow> bref"
  bnext :: "bref \<Rightarrow> bref"
  disk :: "u32 \<Rightarrow> byte list"
  disk_writes :: "(u32 \<times> byte list) list"

definition upd_buf :: "nat \<Rightarrow> (buf \<Rightarrow> buf) \<Rightarrow> ('z bio_st_scheme, unit) K" where
  "upd_buf b f = modifyK (\<lambda>s. s\<lparr>bufs := (bufs s)(b := f (bufs s b))\<rparr>)"

definition buf_get :: "nat \<Rightarrow> (buf \<Rightarrow> 'a) \<Rightarrow> ('z bio_st_scheme, 'a) K" where
  "buf_get b f = getsK (\<lambda>s. f (bufs s b))"

definition set_next :: "bref \<Rightarrow> bref \<Rightarrow> ('z bio_st_scheme, unit) K" where
  "set_next b c = modifyK (\<lambda>s. s\<lparr>bnext := (bnext s)(b := c)\<rparr>)"

definition set_prev :: "bref \<Rightarrow> bref \<Rightarrow> ('z bio_st_scheme, unit) K" where
  "set_prev b c = modifyK (\<lambda>s. s\<lparr>bprev := (bprev s)(b := c)\<rparr>)"

definition disk_rw :: "nat \<Rightarrow> bool \<Rightarrow> ('z bio_st_scheme, unit) K" where
  "disk_rw b write = modifyK (\<lambda>s.
     let n = b_blockno (bufs s b) in
     if write
     then s\<lparr>disk := (disk s)(n := b_data (bufs s b)), disk_writes := (n, b_data (bufs s b)) # disk_writes s\<rparr>
     else s\<lparr>bufs := (bufs s)(b := (bufs s b)\<lparr>b_data := disk s n\<rparr>)\<rparr>)"

section \<open>Operations\<close>

text \<open>Insert a buffer right behind the head of the list; take it out of its place first.\<close>

definition link_front :: "bref \<Rightarrow> ('z bio_st_scheme, unit) K" where
  "link_front b =
     bindK (getsK (\<lambda>s. bnext s Bhead)) (\<lambda>fst'.
     thenK (set_next b fst') (
     thenK (set_prev b Bhead) (
     bindK (getsK (\<lambda>s. bnext s Bhead)) (\<lambda>fst''.
     thenK (set_prev fst'' b)
       (set_next Bhead b)))))"

definition to_front :: "nat \<Rightarrow> ('z bio_st_scheme, unit) K" where
  "to_front b =
     bindK (getsK (\<lambda>s. (bnext s (B b), bprev s (B b)))) (\<lambda>(nx, pv).
     thenK (set_prev nx pv) (
     bindK (getsK (\<lambda>s. (bnext s (B b), bprev s (B b)))) (\<lambda>(nx, pv).
     thenK (set_next pv nx)
       (link_front (B b)))))"

definition binit :: "('z bio_st_scheme, unit) K" where
  "binit =
     thenK (initlock Bcache_lock ''bcache'') (
     thenK (set_prev Bhead Bhead) (
     thenK (set_next Bhead Bhead)
       (foreachK [0..<NBUF] (\<lambda>b.
          bindK (getsK (\<lambda>s. bnext s Bhead)) (\<lambda>fst'.
          seqK [
            set_next (B b) fst',
            set_prev (B b) Bhead,
            initsleeplock (Buf_lock b) ''buffer'',
            bindK (getsK (\<lambda>s. bnext s Bhead)) (\<lambda>f. set_prev f (B b)),
            set_next Bhead (B b)])))))"

text \<open>
  The two searches of \<^verbatim>\<open>bget\<close>: along \<^verbatim>\<open>next\<close> for the block, along \<^verbatim>\<open>prev\<close> for a free buffer.
\<close>

definition bsearch :: "('z bio_st_scheme \<Rightarrow> bref \<Rightarrow> bref) \<Rightarrow> (buf \<Rightarrow> bool) \<Rightarrow> ('z bio_st_scheme, nat option) K" where
  "bsearch link test =
     bindK (getsK (\<lambda>s. link s Bhead)) (\<lambda>b0.
     loopK (\<lambda>b. case b of
       Bhead \<Rightarrow> returnK (Inr None)
     | B i \<Rightarrow>
         bindK (buf_get i test) (\<lambda>hit.
         if hit then returnK (Inr (Some i))
         else bindK (getsK (\<lambda>s. link s (B i))) (\<lambda>n. returnK (Inl n)))) b0)"

definition bget :: "u32 \<Rightarrow> u32 \<Rightarrow> ('z bio_st_scheme, nat) K" where
  "bget dev blockno =
     thenK (acquire Bcache_lock) (
     bindK (bsearch bnext (\<lambda>b. b_dev b = dev \<and> b_blockno b = blockno)) (\<lambda>cached.
     case cached of
       Some b \<Rightarrow>
         thenK (upd_buf b (\<lambda>r. r\<lparr>b_refcnt := b_refcnt r + 1\<rparr>)) (
         thenK (release Bcache_lock) (
         thenK (acquiresleep (Buf_lock b)) (returnK b)))
     | None \<Rightarrow>
         bindK (bsearch bprev (\<lambda>b. b_refcnt b = 0)) (\<lambda>unused.
         case unused of
           Some b \<Rightarrow>
             thenK (upd_buf b (\<lambda>r. r\<lparr>b_dev := dev, b_blockno := blockno, b_valid := 0, b_refcnt := 1\<rparr>)) (
             thenK (release Bcache_lock) (
             thenK (acquiresleep (Buf_lock b)) (returnK b)))
         | None \<Rightarrow> panic ''bget: no buffers'')))"

definition bread :: "u32 \<Rightarrow> u32 \<Rightarrow> ('z bio_st_scheme, nat) K" where
  "bread dev blockno =
     bindK (bget dev blockno) (\<lambda>b.
     bindK (buf_get b b_valid) (\<lambda>v.
     thenK (whenK (v = 0) (
       thenK (disk_rw b False)
         (upd_buf b (\<lambda>r. r\<lparr>b_valid := 1\<rparr>))))
       (returnK b)))"

definition bwrite :: "nat \<Rightarrow> ('z bio_st_scheme, unit) K" where
  "bwrite b =
     bindK (holdingsleep (Buf_lock b)) (\<lambda>h.
     if \<not> h then panic ''bwrite'' else disk_rw b True)"

definition brelse :: "nat \<Rightarrow> ('z bio_st_scheme, unit) K" where
  "brelse b =
     bindK (holdingsleep (Buf_lock b)) (\<lambda>h.
     if \<not> h then panic ''brelse'' else
     thenK (releasesleep (Buf_lock b)) (
     thenK (acquire Bcache_lock) (
     thenK (upd_buf b (\<lambda>r. r\<lparr>b_refcnt := b_refcnt r - 1\<rparr>)) (
     bindK (buf_get b b_refcnt) (\<lambda>n.
     thenK (whenK (n = 0) (to_front b))
       (release Bcache_lock))))))"

definition bpin :: "nat \<Rightarrow> ('z bio_st_scheme, unit) K" where
  "bpin b = seqK [
     acquire Bcache_lock,
     upd_buf b (\<lambda>r. r\<lparr>b_refcnt := b_refcnt r + 1\<rparr>),
     release Bcache_lock]"

definition bunpin :: "nat \<Rightarrow> ('z bio_st_scheme, unit) K" where
  "bunpin b = seqK [
     acquire Bcache_lock,
     upd_buf b (\<lambda>r. r\<lparr>b_refcnt := b_refcnt r - 1\<rparr>),
     release Bcache_lock]"

end
