(* ===== verification/Log.thy ===== *)
theory Log
  imports Bio
begin

text \<open>
  \<^verbatim>\<open>kernel/log.c\<close>: the redo log of the file system. A transaction collects block numbers in
  the in-memory header; \<^verbatim>\<open>commit\<close> copies the blocks to the log, writes the header (the commit
  point), installs the blocks and clears the header.
\<close>

record logstate =
  lg_start :: i32
  lg_size :: i32
  lg_outstanding :: i32
  lg_committing :: i32
  lg_dev :: u32
  lh_n :: i32
  lh_block :: "nat \<Rightarrow> u32"

record superblock =
  sb_magic :: u32
  sb_size :: u32
  sb_nblocks :: u32
  sb_ninodes :: u32
  sb_nlog :: u32
  sb_logstart :: u32
  sb_inodestart :: u32
  sb_bmapstart :: u32

record log_st = bio_st +
  log :: logstate

definition upd_log :: "(logstate \<Rightarrow> logstate) \<Rightarrow> ('z log_st_scheme, unit) K" where
  "upd_log f = modifyK (\<lambda>s. s\<lparr>log := f (log s)\<rparr>)"

definition log_get :: "(logstate \<Rightarrow> 'a) \<Rightarrow> ('z log_st_scheme, 'a) K" where
  "log_get f = getsK (\<lambda>s. f (log s))"

text \<open>The header block: a count, followed by block numbers.\<close>

definition lh_get :: "byte list \<Rightarrow> i32 \<times> (nat \<Rightarrow> u32)" where
  "lh_get bs = (get32 bs 0, \<lambda>i. get32 bs (4 + 4 * i))"

definition lh_put :: "byte list \<Rightarrow> i32 \<Rightarrow> (nat \<Rightarrow> u32) \<Rightarrow> byte list" where
  "lh_put bs n block = fold (\<lambda>i bs. put32 bs (4 + 4 * i) (block i)) [0..<nat (sint n)] (put32 bs 0 n)"

section \<open>Installing and recovering\<close>

definition install_block :: "bool \<Rightarrow> nat \<Rightarrow> ('z log_st_scheme, unit) K" where
  "install_block recovering tail =
     bindK (log_get id) (\<lambda>lg.
     bindK (bread (lg_dev lg) (lg_start lg + of_nat tail + 1)) (\<lambda>lbuf.
     bindK (bread (lg_dev lg) (lh_block lg tail)) (\<lambda>dbuf.
     bindK (buf_get lbuf b_data) (\<lambda>data. seqK [
       upd_buf dbuf (\<lambda>r. r\<lparr>b_data := data\<rparr>),
       bwrite dbuf,
       whenK (\<not> recovering) (bunpin dbuf),
       brelse lbuf,
       brelse dbuf]))))"

definition install_trans :: "bool \<Rightarrow> ('z log_st_scheme, unit) K" where
  "install_trans recovering =
     bindK (log_get lh_n) (\<lambda>n. foreachK [0..<nat (sint n)] (install_block recovering))"

definition read_head :: "('z log_st_scheme, unit) K" where
  "read_head =
     bindK (log_get id) (\<lambda>lg.
     bindK (bread (lg_dev lg) (lg_start lg)) (\<lambda>b.
     bindK (buf_get b b_data) (\<lambda>data.
     let (n, block) = lh_get data in
     thenK (upd_log (\<lambda>r. r\<lparr>lh_n := n, lh_block := (\<lambda>i. if i < nat (sint n) then block i else lh_block r i)\<rparr>))
       (brelse b))))"

definition write_head :: "('z log_st_scheme, unit) K" where
  "write_head =
     bindK (log_get id) (\<lambda>lg.
     bindK (bread (lg_dev lg) (lg_start lg)) (\<lambda>b. seqK [
       upd_buf b (\<lambda>r. r\<lparr>b_data := lh_put (b_data r) (lh_n lg) (lh_block lg)\<rparr>),
       bwrite b,
       brelse b]))"

definition recover_from_log :: "('z log_st_scheme, unit) K" where
  "recover_from_log = seqK [
     read_head,
     install_trans True,
     upd_log (\<lambda>r. r\<lparr>lh_n := 0\<rparr>),
     write_head]"

text \<open>\<^verbatim>\<open>sizeof(struct logheader)\<close> is 124, less than a block, so the panic is never reached.\<close>

definition initlog :: "u32 \<Rightarrow> superblock \<Rightarrow> ('z log_st_scheme, unit) K" where
  "initlog dev sb =
     (if 4 + 4 * LOGSIZE \<ge> BSIZE then panic ''initlog: too big logheader'' else
      seqK [
        initlock Log_lock ''log'',
        upd_log (\<lambda>r. r\<lparr>lg_start := sb_logstart sb, lg_size := sb_nlog sb, lg_dev := dev\<rparr>),
        recover_from_log])"

section \<open>Transactions\<close>

definition begin_op :: "('z log_st_scheme, unit) K" where
  "begin_op =
     thenK (acquire Log_lock) (loopK (\<lambda>_.
       bindK (log_get id) (\<lambda>lg.
       if lg_committing lg \<noteq> 0 then thenK (sleep C_log Log_lock) (returnK (Inl ()))
       else if sint (lh_n lg + (lg_outstanding lg + 1) * of_nat MAXOPBLOCKS) > int LOGSIZE
       then thenK (sleep C_log Log_lock) (returnK (Inl ()))
       else thenK (upd_log (\<lambda>r. r\<lparr>lg_outstanding := lg_outstanding r + 1\<rparr>)) (
            thenK (release Log_lock) (returnK (Inr ()))))) ())"

definition write_block :: "nat \<Rightarrow> ('z log_st_scheme, unit) K" where
  "write_block tail =
     bindK (log_get id) (\<lambda>lg.
     bindK (bread (lg_dev lg) (lg_start lg + of_nat tail + 1)) (\<lambda>to.
     bindK (bread (lg_dev lg) (lh_block lg tail)) (\<lambda>from'.
     bindK (buf_get from' b_data) (\<lambda>data. seqK [
       upd_buf to (\<lambda>r. r\<lparr>b_data := data\<rparr>),
       bwrite to,
       brelse from',
       brelse to]))))"

definition write_log :: "('z log_st_scheme, unit) K" where
  "write_log = bindK (log_get lh_n) (\<lambda>n. foreachK [0..<nat (sint n)] write_block)"

definition commit :: "('z log_st_scheme, unit) K" where
  "commit =
     bindK (log_get lh_n) (\<lambda>n.
     whenK (sint n > 0) (seqK [
       write_log,
       write_head,
       install_trans False,
       upd_log (\<lambda>r. r\<lparr>lh_n := 0\<rparr>),
       write_head]))"

definition end_op :: "('z log_st_scheme, unit) K" where
  "end_op =
     thenK (acquire Log_lock) (
     thenK (upd_log (\<lambda>r. r\<lparr>lg_outstanding := lg_outstanding r - 1\<rparr>)) (
     bindK (log_get id) (\<lambda>lg.
     if lg_committing lg \<noteq> 0 then panic ''log.committing'' else
     if lg_outstanding lg = 0 then
       seqK [
         upd_log (\<lambda>r. r\<lparr>lg_committing := 1\<rparr>),
         release Log_lock,
         commit,
         acquire Log_lock,
         upd_log (\<lambda>r. r\<lparr>lg_committing := 0\<rparr>),
         wakeup C_log,
         release Log_lock]
     else thenK (wakeup C_log) (release Log_lock))))"

definition log_write :: "nat \<Rightarrow> ('z log_st_scheme, unit) K" where
  "log_write b =
     thenK (acquire Log_lock) (
     bindK (log_get id) (\<lambda>lg.
     if sint (lh_n lg) \<ge> int LOGSIZE \<or> sint (lh_n lg) \<ge> sint (lg_size lg - 1)
     then panic ''too big a transaction''
     else if sint (lg_outstanding lg) < 1 then panic ''log_write outside of trans'' else
     bindK (buf_get b b_blockno) (\<lambda>bn.
     let n = nat (sint (lh_n lg));
         i = length (takeWhile (\<lambda>j. lh_block lg j \<noteq> bn) [0..<n]) in
     thenK (upd_log (\<lambda>r. r\<lparr>lh_block := (lh_block r)(i := bn)\<rparr>)) (
     thenK (whenK (i = n) (thenK (bpin b) (upd_log (\<lambda>r. r\<lparr>lh_n := lh_n r + 1\<rparr>))))
       (release Log_lock)))))"

end
