(* ===== verification/Fs.thy ===== *)
theory Fs
  imports Log
begin

text \<open>
  \<^verbatim>\<open>kernel/fs.c\<close> and \<^verbatim>\<open>kernel/fs.h\<close>: blocks, inodes, directories and path names. An
  \<^verbatim>\<open>struct inode *\<close> is an index of the inode table. On-disk structures are read from and written
  to the bytes of a buffer at the offsets the C layout gives them. Path strings and names are
  lists of bytes without the terminating zero.
\<close>

definition ROOTINO :: u32 where [simp]: "ROOTINO = 1"
definition FSMAGIC :: u32 where [simp]: "FSMAGIC = 0x10203040"
definition NDIRECT :: nat where [simp]: "NDIRECT = 12"
definition NINDIRECT :: nat where [simp]: "NINDIRECT = BSIZE div 4"
definition MAXFILE :: nat where [simp]: "MAXFILE = NDIRECT + NINDIRECT"
definition IPB :: nat where [simp]: "IPB = BSIZE div 64"
definition BPB :: nat where [simp]: "BPB = BSIZE * 8"
definition DIRSIZ :: nat where [simp]: "DIRSIZ = 14"
definition T_DIR :: u16 where [simp]: "T_DIR = 1"
definition T_FILE :: u16 where [simp]: "T_FILE = 2"
definition T_DEVICE :: u16 where [simp]: "T_DEVICE = 3"

record inode =
  i_dev :: u32
  i_inum :: u32
  i_ref :: i32
  i_valid :: i32
  i_type :: u16
  i_major :: u16
  i_minor :: u16
  i_nlink :: u16
  i_size :: u32
  i_addrs :: "nat \<Rightarrow> u32"

record stat =
  st_dev :: u32
  st_ino :: u32
  st_type :: u16
  st_nlink :: u16
  st_size :: u64

record fs_st = log_st +
  sb :: superblock
  itable :: "nat \<Rightarrow> inode"

definition IBLOCK :: "u32 \<Rightarrow> superblock \<Rightarrow> u32" where
  "IBLOCK i su = i div of_nat IPB + sb_inodestart su"

definition BBLOCK :: "u32 \<Rightarrow> superblock \<Rightarrow> u32" where
  "BBLOCK b su = b div of_nat BPB + sb_bmapstart su"

definition upd_ino :: "nat \<Rightarrow> (inode \<Rightarrow> inode) \<Rightarrow> ('z fs_st_scheme, unit) K" where
  "upd_ino ip f = modifyK (\<lambda>s. s\<lparr>itable := (itable s)(ip := f (itable s ip))\<rparr>)"

definition ino_get :: "nat \<Rightarrow> (inode \<Rightarrow> 'a) \<Rightarrow> ('z fs_st_scheme, 'a) K" where
  "ino_get ip f = getsK (\<lambda>s. f (itable s ip))"

definition upd_data :: "nat \<Rightarrow> (byte list \<Rightarrow> byte list) \<Rightarrow> ('z bio_st_scheme, unit) K" where
  "upd_data b f = upd_buf b (\<lambda>r. r\<lparr>b_data := f (b_data r)\<rparr>)"

section \<open>Super block and free map\<close>

definition sb_get :: "byte list \<Rightarrow> superblock" where
  "sb_get bs = \<lparr>sb_magic = get32 bs 0, sb_size = get32 bs 4, sb_nblocks = get32 bs 8,
     sb_ninodes = get32 bs 12, sb_nlog = get32 bs 16, sb_logstart = get32 bs 20,
     sb_inodestart = get32 bs 24, sb_bmapstart = get32 bs 28\<rparr>"

definition readsb :: "u32 \<Rightarrow> ('z fs_st_scheme, unit) K" where
  "readsb dev =
     bindK (bread dev 1) (\<lambda>bp.
     bindK (buf_get bp b_data) (\<lambda>data.
     thenK (modifyK (\<lambda>s. s\<lparr>sb := sb_get data\<rparr>))
       (brelse bp)))"

definition fsinit :: "u32 \<Rightarrow> ('z fs_st_scheme, unit) K" where
  "fsinit dev =
     thenK (readsb dev) (
     bindK (getsK sb) (\<lambda>sb.
     if sb_magic sb \<noteq> FSMAGIC then panic ''invalid file system''
     else initlog dev sb))"

definition bzero :: "u32 \<Rightarrow> u32 \<Rightarrow> ('z fs_st_scheme, unit) K" where
  "bzero dev bno =
     bindK (bread dev bno) (\<lambda>bp. seqK [
       upd_data bp (\<lambda>_. replicate BSIZE 0),
       log_write bp,
       brelse bp])"

definition bm_used :: "byte list \<Rightarrow> nat \<Rightarrow> bool" where
  "bm_used data bi \<longleftrightarrow> data ! (bi div 8) AND push_bit (bi mod 8) 1 \<noteq> 0"

definition bm_set :: "byte list \<Rightarrow> nat \<Rightarrow> byte list" where
  "bm_set data bi = data[bi div 8 := data ! (bi div 8) OR push_bit (bi mod 8) 1]"

definition bm_clear :: "byte list \<Rightarrow> nat \<Rightarrow> byte list" where
  "bm_clear data bi = data[bi div 8 := data ! (bi div 8) AND NOT (push_bit (bi mod 8) 1)]"

text \<open>The inner loop of \<^verbatim>\<open>balloc\<close>: the first clear bit of a block of the map.\<close>

definition bm_find :: "byte list \<Rightarrow> u32 \<Rightarrow> u32 \<Rightarrow> nat option" where
  "bm_find data b sz = List.find (\<lambda>bi. b + of_nat bi < sz \<and> \<not> bm_used data bi) [0..<BPB]"

definition balloc :: "u32 \<Rightarrow> ('z fs_st_scheme, u32) K" where
  "balloc dev = loopK (\<lambda>b.
     bindK (getsK sb) (\<lambda>sb.
     if \<not> b < sb_size sb then
       thenK (printf (''balloc: out of blocks'' @ [CHR 0x0A]) []) (returnK (Inr 0))
     else
       bindK (bread dev (BBLOCK b sb)) (\<lambda>bp.
       bindK (buf_get bp b_data) (\<lambda>data.
       case bm_find data b (sb_size sb) of
         Some bi \<Rightarrow>
           thenK (upd_data bp (\<lambda>data. bm_set data bi)) (
           thenK (log_write bp) (
           thenK (brelse bp) (
           thenK (bzero dev (b + of_nat bi))
             (returnK (Inr (b + of_nat bi))))))
       | None \<Rightarrow> thenK (brelse bp) (returnK (Inl (b + of_nat BPB))))))) 0"

definition bfree :: "u32 \<Rightarrow> u32 \<Rightarrow> ('z fs_st_scheme, unit) K" where
  "bfree dev b =
     bindK (getsK sb) (\<lambda>sb.
     bindK (bread dev (BBLOCK b sb)) (\<lambda>bp.
     bindK (buf_get bp b_data) (\<lambda>data.
     let bi = unat b mod BPB in
     if \<not> bm_used data bi then panic ''freeing free block'' else
     seqK [
       upd_data bp (\<lambda>data. bm_clear data bi),
       log_write bp,
       brelse bp])))"

section \<open>Inodes\<close>

text \<open>The fields of a \<^verbatim>\<open>struct dinode\<close> at a given offset of a block.\<close>

definition dinode_load :: "byte list \<Rightarrow> nat \<Rightarrow> inode \<Rightarrow> inode" where
  "dinode_load bs off ip = ip\<lparr>i_type := get16 bs off, i_major := get16 bs (off + 2),
     i_minor := get16 bs (off + 4), i_nlink := get16 bs (off + 6), i_size := get32 bs (off + 8),
     i_addrs := (\<lambda>i. if i \<le> NDIRECT then get32 bs (off + 12 + 4 * i) else i_addrs ip i)\<rparr>"

definition dinode_store :: "byte list \<Rightarrow> nat \<Rightarrow> inode \<Rightarrow> byte list" where
  "dinode_store bs off ip =
     fold (\<lambda>i bs. put32 bs (off + 12 + 4 * i) (i_addrs ip i)) [0..<Suc NDIRECT]
       (put32 (put16 (put16 (put16 (put16 bs off (i_type ip)) (off + 2) (i_major ip))
          (off + 4) (i_minor ip)) (off + 6) (i_nlink ip)) (off + 8) (i_size ip))"

definition dinode_off :: "u32 \<Rightarrow> nat" where
  "dinode_off inum = 64 * (unat inum mod IPB)"

definition iinit :: "('z fs_st_scheme, unit) K" where
  "iinit =
     thenK (initlock Itable_lock ''itable'')
       (foreachK [0..<NINODE] (\<lambda>i. initsleeplock (Inode_lock i) ''inode''))"

definition iget :: "u32 \<Rightarrow> u32 \<Rightarrow> ('z fs_st_scheme, nat) K" where
  "iget dev inum =
     thenK (acquire Itable_lock) (
     bindK (getsK itable) (\<lambda>tab.
     case List.find (\<lambda>i. sint (i_ref (tab i)) > 0 \<and> i_dev (tab i) = dev \<and> i_inum (tab i) = inum) [0..<NINODE] of
       Some ip \<Rightarrow>
         thenK (upd_ino ip (\<lambda>r. r\<lparr>i_ref := i_ref r + 1\<rparr>)) (
         thenK (release Itable_lock) (returnK ip))
     | None \<Rightarrow>
         (case List.find (\<lambda>i. i_ref (tab i) = 0) [0..<NINODE] of
            None \<Rightarrow> panic ''iget: no inodes''
          | Some ip \<Rightarrow>
              thenK (upd_ino ip (\<lambda>r. r\<lparr>i_dev := dev, i_inum := inum, i_ref := 1, i_valid := 0\<rparr>)) (
              thenK (release Itable_lock) (returnK ip)))))"

definition ialloc :: "u32 \<Rightarrow> u16 \<Rightarrow> ('z fs_st_scheme, nat option) K" where
  "ialloc dev type = loopK (\<lambda>inum.
     bindK (getsK sb) (\<lambda>sb.
     if \<not> inum < sb_ninodes sb then
       thenK (printf (''ialloc: no inodes'' @ [CHR 0x0A]) []) (returnK (Inr None))
     else
       bindK (bread dev (IBLOCK inum sb)) (\<lambda>bp.
       bindK (buf_get bp b_data) (\<lambda>data.
       if get16 data (dinode_off inum) = 0 then
         thenK (upd_data bp (\<lambda>data. put16 (put_bytes data (dinode_off inum) (replicate 64 0)) (dinode_off inum) type)) (
         thenK (log_write bp) (
         thenK (brelse bp) (
         bindK (iget dev inum) (\<lambda>ip. returnK (Inr (Some ip))))))
       else thenK (brelse bp) (returnK (Inl (inum + 1))))))) 1"

definition iupdate :: "nat \<Rightarrow> ('z fs_st_scheme, unit) K" where
  "iupdate ip =
     bindK (getsK sb) (\<lambda>sb.
     bindK (ino_get ip id) (\<lambda>i.
     bindK (bread (i_dev i) (IBLOCK (i_inum i) sb)) (\<lambda>bp. seqK [
       upd_data bp (\<lambda>data. dinode_store data (dinode_off (i_inum i)) i),
       log_write bp,
       brelse bp])))"

definition idup :: "nat \<Rightarrow> ('z fs_st_scheme, nat) K" where
  "idup ip =
     thenK (acquire Itable_lock) (
     thenK (upd_ino ip (\<lambda>r. r\<lparr>i_ref := i_ref r + 1\<rparr>)) (
     thenK (release Itable_lock) (returnK ip)))"

text \<open>\<^verbatim>\<open>ilock\<close> and \<^verbatim>\<open>iunlock\<close> check for a null pointer, which the caller may hold.\<close>

definition ilock :: "nat option \<Rightarrow> ('z fs_st_scheme, unit) K" where
  "ilock ipo = (case ipo of None \<Rightarrow> panic ''ilock'' | Some ip \<Rightarrow>
     bindK (ino_get ip i_ref) (\<lambda>ref.
     if sint ref < 1 then panic ''ilock'' else
     thenK (acquiresleep (Inode_lock ip)) (
     bindK (ino_get ip i_valid) (\<lambda>v.
     whenK (v = 0) (
       bindK (getsK sb) (\<lambda>sb.
       bindK (ino_get ip id) (\<lambda>i.
       bindK (bread (i_dev i) (IBLOCK (i_inum i) sb)) (\<lambda>bp.
       bindK (buf_get bp b_data) (\<lambda>data.
       thenK (upd_ino ip (dinode_load data (dinode_off (i_inum i)))) (
       thenK (brelse bp) (
       thenK (upd_ino ip (\<lambda>r. r\<lparr>i_valid := 1\<rparr>)) (
       bindK (ino_get ip i_type) (\<lambda>ty.
       if ty = 0 then panic ''ilock: no type'' else returnK ())))))))))))))"

definition iunlock :: "nat option \<Rightarrow> ('z fs_st_scheme, unit) K" where
  "iunlock ipo = (case ipo of None \<Rightarrow> panic ''iunlock'' | Some ip \<Rightarrow>
     bindK (holdingsleep (Inode_lock ip)) (\<lambda>h.
     bindK (ino_get ip i_ref) (\<lambda>ref.
     if \<not> h \<or> sint ref < 1 then panic ''iunlock'' else
     releasesleep (Inode_lock ip))))"

text \<open>The loop of \<^verbatim>\<open>itrunc\<close> over the direct blocks, and the one over the indirect block.\<close>

definition itrunc :: "nat \<Rightarrow> ('z fs_st_scheme, unit) K" where
  "itrunc ip =
     thenK (foreachK [0..<NDIRECT] (\<lambda>i.
       bindK (ino_get ip id) (\<lambda>r.
       whenK (i_addrs r i \<noteq> 0) (
         thenK (bfree (i_dev r) (i_addrs r i))
           (upd_ino ip (\<lambda>r. r\<lparr>i_addrs := (i_addrs r)(i := 0)\<rparr>)))))) (
     thenK (bindK (ino_get ip id) (\<lambda>r.
       whenK (i_addrs r NDIRECT \<noteq> 0) (
         bindK (bread (i_dev r) (i_addrs r NDIRECT)) (\<lambda>bp.
         thenK (foreachK [0..<NINDIRECT] (\<lambda>j.
           bindK (buf_get bp (\<lambda>b. get32 (b_data b) (4 * j))) (\<lambda>a.
           whenK (a \<noteq> 0) (bfree (i_dev r) a)))) (
         thenK (brelse bp) (
         thenK (bfree (i_dev r) (i_addrs r NDIRECT))
           (upd_ino ip (\<lambda>r. r\<lparr>i_addrs := (i_addrs r)(NDIRECT := 0)\<rparr>)))))))) (
     thenK (upd_ino ip (\<lambda>r. r\<lparr>i_size := 0\<rparr>))
       (iupdate ip)))"

definition iput :: "nat \<Rightarrow> ('z fs_st_scheme, unit) K" where
  "iput ip =
     thenK (acquire Itable_lock) (
     bindK (ino_get ip (\<lambda>r. i_ref r = 1 \<and> i_valid r \<noteq> 0 \<and> i_nlink r = 0)) (\<lambda>last'.
     thenK (whenK last' (seqK [
       acquiresleep (Inode_lock ip),
       release Itable_lock,
       itrunc ip,
       upd_ino ip (\<lambda>r. r\<lparr>i_type := 0\<rparr>),
       iupdate ip,
       upd_ino ip (\<lambda>r. r\<lparr>i_valid := 0\<rparr>),
       releasesleep (Inode_lock ip),
       acquire Itable_lock])) (
     thenK (upd_ino ip (\<lambda>r. r\<lparr>i_ref := i_ref r - 1\<rparr>))
       (release Itable_lock))))"

definition iunlockput :: "nat \<Rightarrow> ('z fs_st_scheme, unit) K" where
  "iunlockput ip = thenK (iunlock (Some ip)) (iput ip)"

section \<open>Inode content\<close>

definition bmap :: "nat \<Rightarrow> u32 \<Rightarrow> ('z fs_st_scheme, u32) K" where
  "bmap ip bn =
     bindK (ino_get ip id) (\<lambda>i.
     if unat bn < NDIRECT then
       (if i_addrs i (unat bn) = 0 then
          bindK (balloc (i_dev i)) (\<lambda>addr.
          if addr = 0 then returnK 0 else
          thenK (upd_ino ip (\<lambda>r. r\<lparr>i_addrs := (i_addrs r)(unat bn := addr)\<rparr>)) (returnK addr))
        else returnK (i_addrs i (unat bn)))
     else
       let bn = unat (bn - of_nat NDIRECT) in
       if bn < NINDIRECT then
         bindK (if i_addrs i NDIRECT = 0 then
                  bindK (balloc (i_dev i)) (\<lambda>addr.
                  if addr = 0 then returnK 0 else
                  thenK (upd_ino ip (\<lambda>r. r\<lparr>i_addrs := (i_addrs r)(NDIRECT := addr)\<rparr>)) (returnK addr))
                else returnK (i_addrs i NDIRECT)) (\<lambda>iaddr.
         if iaddr = 0 then returnK 0 else
         bindK (bread (i_dev i) iaddr) (\<lambda>bp.
         bindK (buf_get bp (\<lambda>b. get32 (b_data b) (4 * bn))) (\<lambda>addr.
         bindK (if addr = 0 then
                  bindK (balloc (i_dev i)) (\<lambda>addr.
                  thenK (whenK (addr \<noteq> 0) (
                    thenK (upd_data bp (\<lambda>data. put32 data (4 * bn) addr))
                      (log_write bp)))
                    (returnK addr))
                else returnK addr) (\<lambda>addr.
         thenK (brelse bp) (returnK addr)))))
       else panic ''bmap: out of range'')"

definition stati :: "nat \<Rightarrow> ('z fs_st_scheme, stat) K" where
  "stati ip = ino_get ip (\<lambda>i. \<lparr>st_dev = i_dev i, st_ino = i_inum i, st_type = i_type i,
     st_nlink = i_nlink i, st_size = ucast (i_size i)\<rparr>)"

definition io_chunk :: "u32 \<Rightarrow> u32 \<Rightarrow> u32" where
  "io_chunk left off = (let r = of_nat BSIZE - off mod of_nat BSIZE in if left < r then left else r)"

text \<open>The loop variables of \<^verbatim>\<open>readi\<close>: \<^verbatim>\<open>tot\<close>, \<^verbatim>\<open>off\<close> and \<^verbatim>\<open>dst\<close>.\<close>

definition readi_body :: "nat \<Rightarrow> u32 \<Rightarrow> u32 \<times> u32 \<times> eptr \<Rightarrow> ('z fs_st_scheme, (u32 \<times> u32 \<times> eptr) + (u32 \<times> eptr)) K" where
  "readi_body ip n = (\<lambda>(tot, off, dst).
     if \<not> tot < n then returnK (Inr (tot, dst)) else
     bindK (bmap ip (off div of_nat BSIZE)) (\<lambda>addr.
     if addr = 0 then returnK (Inr (tot, dst)) else
     bindK (ino_get ip i_dev) (\<lambda>dev.
     bindK (bread dev addr) (\<lambda>bp.
     bindK (buf_get bp b_data) (\<lambda>data.
     let m = io_chunk (n - tot) off in
     bindK (either_copyout dst (Kobj (drop (unat off mod BSIZE) data)) (ucast m)) (\<lambda>(r, dst').
     thenK (brelse bp)
       (returnK (if r = -1 then Inr (-1, dst) else Inl (tot + m, off + m, dst')))))))))"

definition readi :: "nat \<Rightarrow> eptr \<Rightarrow> u32 \<Rightarrow> u32 \<Rightarrow> ('z fs_st_scheme, u32 \<times> eptr) K" where
  "readi ip dst off n =
     bindK (ino_get ip i_size) (\<lambda>size.
     if off > size \<or> off + n < off then returnK (0, dst) else
     let n = (if off + n > size then size - off else n) in
     loopK (readi_body ip n) (0, off, dst))"

definition eptr_add :: "eptr \<Rightarrow> u32 \<Rightarrow> eptr" where
  "eptr_add p n = (case p of
     Uaddr a \<Rightarrow> Uaddr (a + ucast n) | Kaddr k \<Rightarrow> Kaddr (src_advance k (ucast n)))"

text \<open>
  A failed \<^verbatim>\<open>either_copyin\<close> leaves the bytes it has copied in the buffer, which is then not logged.
\<close>

definition writei_body :: "nat \<Rightarrow> u32 \<Rightarrow> u32 \<times> u32 \<times> eptr \<Rightarrow> ('z fs_st_scheme, (u32 \<times> u32 \<times> eptr) + (u32 \<times> u32)) K" where
  "writei_body ip n = (\<lambda>(tot, off, src).
     if \<not> tot < n then returnK (Inr (tot, off)) else
     bindK (bmap ip (off div of_nat BSIZE)) (\<lambda>addr.
     if addr = 0 then returnK (Inr (tot, off)) else
     bindK (ino_get ip i_dev) (\<lambda>dev.
     bindK (bread dev addr) (\<lambda>bp.
     let m = io_chunk (n - tot) off in
     bindK (either_copyin (Kobj []) src (ucast m)) (\<lambda>(r, dst).
     thenK (upd_data bp (\<lambda>data. put_bytes data (unat off mod BSIZE) (case dst of Kobj bs \<Rightarrow> bs | Kmem a \<Rightarrow> []))) (
     if r = -1 then thenK (brelse bp) (returnK (Inr (tot, off))) else
     thenK (log_write bp) (
     thenK (brelse bp)
       (returnK (Inl (tot + m, off + m, eptr_add src m))))))))))"

definition writei :: "nat \<Rightarrow> eptr \<Rightarrow> u32 \<Rightarrow> u32 \<Rightarrow> ('z fs_st_scheme, u32) K" where
  "writei ip src off n =
     bindK (ino_get ip i_size) (\<lambda>size.
     if off > size \<or> off + n < off then returnK (-1)
     else if unat (off + n) > MAXFILE * BSIZE then returnK (-1) else
     bindK (loopK (writei_body ip n) (0, off, src)) (\<lambda>(tot, off).
     thenK (upd_ino ip (\<lambda>r. if off > i_size r then r\<lparr>i_size := off\<rparr> else r)) (
     thenK (iupdate ip) (returnK tot))))"

section \<open>Directories\<close>

text \<open>\<^verbatim>\<open>strncmp\<close> on strings given as lists; what is behind the list is the terminating zero.\<close>

definition at0 :: "byte list \<Rightarrow> byte" where
  "at0 bs = (case bs of [] \<Rightarrow> 0 | b # _ \<Rightarrow> b)"

primrec strncmp_obj :: "nat \<Rightarrow> byte list \<Rightarrow> byte list \<Rightarrow> i32" where
  "strncmp_obj 0 p q = 0"
| "strncmp_obj (Suc n) p q =
     (if at0 p \<noteq> 0 \<and> at0 p = at0 q then strncmp_obj n (tl p) (tl q)
      else ucast (at0 p) - ucast (at0 q))"

definition namecmp :: "byte list \<Rightarrow> byte list \<Rightarrow> i32" where
  "namecmp s t = strncmp_obj DIRSIZ s t"

text \<open>A \<^verbatim>\<open>struct dirent\<close>: 16 bytes, an inode number and a name.\<close>

definition de_inum :: "byte list \<Rightarrow> u16" where
  "de_inum de = get16 de 0"

definition de_name :: "byte list \<Rightarrow> byte list" where
  "de_name de = take DIRSIZ (drop 2 de)"

definition dirent :: "u16 \<Rightarrow> byte list \<Rightarrow> byte list" where
  "dirent inum name = bytes_of 2 inum @ take DIRSIZ (takeWhile (\<lambda>b. b \<noteq> 0) name @ replicate DIRSIZ 0)"

definition obj_bytes :: "eptr \<Rightarrow> byte list" where
  "obj_bytes p = (case p of Kaddr (Kobj bs) \<Rightarrow> bs | _ \<Rightarrow> [])"

definition dirlookup :: "nat \<Rightarrow> byte list \<Rightarrow> ('z fs_st_scheme, (nat \<times> u32) option) K" where
  "dirlookup dp name =
     bindK (ino_get dp i_type) (\<lambda>ty.
     if ty \<noteq> T_DIR then panic ''dirlookup not DIR'' else
     loopK (\<lambda>off.
       bindK (ino_get dp id) (\<lambda>d.
       if \<not> off < i_size d then returnK (Inr None) else
       bindK (readi dp (Kaddr (Kobj [])) off 16) (\<lambda>(r, de).
       if r \<noteq> 16 then panic ''dirlookup read''
       else if de_inum (obj_bytes de) = 0 then returnK (Inl (off + 16))
       else if namecmp name (de_name (obj_bytes de)) = 0 then
         bindK (iget (i_dev d) (ucast (de_inum (obj_bytes de)))) (\<lambda>ip. returnK (Inr (Some (ip, off))))
       else returnK (Inl (off + 16))))) 0)"

definition dirlink :: "nat \<Rightarrow> byte list \<Rightarrow> u32 \<Rightarrow> ('z fs_st_scheme, i32) K" where
  "dirlink dp name inum =
     bindK (dirlookup dp name) (\<lambda>found.
     case found of
       Some (ip, _) \<Rightarrow> thenK (iput ip) (returnK (-1))
     | None \<Rightarrow>
         bindK (loopK (\<lambda>off.
           bindK (ino_get dp i_size) (\<lambda>size.
           if \<not> off < size then returnK (Inr off) else
           bindK (readi dp (Kaddr (Kobj [])) off 16) (\<lambda>(r, de).
           if r \<noteq> 16 then panic ''dirlink read''
           else if de_inum (obj_bytes de) = 0 then returnK (Inr off)
           else returnK (Inl (off + 16))))) 0) (\<lambda>off.
         bindK (writei dp (Kaddr (Kobj (dirent (ucast inum) name))) off 16) (\<lambda>w.
         returnK (if w \<noteq> 16 then -1 else 0))))"

section \<open>Paths\<close>

definition SLASH :: byte where [simp]: "SLASH = 0x2F"

text \<open>The next path element and the rest of the path, or \<open>None\<close> if there is no element left.\<close>

definition skipelem :: "byte list \<Rightarrow> (byte list \<times> byte list) option" where
  "skipelem path =
     (let path = dropWhile (\<lambda>b. b = SLASH) path in
      if at0 path = 0 then None else
      let s = takeWhile (\<lambda>b. b \<noteq> SLASH \<and> b \<noteq> 0) path;
          rest = dropWhile (\<lambda>b. b \<noteq> SLASH \<and> b \<noteq> 0) path
      in Some (take DIRSIZ s, dropWhile (\<lambda>b. b = SLASH) rest))"

definition namex_body :: "bool \<Rightarrow> nat \<times> byte list \<times> byte list \<Rightarrow>
  ('z fs_st_scheme, (nat \<times> byte list \<times> byte list) + (nat \<times> byte list) option) K" where
  "namex_body parent = (\<lambda>(ip, path, name).
     case skipelem path of
       None \<Rightarrow>
         if parent then thenK (iput ip) (returnK (Inr None)) else returnK (Inr (Some (ip, name)))
     | Some (name, path) \<Rightarrow>
         thenK (ilock (Some ip)) (
         bindK (ino_get ip i_type) (\<lambda>ty.
         if ty \<noteq> T_DIR then thenK (iunlockput ip) (returnK (Inr None))
         else if parent \<and> at0 path = 0 then thenK (iunlock (Some ip)) (returnK (Inr (Some (ip, name))))
         else bindK (dirlookup ip name) (\<lambda>found.
           case found of
             None \<Rightarrow> thenK (iunlockput ip) (returnK (Inr None))
           | Some (next', _) \<Rightarrow> thenK (iunlockput ip) (returnK (Inl (next', path, name)))))))"

text \<open>The result is the inode and the last path element copied to \<^verbatim>\<open>name\<close>.\<close>

definition namex :: "byte list \<Rightarrow> bool \<Rightarrow> ('z fs_st_scheme, (nat \<times> byte list) option) K" where
  "namex path parent =
     bindK (if at0 path = SLASH then iget ROOTDEV ROOTINO
            else bindK curproc (\<lambda>p. bindK (proc_get p p_cwd) (\<lambda>cwd.
              deref cwd idup))) (\<lambda>ip.
     loopK (namex_body parent) (ip, path, []))"

definition namei :: "byte list \<Rightarrow> ('z fs_st_scheme, nat option) K" where
  "namei path = bindK (namex path False) (\<lambda>r. returnK (map_option fst r))"

definition nameiparent :: "byte list \<Rightarrow> ('z fs_st_scheme, (nat \<times> byte list) option) K" where
  "nameiparent path = namex path True"

end
