(* ===== verification/File.thy ===== *)
theory File
  imports Fs Console
begin

text \<open>
  \<^verbatim>\<open>kernel/file.c\<close> and \<^verbatim>\<open>kernel/file.h\<close>: the table of open files, with \<^verbatim>\<open>pipealloc\<close> of
  \<^verbatim>\<open>kernel/pipe.c\<close> and \<^verbatim>\<open>consoleinit\<close> of \<^verbatim>\<open>kernel/console.c\<close>, which fill in entries of the
  file table and of the device switch. A \<^verbatim>\<open>struct file *\<close> is an index of the file table. The
  device switch holds names of the two console functions instead of function pointers.
\<close>

datatype filetype = FD_NONE | FD_PIPE | FD_INODE | FD_DEVICE

record kfile =
  f_type :: filetype
  f_ref :: i32
  f_readable :: bool
  f_writable :: bool
  f_pipe :: addr
  f_ip :: "nat option"
  f_off :: u32
  f_major :: u16

datatype devread = Consoleread
datatype devwrite = Consolewrite

record file_st = fs_st +
  ftable :: "nat \<Rightarrow> kfile"
  devsw_read :: "nat \<Rightarrow> devread option"
  devsw_write :: "nat \<Rightarrow> devwrite option"

definition CONSOLE :: nat where [simp]: "CONSOLE = 1"

definition upd_file :: "nat \<Rightarrow> (kfile \<Rightarrow> kfile) \<Rightarrow> ('z file_st_scheme, unit) K" where
  "upd_file f g = modifyK (\<lambda>s. s\<lparr>ftable := (ftable s)(f := g (ftable s f))\<rparr>)"

definition file_get :: "nat \<Rightarrow> (kfile \<Rightarrow> 'a) \<Rightarrow> ('z file_st_scheme, 'a) K" where
  "file_get f g = getsK (\<lambda>s. g (ftable s f))"

definition consoleinit :: "('z file_st_scheme, unit) K" where
  "consoleinit = seqK [
     initlock Cons_lock ''cons'',
     uartinit,
     modifyK (\<lambda>s. s\<lparr>devsw_read := (devsw_read s)(CONSOLE := Some Consoleread)\<rparr>),
     modifyK (\<lambda>s. s\<lparr>devsw_write := (devsw_write s)(CONSOLE := Some Consolewrite)\<rparr>)]"

definition fileinit :: "('z file_st_scheme, unit) K" where
  "fileinit = initlock Ftable_lock ''ftable''"

definition filealloc :: "('z file_st_scheme, nat option) K" where
  "filealloc =
     thenK (acquire Ftable_lock) (
     bindK (getsK (\<lambda>s. List.find (\<lambda>f. f_ref (ftable s f) = 0) [0..<NFILE])) (\<lambda>found.
     case found of
       Some f \<Rightarrow>
         thenK (upd_file f (\<lambda>r. r\<lparr>f_ref := 1\<rparr>)) (
         thenK (release Ftable_lock) (returnK (Some f)))
     | None \<Rightarrow> thenK (release Ftable_lock) (returnK None)))"

definition filedup :: "nat \<Rightarrow> ('z file_st_scheme, nat) K" where
  "filedup f =
     thenK (acquire Ftable_lock) (
     bindK (file_get f f_ref) (\<lambda>ref.
     if sint ref < 1 then panic ''filedup'' else
     thenK (upd_file f (\<lambda>r. r\<lparr>f_ref := f_ref r + 1\<rparr>)) (
     thenK (release Ftable_lock) (returnK f))))"

definition fileclose :: "nat \<Rightarrow> ('z file_st_scheme, unit) K" where
  "fileclose f =
     thenK (acquire Ftable_lock) (
     bindK (file_get f f_ref) (\<lambda>ref.
     if sint ref < 1 then panic ''fileclose'' else
     thenK (upd_file f (\<lambda>r. r\<lparr>f_ref := f_ref r - 1\<rparr>)) (
     bindK (file_get f id) (\<lambda>ff.
     if sint (f_ref ff) > 0 then release Ftable_lock else
     thenK (upd_file f (\<lambda>r. r\<lparr>f_ref := 0, f_type := FD_NONE\<rparr>)) (
     thenK (release Ftable_lock) (
     if f_type ff = FD_PIPE then pipeclose (f_pipe ff) (f_writable ff)
     else if f_type ff = FD_INODE \<or> f_type ff = FD_DEVICE then
       seqK [begin_op, deref (f_ip ff) iput, end_op]
     else returnK ()))))))"

text \<open>
  The bytes of a \<^verbatim>\<open>struct stat\<close>: the compiler leaves a gap of four bytes before the size, which
  holds whatever was on the stack.
\<close>

definition stat_bytes :: "(nat \<Rightarrow> byte) \<Rightarrow> stat \<Rightarrow> byte list" where
  "stat_bytes junk st = bytes_of 4 (st_dev st) @ bytes_of 4 (st_ino st) @ bytes_of 2 (st_type st) @
     bytes_of 2 (st_nlink st) @ map junk [12..<16] @ bytes_of 8 (st_size st)"

definition filestat :: "nat \<Rightarrow> u64 \<Rightarrow> ('z file_st_scheme, i32) K" where
  "filestat f addr =
     bindK curproc (\<lambda>p.
     bindK (file_get f id) (\<lambda>ff.
     if f_type ff = FD_INODE \<or> f_type ff = FD_DEVICE then
       thenK (ilock (f_ip ff)) (
       bindK (deref (f_ip ff) stati) (\<lambda>st.
       thenK (iunlock (f_ip ff)) (
       bindK (proc_get p p_pagetable) (\<lambda>pt.
       bindK (askK stack_junk) (\<lambda>junk.
       bindK (copyout pt addr (Kobj (stat_bytes junk st)) 24) (\<lambda>r.
       returnK (if sint r < 0 then -1 else 0)))))))
     else returnK (-1)))"

definition fileread :: "nat \<Rightarrow> u64 \<Rightarrow> i32 \<Rightarrow> ('z file_st_scheme, i32) K" where
  "fileread f addr n =
     bindK (file_get f id) (\<lambda>ff.
     if \<not> f_readable ff then returnK (-1) else
     case f_type ff of
       FD_PIPE \<Rightarrow> piperead (f_pipe ff) addr n
     | FD_DEVICE \<Rightarrow>
         if sint (f_major ff) < 0 \<or> sint (f_major ff) \<ge> int NDEV then returnK (-1) else
         bindK (getsK (\<lambda>s. devsw_read s (unat (f_major ff)))) (\<lambda>fn.
         case fn of None \<Rightarrow> returnK (-1)
         | Some Consoleread \<Rightarrow> bindK (consoleread (Uaddr addr) n) (\<lambda>(r, _). returnK r))
     | FD_INODE \<Rightarrow>
         thenK (ilock (f_ip ff)) (
         bindK (file_get f f_off) (\<lambda>off.
         bindK (deref (f_ip ff) (\<lambda>ip. readi ip (Uaddr addr) off n)) (\<lambda>(r, _).
         thenK (whenK (sint r > 0) (upd_file f (\<lambda>q. q\<lparr>f_off := f_off q + r\<rparr>))) (
         thenK (iunlock (f_ip ff)) (returnK r)))))
     | FD_NONE \<Rightarrow> panic ''fileread'')"

text \<open>What \<^verbatim>\<open>filewrite\<close> writes at most in one transaction.\<close>

definition write_max :: i32 where
  "write_max = of_nat (((MAXOPBLOCKS - 1 - 1 - 2) div 2) * BSIZE)"

definition filewrite_body :: "nat \<Rightarrow> u64 \<Rightarrow> i32 \<Rightarrow> i32 \<Rightarrow> ('z file_st_scheme, i32 + i32) K" where
  "filewrite_body f addr n i =
     (if \<not> sint i < sint n then returnK (Inr i) else
      let n1 = (if sint (n - i) > sint write_max then write_max else n - i) in
      thenK begin_op (
      bindK (file_get f f_ip) (\<lambda>ip.
      thenK (ilock ip) (
      bindK (file_get f f_off) (\<lambda>off.
      bindK (deref ip (\<lambda>ip. writei ip (Uaddr (addr + scast i)) off n1)) (\<lambda>r.
      thenK (whenK (sint r > 0) (upd_file f (\<lambda>q. q\<lparr>f_off := f_off q + r\<rparr>))) (
      thenK (iunlock ip) (
      thenK end_op (
      returnK (if r \<noteq> n1 then Inr i else Inl (i + r)))))))))))"

definition filewrite :: "nat \<Rightarrow> u64 \<Rightarrow> i32 \<Rightarrow> ('z file_st_scheme, i32) K" where
  "filewrite f addr n =
     bindK (file_get f id) (\<lambda>ff.
     if \<not> f_writable ff then returnK (-1) else
     case f_type ff of
       FD_PIPE \<Rightarrow> pipewrite (f_pipe ff) addr n
     | FD_DEVICE \<Rightarrow>
         if sint (f_major ff) < 0 \<or> sint (f_major ff) \<ge> int NDEV then returnK (-1) else
         bindK (getsK (\<lambda>s. devsw_write s (unat (f_major ff)))) (\<lambda>fn.
         case fn of None \<Rightarrow> returnK (-1) | Some Consolewrite \<Rightarrow> consolewrite (Uaddr addr) n)
     | FD_INODE \<Rightarrow>
         bindK (loopK (filewrite_body f addr n) 0) (\<lambda>i. returnK (if i = n then n else -1))
     | FD_NONE \<Rightarrow> panic ''filewrite'')"

section \<open>Pipes as files\<close>

definition fresh_pipe :: pipe where
  "fresh_pipe = \<lparr>pi_data = (\<lambda>_. 5), nread = 0, nwrite = 0, readopen = 1, writeopen = 1\<rparr>"

definition close_opt :: "nat option \<Rightarrow> ('z file_st_scheme, unit) K" where
  "close_opt f = (case f of None \<Rightarrow> returnK () | Some f \<Rightarrow> fileclose f)"

definition pipealloc :: "('z file_st_scheme, (nat \<times> nat) option) K" where
  "pipealloc =
     (let bad = (\<lambda>f0 f1. thenK (close_opt f0) (thenK (close_opt f1) (returnK None))) in
      bindK filealloc (\<lambda>f0. case f0 of None \<Rightarrow> bad None None | Some rf \<Rightarrow>
      bindK filealloc (\<lambda>f1. case f1 of None \<Rightarrow> bad f0 None | Some wf1 \<Rightarrow>
      bindK kalloc (\<lambda>pi. if pi = 0 then bad f0 f1 else
      thenK (modifyK (\<lambda>s. s\<lparr>pipes := (pipes s)(pi := fresh_pipe)\<rparr>)) (
      thenK (initlock (Pipe_lock pi) ''pipe'') (
      thenK (upd_file rf (\<lambda>r. r\<lparr>f_type := FD_PIPE, f_readable := True, f_writable := False, f_pipe := pi\<rparr>)) (
      thenK (upd_file wf1 (\<lambda>r. r\<lparr>f_type := FD_PIPE, f_readable := False, f_writable := True, f_pipe := pi\<rparr>)) (
      returnK (Some (rf, wf1))))))))))"

end
