(* ===== verification/Process.thy ===== *)
theory Process
  imports File
begin

text \<open>
  The part of \<^verbatim>\<open>kernel/proc.c\<close> that needs the file system, \<^verbatim>\<open>userinit\<close>, \<^verbatim>\<open>fork\<close> and
  \<^verbatim>\<open>exit\<close>, and \<^verbatim>\<open>kernel/exec.c\<close>.
\<close>

text \<open>\<^verbatim>\<open>safestrcpy\<close> into an array of \<open>n\<close> bytes with content \<open>old\<close>, from a string given as a list.\<close>

definition safestr_obj :: "nat \<Rightarrow> byte list \<Rightarrow> byte list \<Rightarrow> byte list" where
  "safestr_obj n old t =
     (let cs = takeWhile (\<lambda>b. b \<noteq> 0) (take (n - 1) t)
      in put_bytes old 0 (if length cs < n - 1 then cs @ [0, 0] else cs @ [0]))"

definition initcode :: "byte list" where
  "initcode = [
     0x17, 0x05, 0x00, 0x00, 0x13, 0x05, 0x45, 0x02,
     0x97, 0x05, 0x00, 0x00, 0x93, 0x85, 0x35, 0x02,
     0x93, 0x08, 0x70, 0x00, 0x73, 0x00, 0x00, 0x00,
     0x93, 0x08, 0x20, 0x00, 0x73, 0x00, 0x00, 0x00,
     0xef, 0xf0, 0x9f, 0xff, 0x2f, 0x69, 0x6e, 0x69,
     0x74, 0x00, 0x00, 0x24, 0x00, 0x00, 0x00, 0x00,
     0x00, 0x00, 0x00, 0x00]"

definition userinit :: "('z file_st_scheme, unit) K" where
  "userinit =
     bindK allocproc (\<lambda>po.
     thenK (modifyK (\<lambda>s. s\<lparr>initproc := po\<rparr>)) (
     deref po (\<lambda>p.
     bindK (proc_get p p_pagetable) (\<lambda>pt.
     thenK (uvmfirst pt (Kobj initcode) (of_nat (length initcode))) (
     thenK (upd_proc p (\<lambda>r. r\<lparr>p_sz := PGSIZE\<rparr>)) (
     thenK (upd_tf p (\<lambda>t. set_reg SP PGSIZE (t\<lparr>epc := 0\<rparr>))) (
     thenK (upd_proc p (\<lambda>r. r\<lparr>p_name := safestr_obj 16 (p_name r) (str ''initcode'')\<rparr>)) (
     bindK (namei [SLASH]) (\<lambda>cwd.
     thenK (upd_proc p (\<lambda>r. r\<lparr>p_cwd := cwd, p_state := RUNNABLE\<rparr>))
       (release (Proc_lock p)))))))))))"

definition fork :: "('z file_st_scheme, i32) K" where
  "fork =
     bindK curproc (\<lambda>p.
     bindK allocproc (\<lambda>npo.
     case npo of None \<Rightarrow> returnK (-1) | Some np \<Rightarrow>
     bindK (proc_get p id) (\<lambda>rp.
     bindK (proc_get np p_pagetable) (\<lambda>npt.
     bindK (uvmcopy (p_pagetable rp) npt (p_sz rp)) (\<lambda>r.
     if sint r < 0 then
       thenK (freeproc np) (thenK (release (Proc_lock np)) (returnK (-1)))
     else
       thenK (upd_proc np (\<lambda>r. r\<lparr>p_sz := p_sz rp\<rparr>)) (
       bindK (tf_get p id) (\<lambda>t.
       thenK (upd_tf np (\<lambda>_. t)) (
       thenK (upd_tf np (set_reg A0 0)) (
       thenK (foreachK [0..<NOFILE] (\<lambda>i.
         bindK (proc_get p (\<lambda>r. p_ofile r i)) (\<lambda>fo.
         case fo of None \<Rightarrow> returnK () | Some f \<Rightarrow>
           bindK (filedup f) (\<lambda>f'. upd_proc np (\<lambda>r. r\<lparr>p_ofile := (p_ofile r)(i := Some f')\<rparr>))))) (
       bindK (proc_get p p_cwd) (\<lambda>cwd.
       bindK (deref cwd idup) (\<lambda>c.
       thenK (upd_proc np (\<lambda>r. r\<lparr>p_cwd := Some c\<rparr>)) (
       thenK (upd_proc np (\<lambda>r. r\<lparr>p_name := safestr_obj 16 (p_name r) (p_name rp)\<rparr>)) (
       bindK (proc_get np p_pid) (\<lambda>pid. thenK (seqK [
         release (Proc_lock np),
         acquire Wait_lock,
         upd_proc np (\<lambda>r. r\<lparr>p_parent := Some p\<rparr>),
         release Wait_lock,
         acquire (Proc_lock np),
         upd_proc np (\<lambda>r. r\<lparr>p_state := RUNNABLE\<rparr>),
         release (Proc_lock np)])
         (returnK pid))))))))))))))))"

text \<open>The loop of \<^verbatim>\<open>exit\<close> that closes the open files.\<close>

definition close_files :: "nat \<Rightarrow> ('z file_st_scheme, unit) K" where
  "close_files p = foreachK [0..<NOFILE] (\<lambda>fd.
     bindK (proc_get p (\<lambda>r. p_ofile r fd)) (\<lambda>fo.
     case fo of None \<Rightarrow> returnK () | Some f \<Rightarrow>
       thenK (fileclose f) (upd_proc p (\<lambda>r. r\<lparr>p_ofile := (p_ofile r)(fd := None)\<rparr>))))"

definition exit :: "i32 \<Rightarrow> ('z file_st_scheme, 'a) K" where
  "exit status =
     bindK curproc (\<lambda>p.
     bindK (getsK initproc) (\<lambda>init.
     if Some p = init then panic ''init exiting'' else
     thenK (close_files p) (
     thenK begin_op (
     bindK (proc_get p p_cwd) (\<lambda>cwd.
     thenK (deref cwd iput) (
     thenK end_op (
     thenK (upd_proc p (\<lambda>r. r\<lparr>p_cwd := None\<rparr>)) (
     thenK (acquire Wait_lock) (
     thenK (reparent p) (
     bindK (proc_get p p_parent) (\<lambda>par.
     thenK (wakeup (case par of None \<Rightarrow> C_null | Some q \<Rightarrow> C_proc q)) (
     thenK (acquire (Proc_lock p)) (
     thenK (upd_proc p (\<lambda>r. r\<lparr>p_xstate := status, p_state := ZOMBIE\<rparr>)) (
     thenK (release Wait_lock) (
     thenK sched (panic ''zombie exit''))))))))))))))))"

section \<open>exec\<close>

definition ELF_MAGIC :: u32 where [simp]: "ELF_MAGIC = 0x464C457F"
definition ELF_PROG_LOAD :: u32 where [simp]: "ELF_PROG_LOAD = 1"

record elfhdr =
  elf_magic :: u32
  elf_entry :: u64
  elf_phoff :: u64
  elf_phnum :: u16

record proghdr =
  ph_type :: u32
  ph_flags :: u32
  ph_off :: u64
  ph_vaddr :: u64
  ph_filesz :: u64
  ph_memsz :: u64

definition elf_get :: "byte list \<Rightarrow> elfhdr" where
  "elf_get bs = \<lparr>elf_magic = get32 bs 0, elf_entry = get64 bs 24, elf_phoff = get64 bs 32,
     elf_phnum = get16 bs 56\<rparr>"

definition ph_get :: "byte list \<Rightarrow> proghdr" where
  "ph_get bs = \<lparr>ph_type = get32 bs 0, ph_flags = get32 bs 4, ph_off = get64 bs 8,
     ph_vaddr = get64 bs 16, ph_filesz = get64 bs 32, ph_memsz = get64 bs 40\<rparr>"

definition flags2perm :: "u32 \<Rightarrow> u64" where
  "flags2perm flags =
     (let perm = (if flags AND 1 \<noteq> 0 then PTE_X else 0)
      in if flags AND 2 \<noteq> 0 then perm OR PTE_W else perm)"

definition loadseg_body :: "pagetable \<Rightarrow> u64 \<Rightarrow> nat \<Rightarrow> u32 \<Rightarrow> u32 \<Rightarrow> u32 \<Rightarrow> ('z fs_st_scheme, u32 + i32) K" where
  "loadseg_body pagetable va ip offset sz i =
     (if \<not> i < sz then returnK (Inr 0) else
      bindK (walkaddr pagetable (va + ucast i)) (\<lambda>pa.
      if pa = 0 then panic ''loadseg: address should exist'' else
      let n = (if sz - i < ucast PGSIZE then sz - i else ucast PGSIZE) in
      bindK (readi ip (Kaddr (Kmem pa)) (offset + i) n) (\<lambda>(r, _).
      returnK (if r \<noteq> n then Inr (-1) else Inl (i + ucast PGSIZE)))))"

definition loadseg :: "pagetable \<Rightarrow> u64 \<Rightarrow> nat \<Rightarrow> u32 \<Rightarrow> u32 \<Rightarrow> ('z fs_st_scheme, i32) K" where
  "loadseg pagetable va ip offset sz = loopK (loadseg_body pagetable va ip offset sz) 0"

text \<open>
  The loop over the program headers, with \<^verbatim>\<open>i\<close>, \<^verbatim>\<open>off\<close> and \<^verbatim>\<open>sz\<close>. The result tells whether all of
  them were loaded, and the size reached.
\<close>

definition exec_load :: "pagetable \<Rightarrow> nat \<Rightarrow> elfhdr \<Rightarrow> ('z fs_st_scheme, bool \<times> u64) K" where
  "exec_load pagetable ip elf = loopK (\<lambda>(i, off, sz).
     if \<not> i < unat (elf_phnum elf) then returnK (Inr (True, sz)) else
     bindK (readi ip (Kaddr (Kobj [])) off 56) (\<lambda>(r, bs).
     if r \<noteq> 56 then returnK (Inr (False, sz)) else
     let ph = ph_get (obj_bytes bs) in
     if ph_type ph \<noteq> ELF_PROG_LOAD then returnK (Inl (i + 1, off + 56, sz))
     else if ph_memsz ph < ph_filesz ph then returnK (Inr (False, sz))
     else if ph_vaddr ph + ph_memsz ph < ph_vaddr ph then returnK (Inr (False, sz))
     else if ph_vaddr ph mod PGSIZE \<noteq> 0 then returnK (Inr (False, sz)) else
     bindK (uvmalloc pagetable sz (ph_vaddr ph + ph_memsz ph) (flags2perm (ph_flags ph))) (\<lambda>sz1.
     if sz1 = 0 then returnK (Inr (False, sz)) else
     bindK (loadseg pagetable (ph_vaddr ph) ip (ucast (ph_off ph)) (ucast (ph_filesz ph))) (\<lambda>r.
     returnK (if sint r < 0 then Inr (False, sz1) else Inl (i + 1, off + 56, sz1))))))
     (0, ucast (elf_phoff elf), 0)"

text \<open>The length of a string in kernel memory.\<close>

definition kstrlen :: "addr \<Rightarrow> ('z kmem_st_scheme, nat) K" where
  "kstrlen a = bindK (getsK (\<lambda>s. strlen (mem s) a)) (\<lambda>n.
     case n of None \<Rightarrow> (\<lambda>e s. Diverge) | Some n \<Rightarrow> returnK n)"

text \<open>Rounding the stack pointer down to a multiple of 16.\<close>

definition align16 :: "u64 \<Rightarrow> u64" where
  "align16 sp = sp - sp mod 16"

text \<open>
  Pushing the argument strings: the loop state is the rest of \<^verbatim>\<open>argv\<close>, the stack pointer and
  the addresses in \<^verbatim>\<open>ustack\<close> so far.
\<close>

definition exec_args :: "pagetable \<Rightarrow> u64 \<Rightarrow> addr list \<Rightarrow> u64 \<Rightarrow> ('z kmem_st_scheme, (u64 \<times> u64 list) option) K" where
  "exec_args pagetable stackbase argv sp0 = loopK (\<lambda>(rest, sp, ustack).
     case rest of
       [] \<Rightarrow> returnK (Inr (Some (sp, ustack)))
     | a # rest' \<Rightarrow>
         if length ustack \<ge> MAXARG then returnK (Inr None) else
         bindK (kstrlen a) (\<lambda>n.
         let sp = align16 (sp - (of_nat n + 1)) in
         if sp < stackbase then returnK (Inr None) else
         bindK (copyout pagetable sp (Kmem a) (of_nat n + 1)) (\<lambda>r.
         returnK (if sint r < 0 then Inr None else Inl (rest', sp, ustack @ [sp]))))) (argv, sp0, [])"

definition last_elem :: "byte list \<Rightarrow> byte list" where
  "last_elem path = rev (takeWhile (\<lambda>b. b \<noteq> SLASH) (rev path))"

text \<open>Everything that follows the program headers; \<open>sz\<close> is the size of the image.\<close>

definition exec_stack :: "nat \<Rightarrow> byte list \<Rightarrow> addr list \<Rightarrow> elfhdr \<Rightarrow> pagetable \<Rightarrow> u64 \<Rightarrow> ('z file_st_scheme, i32) K" where
  "exec_stack p path argv elf pagetable sz0 =
     (let bad = (\<lambda>sz. thenK (proc_freepagetable pagetable sz) (returnK (-1))) in
      bindK (proc_get p p_sz) (\<lambda>oldsz.
      let sz = PGROUNDUP sz0 in
      bindK (uvmalloc pagetable sz (sz + 2 * PGSIZE) PTE_W) (\<lambda>sz1.
      if sz1 = 0 then bad sz else
      thenK (uvmclear pagetable (sz1 - 2 * PGSIZE)) (
      bindK (exec_args pagetable (sz1 - PGSIZE) argv sz1) (\<lambda>ao.
      case ao of None \<Rightarrow> bad sz1 | Some (sp, ustack) \<Rightarrow>
      let sp = align16 (sp - (of_nat (length ustack) + 1) * 8) in
      if sp < sz1 - PGSIZE then bad sz1 else
      bindK (copyout pagetable sp (Kobj (concat (map (bytes_of 8) (ustack @ [0]))))
        ((of_nat (length ustack) + 1) * 8)) (\<lambda>r.
      if sint r < 0 then bad sz1 else
      bindK (proc_get p id) (\<lambda>old.
      thenK (upd_tf p (set_reg A1 sp)) (
      thenK (upd_proc p (\<lambda>r. r\<lparr>p_name := safestr_obj 16 (p_name r) (last_elem path)\<rparr>)) (
      thenK (upd_proc p (\<lambda>r. r\<lparr>p_pagetable := pagetable, p_sz := sz1\<rparr>)) (
      thenK (upd_tf p (\<lambda>t. set_reg SP sp (t\<lparr>epc := elf_entry elf\<rparr>))) (
      thenK (proc_freepagetable (p_pagetable old) oldsz)
        (returnK (of_nat (length ustack))))))))))))))"

definition exec :: "byte list \<Rightarrow> addr list \<Rightarrow> ('z file_st_scheme, i32) K" where
  "exec path argv =
     bindK curproc (\<lambda>p.
     thenK begin_op (
     bindK (namei path) (\<lambda>ipo.
     case ipo of None \<Rightarrow> thenK end_op (returnK (-1)) | Some ip \<Rightarrow>
     let bad = (\<lambda>pagetable sz.
       thenK (whenK (pagetable \<noteq> 0) (proc_freepagetable pagetable sz)) (
       thenK (iunlockput ip) (thenK end_op (returnK (-1))))) in
     thenK (ilock ipo) (
     bindK (readi ip (Kaddr (Kobj [])) 0 64) (\<lambda>(r, bs).
     if r \<noteq> 64 then bad 0 0 else
     let elf = elf_get (obj_bytes bs) in
     if elf_magic elf \<noteq> ELF_MAGIC then bad 0 0 else
     bindK (proc_pagetable p) (\<lambda>pagetable.
     if pagetable = 0 then bad 0 0 else
     bindK (exec_load pagetable ip elf) (\<lambda>(ok, sz).
     if \<not> ok then bad pagetable sz else
     thenK (iunlockput ip) (
     thenK end_op (
     bindK curproc (\<lambda>p. exec_stack p path argv elf pagetable sz))))))))))"

end
