(* ===== verification/Syscall.thy ===== *)
theory Syscall
  imports Process
begin

text \<open>
  \<^verbatim>\<open>kernel/syscall.c\<close>, \<^verbatim>\<open>kernel/sysproc.c\<close> and \<^verbatim>\<open>kernel/sysfile.c\<close>: the arguments of a system
  call in the trapframe, the handlers and the dispatcher. Strings are copied to local buffers
  of the kernel and are lists of bytes here. A handler returns the 64 bits that go to \<open>a0\<close>.
\<close>

section \<open>Arguments\<close>

definition fetchaddr :: "u64 \<Rightarrow> ('z proc_st_scheme, u64 option) K" where
  "fetchaddr addr =
     bindK curproc (\<lambda>p.
     bindK (proc_get p p_sz) (\<lambda>sz.
     if addr \<ge> sz \<or> addr + 8 > sz then returnK None else
     bindK (proc_get p p_pagetable) (\<lambda>pt.
     bindK (copyin pt (Kobj []) addr 8) (\<lambda>(r, dst).
     returnK (if r \<noteq> 0 then None else case dst of Kobj bs \<Rightarrow> Some (get64 bs 0) | Kmem _ \<Rightarrow> None)))))"

definition fetchstr :: "u64 \<Rightarrow> kptr \<Rightarrow> i32 \<Rightarrow> ('z proc_st_scheme, i32 \<times> kptr) K" where
  "fetchstr addr buf mx =
     bindK curproc (\<lambda>p.
     bindK (proc_get p p_pagetable) (\<lambda>pt.
     bindK (copyinstr pt buf addr (scast mx)) (\<lambda>(r, dst).
     if sint r < 0 then returnK (-1, dst) else
     case dst of
       Kobj bs \<Rightarrow> returnK (of_nat (length (takeWhile (\<lambda>b. b \<noteq> 0) bs)), dst)
     | Kmem _ \<Rightarrow> (case buf of Kmem a \<Rightarrow> bindK (kstrlen a) (\<lambda>n. returnK (of_nat n, dst)) | Kobj _ \<Rightarrow> returnK (-1, dst)))))"

definition argraw :: "nat \<Rightarrow> ('z proc_st_scheme, u64) K" where
  "argraw n =
     bindK curproc (\<lambda>p.
     if n = 0 then tf_get p (\<lambda>t. regs t A0)
     else if n = 1 then tf_get p (\<lambda>t. regs t A1)
     else if n = 2 then tf_get p (\<lambda>t. regs t A2)
     else if n = 3 then tf_get p (\<lambda>t. regs t A3)
     else if n = 4 then tf_get p (\<lambda>t. regs t A4)
     else if n = 5 then tf_get p (\<lambda>t. regs t A5)
     else panic ''argraw'')"

definition argint :: "nat \<Rightarrow> ('z proc_st_scheme, i32) K" where
  "argint n = bindK (argraw n) (\<lambda>v. returnK (ucast v))"

definition argaddr :: "nat \<Rightarrow> ('z proc_st_scheme, u64) K" where
  "argaddr n = argraw n"

text \<open>The string that \<^verbatim>\<open>argstr\<close> leaves in the buffer, or \<open>None\<close> where it returns -1.\<close>

definition argstr :: "nat \<Rightarrow> nat \<Rightarrow> ('z proc_st_scheme, byte list option) K" where
  "argstr n mx =
     bindK (argaddr n) (\<lambda>addr.
     bindK (fetchstr addr (Kobj []) (of_nat mx)) (\<lambda>(r, dst).
     returnK (if sint r < 0 then None else
       case dst of Kobj bs \<Rightarrow> Some (takeWhile (\<lambda>b. b \<noteq> 0) bs) | Kmem _ \<Rightarrow> None)))"

section \<open>Processes\<close>

definition sys_exit :: "('z file_st_scheme, u64) K" where
  "sys_exit = bindK (argint 0) (\<lambda>n. thenK (exit n :: ('z file_st_scheme, unit) K) (returnK 0))"

definition sys_getpid :: "('z proc_st_scheme, u64) K" where
  "sys_getpid = bindK curproc (\<lambda>p. bindK (proc_get p p_pid) (\<lambda>pid. returnK (scast pid)))"

definition sys_memsize :: "('z proc_st_scheme, u64) K" where
  "sys_memsize = bindK curproc (\<lambda>p. proc_get p p_sz)"

definition sys_co_yield :: "('z proc_st_scheme, u64) K" where
  "sys_co_yield =
     bindK (argint 0) (\<lambda>pid.
     bindK (argint 1) (\<lambda>val.
     bindK (co_yield pid val) (\<lambda>r. returnK (scast r))))"

definition sys_fork :: "('z file_st_scheme, u64) K" where
  "sys_fork = bindK fork (\<lambda>r. returnK (scast r))"

definition sys_wait :: "('z proc_st_scheme, u64) K" where
  "sys_wait = bindK (argaddr 0) (\<lambda>p. bindK (wait p) (\<lambda>r. returnK (scast r)))"

definition sys_sbrk :: "('z proc_st_scheme, u64) K" where
  "sys_sbrk =
     bindK (argint 0) (\<lambda>n.
     bindK curproc (\<lambda>p.
     bindK (proc_get p p_sz) (\<lambda>addr.
     bindK (growproc n) (\<lambda>r.
     returnK (if sint r < 0 then -1 else addr)))))"

definition sys_sleep :: "('z proc_st_scheme, u64) K" where
  "sys_sleep =
     bindK (argint 0) (\<lambda>n.
     thenK (acquire Ticks_lock) (
     bindK (getsK ticks) (\<lambda>ticks0.
     loopK (\<lambda>_.
       bindK (getsK ticks) (\<lambda>now.
       if \<not> now - ticks0 < n then thenK (release Ticks_lock) (returnK (Inr 0)) else
       bindK curproc (\<lambda>p.
       bindK (killed p) (\<lambda>k.
       if k \<noteq> 0 then thenK (release Ticks_lock) (returnK (Inr (-1))) else
       thenK (sleep C_ticks Ticks_lock) (returnK (Inl ())))))) ())))"

definition sys_kill :: "('z proc_st_scheme, u64) K" where
  "sys_kill = bindK (argint 0) (\<lambda>pid. bindK (kill pid) (\<lambda>r. returnK (scast r)))"

definition sys_uptime :: "('z proc_st_scheme, u64) K" where
  "sys_uptime =
     thenK (acquire Ticks_lock) (
     bindK (getsK ticks) (\<lambda>xticks.
     thenK (release Ticks_lock) (returnK (ucast xticks))))"

section \<open>File descriptors\<close>

definition argfd :: "nat \<Rightarrow> ('z proc_st_scheme, (nat \<times> nat) option) K" where
  "argfd n =
     bindK (argint n) (\<lambda>fd.
     if sint fd < 0 \<or> sint fd \<ge> int NOFILE then returnK None else
     bindK curproc (\<lambda>p.
     bindK (proc_get p (\<lambda>r. p_ofile r (unat fd))) (\<lambda>fo.
     returnK (case fo of None \<Rightarrow> None | Some f \<Rightarrow> Some (unat fd, f)))))"

definition fdalloc :: "nat \<Rightarrow> ('z proc_st_scheme, nat option) K" where
  "fdalloc f =
     bindK curproc (\<lambda>p.
     bindK (proc_get p p_ofile) (\<lambda>ofile.
     case List.find (\<lambda>fd. ofile fd = None) [0..<NOFILE] of
       Some fd \<Rightarrow> thenK (upd_proc p (\<lambda>r. r\<lparr>p_ofile := (p_ofile r)(fd := Some f)\<rparr>)) (returnK (Some fd))
     | None \<Rightarrow> returnK None))"

definition sys_dup :: "('z file_st_scheme, u64) K" where
  "sys_dup =
     bindK (argfd 0) (\<lambda>a. case a of None \<Rightarrow> returnK (-1) | Some (_, f) \<Rightarrow>
     bindK (fdalloc f) (\<lambda>fdo. case fdo of None \<Rightarrow> returnK (-1) | Some fd \<Rightarrow>
     bindK (filedup f) (\<lambda>_. returnK (of_nat fd))))"

definition sys_read :: "('z file_st_scheme, u64) K" where
  "sys_read =
     bindK (argaddr 1) (\<lambda>p.
     bindK (argint 2) (\<lambda>n.
     bindK (argfd 0) (\<lambda>a. case a of None \<Rightarrow> returnK (-1) | Some (_, f) \<Rightarrow>
     bindK (fileread f p n) (\<lambda>r. returnK (scast r)))))"

definition sys_write :: "('z file_st_scheme, u64) K" where
  "sys_write =
     bindK (argaddr 1) (\<lambda>p.
     bindK (argint 2) (\<lambda>n.
     bindK (argfd 0) (\<lambda>a. case a of None \<Rightarrow> returnK (-1) | Some (_, f) \<Rightarrow>
     bindK (filewrite f p n) (\<lambda>r. returnK (scast r)))))"

definition sys_close :: "('z file_st_scheme, u64) K" where
  "sys_close =
     bindK (argfd 0) (\<lambda>a. case a of None \<Rightarrow> returnK (-1) | Some (fd, f) \<Rightarrow>
     bindK curproc (\<lambda>p.
     thenK (upd_proc p (\<lambda>r. r\<lparr>p_ofile := (p_ofile r)(fd := None)\<rparr>)) (
     thenK (fileclose f) (returnK 0))))"

definition sys_fstat :: "('z file_st_scheme, u64) K" where
  "sys_fstat =
     bindK (argaddr 1) (\<lambda>st.
     bindK (argfd 0) (\<lambda>a. case a of None \<Rightarrow> returnK (-1) | Some (_, f) \<Rightarrow>
     bindK (filestat f st) (\<lambda>r. returnK (scast r))))"

section \<open>Links and directories\<close>

text \<open>A change of the link count followed by \<^verbatim>\<open>iupdate\<close>.\<close>

definition add_nlink :: "nat \<Rightarrow> u16 \<Rightarrow> ('z fs_st_scheme, unit) K" where
  "add_nlink ip d = thenK (upd_ino ip (\<lambda>r. r\<lparr>i_nlink := i_nlink r + d\<rparr>)) (iupdate ip)"

definition sys_link :: "('z fs_st_scheme, u64) K" where
  "sys_link =
     bindK (argstr 0 MAXPATH) (\<lambda>oldo. case oldo of None \<Rightarrow> returnK (-1) | Some old \<Rightarrow>
     bindK (argstr 1 MAXPATH) (\<lambda>newo. case newo of None \<Rightarrow> returnK (-1) | Some new \<Rightarrow>
     thenK begin_op (
     bindK (namei old) (\<lambda>ipo.
     case ipo of None \<Rightarrow> thenK end_op (returnK (-1)) | Some ip \<Rightarrow>
     let bad = thenK (seqK [ilock ipo, add_nlink ip (-1), iunlockput ip, end_op]) (returnK (-1)) in
     thenK (ilock ipo) (
     bindK (ino_get ip i_type) (\<lambda>ty.
     if ty = T_DIR then thenK (seqK [iunlockput ip, end_op]) (returnK (-1)) else
     thenK (seqK [add_nlink ip 1, iunlock ipo]) (
     bindK (nameiparent new) (\<lambda>dpo.
     case dpo of None \<Rightarrow> bad | Some (dp, name) \<Rightarrow>
     thenK (ilock (Some dp)) (
     bindK (ino_get dp i_dev) (\<lambda>ddev.
     bindK (ino_get ip (\<lambda>r. (i_dev r, i_inum r))) (\<lambda>(dev, inum).
     bindK (if ddev \<noteq> dev then returnK (-1) else dirlink dp name inum) (\<lambda>r.
     if sint r < 0 then thenK (iunlockput dp) bad else
     thenK (seqK [iunlockput dp, iput ip, end_op]) (returnK 0)))))))))))))"

definition isdirempty :: "nat \<Rightarrow> ('z fs_st_scheme, bool) K" where
  "isdirempty dp = loopK (\<lambda>off.
     bindK (ino_get dp i_size) (\<lambda>size.
     if \<not> off < size then returnK (Inr True) else
     bindK (readi dp (Kaddr (Kobj [])) off 16) (\<lambda>(r, de).
     if r \<noteq> 16 then panic ''isdirempty: readi''
     else if de_inum (obj_bytes de) \<noteq> 0 then returnK (Inr False)
     else returnK (Inl (off + 16))))) (2 * 16)"

definition sys_unlink :: "('z fs_st_scheme, u64) K" where
  "sys_unlink =
     bindK (argstr 0 MAXPATH) (\<lambda>patho. case patho of None \<Rightarrow> returnK (-1) | Some path \<Rightarrow>
     thenK begin_op (
     bindK (nameiparent path) (\<lambda>dpo.
     case dpo of None \<Rightarrow> thenK end_op (returnK (-1)) | Some (dp, name) \<Rightarrow>
     let bad = thenK (seqK [iunlockput dp, end_op]) (returnK (-1)) in
     thenK (ilock (Some dp)) (
     if namecmp name (str ''.'') = 0 \<or> namecmp name (str ''..'') = 0 then bad else
     bindK (dirlookup dp name) (\<lambda>found.
     case found of None \<Rightarrow> bad | Some (ip, off) \<Rightarrow>
     thenK (ilock (Some ip)) (
     bindK (ino_get ip id) (\<lambda>i.
     if sint (i_nlink i) < 1 then panic ''unlink: nlink < 1'' else
     bindK (if i_type i = T_DIR then isdirempty ip else returnK True) (\<lambda>empty.
     if \<not> empty then thenK (iunlockput ip) bad else
     bindK (writei dp (Kaddr (Kobj (replicate 16 0))) off 16) (\<lambda>w.
     if w \<noteq> 16 then panic ''unlink: writei'' else
     thenK (whenK (i_type i = T_DIR) (add_nlink dp (-1))) (
     thenK (seqK [iunlockput dp, add_nlink ip (-1), iunlockput ip, end_op])
       (returnK 0)))))))))))"

text \<open>On success the new or found inode is locked.\<close>

definition create :: "byte list \<Rightarrow> u16 \<Rightarrow> u16 \<Rightarrow> u16 \<Rightarrow> ('z fs_st_scheme, nat option) K" where
  "create path type major minor =
     bindK (nameiparent path) (\<lambda>dpo.
     case dpo of None \<Rightarrow> returnK None | Some (dp, name) \<Rightarrow>
     thenK (ilock (Some dp)) (
     bindK (dirlookup dp name) (\<lambda>found.
     case found of
       Some (ip, _) \<Rightarrow>
         thenK (iunlockput dp) (
         thenK (ilock (Some ip)) (
         bindK (ino_get ip i_type) (\<lambda>ty.
         if type = T_FILE \<and> (ty = T_FILE \<or> ty = T_DEVICE) then returnK (Some ip) else
         thenK (iunlockput ip) (returnK None))))
     | None \<Rightarrow>
         bindK (ino_get dp i_dev) (\<lambda>dev.
         bindK (ialloc dev type) (\<lambda>ipo.
         case ipo of None \<Rightarrow> thenK (iunlockput dp) (returnK None) | Some ip \<Rightarrow>
         let fail = thenK (seqK [upd_ino ip (\<lambda>r. r\<lparr>i_nlink := 0\<rparr>), iupdate ip, iunlockput ip, iunlockput dp]) (returnK None) in
         thenK (seqK [ilock ipo, upd_ino ip (\<lambda>r. r\<lparr>i_major := major, i_minor := minor, i_nlink := 1\<rparr>), iupdate ip]) (
         bindK (ino_get ip i_inum) (\<lambda>inum.
         bindK (ino_get dp i_inum) (\<lambda>dinum.
         bindK (if type \<noteq> T_DIR then returnK True else
                bindK (dirlink ip (str ''.'') inum) (\<lambda>r.
                if sint r < 0 then returnK False else
                bindK (dirlink ip (str ''..'') dinum) (\<lambda>r. returnK (\<not> sint r < 0)))) (\<lambda>ok.
         if \<not> ok then fail else
         bindK (dirlink dp name inum) (\<lambda>r.
         if sint r < 0 then fail else
         thenK (whenK (type = T_DIR) (add_nlink dp 1)) (
         thenK (iunlockput dp) (returnK (Some ip)))))))))))))"

definition O_WRONLY :: i32 where [simp]: "O_WRONLY = 1"
definition O_RDWR :: i32 where [simp]: "O_RDWR = 2"
definition O_CREATE :: i32 where [simp]: "O_CREATE = 0x200"
definition O_TRUNC :: i32 where [simp]: "O_TRUNC = 0x400"

text \<open>\<^verbatim>\<open>sys_open\<close> up to the locked inode.\<close>

definition open_inode :: "byte list \<Rightarrow> i32 \<Rightarrow> ('z fs_st_scheme, nat option) K" where
  "open_inode path omode =
     (if omode AND O_CREATE \<noteq> 0 then
        bindK (create path T_FILE 0 0) (\<lambda>ipo.
        case ipo of None \<Rightarrow> thenK end_op (returnK None) | Some ip \<Rightarrow> returnK (Some ip))
      else
        bindK (namei path) (\<lambda>ipo.
        case ipo of None \<Rightarrow> thenK end_op (returnK None) | Some ip \<Rightarrow>
        thenK (ilock ipo) (
        bindK (ino_get ip i_type) (\<lambda>ty.
        if ty = T_DIR \<and> omode \<noteq> 0 then thenK (seqK [iunlockput ip, end_op]) (returnK None)
        else returnK (Some ip)))))"

definition sys_open :: "('z file_st_scheme, u64) K" where
  "sys_open =
     bindK (argint 1) (\<lambda>omode.
     bindK (argstr 0 MAXPATH) (\<lambda>patho. case patho of None \<Rightarrow> returnK (-1) | Some path \<Rightarrow>
     thenK begin_op (
     bindK (open_inode path omode) (\<lambda>ipo.
     case ipo of None \<Rightarrow> returnK (-1) | Some ip \<Rightarrow>
     bindK (ino_get ip id) (\<lambda>i.
     if i_type i = T_DEVICE \<and> (sint (i_major i) < 0 \<or> sint (i_major i) \<ge> int NDEV) then
       thenK (seqK [iunlockput ip, end_op]) (returnK (-1))
     else
       bindK filealloc (\<lambda>fo.
       bindK (case fo of None \<Rightarrow> returnK None | Some f \<Rightarrow> fdalloc f) (\<lambda>fdo.
       case fdo of
         None \<Rightarrow> thenK (seqK [close_opt fo, iunlockput ip, end_op]) (returnK (-1))
       | Some fd \<Rightarrow> deref fo (\<lambda>f.
           thenK (if i_type i = T_DEVICE
                  then upd_file f (\<lambda>r. r\<lparr>f_type := FD_DEVICE, f_major := i_major i\<rparr>)
                  else upd_file f (\<lambda>r. r\<lparr>f_type := FD_INODE, f_off := 0\<rparr>)) (
           thenK (upd_file f (\<lambda>r. r\<lparr>f_ip := Some ip, f_readable := (omode AND O_WRONLY = 0),
             f_writable := (omode AND O_WRONLY \<noteq> 0 \<or> omode AND O_RDWR \<noteq> 0)\<rparr>)) (
           thenK (whenK (omode AND O_TRUNC \<noteq> 0 \<and> i_type i = T_FILE) (itrunc ip)) (
           thenK (seqK [iunlock ipo, end_op]) (returnK (of_nat fd)))))))))))))"

text \<open>The two system calls that only create an entry.\<close>

definition create_and_put :: "byte list option \<Rightarrow> u16 \<Rightarrow> u16 \<Rightarrow> u16 \<Rightarrow> ('z fs_st_scheme, u64) K" where
  "create_and_put patho type major minor =
     bindK (case patho of None \<Rightarrow> returnK None | Some path \<Rightarrow> create path type major minor) (\<lambda>ipo.
     case ipo of None \<Rightarrow> thenK end_op (returnK (-1))
     | Some ip \<Rightarrow> thenK (seqK [iunlockput ip, end_op]) (returnK 0))"

definition sys_mkdir :: "('z fs_st_scheme, u64) K" where
  "sys_mkdir =
     thenK begin_op (
     bindK (argstr 0 MAXPATH) (\<lambda>patho. create_and_put patho T_DIR 0 0))"

definition sys_mknod :: "('z fs_st_scheme, u64) K" where
  "sys_mknod =
     thenK begin_op (
     bindK (argint 1) (\<lambda>major.
     bindK (argint 2) (\<lambda>minor.
     bindK (argstr 0 MAXPATH) (\<lambda>patho. create_and_put patho T_DEVICE (ucast major) (ucast minor)))))"

definition sys_chdir :: "('z fs_st_scheme, u64) K" where
  "sys_chdir =
     bindK curproc (\<lambda>p.
     thenK begin_op (
     bindK (argstr 0 MAXPATH) (\<lambda>patho.
     bindK (case patho of None \<Rightarrow> returnK None | Some path \<Rightarrow> namei path) (\<lambda>ipo.
     case ipo of None \<Rightarrow> thenK end_op (returnK (-1)) | Some ip \<Rightarrow>
     thenK (ilock ipo) (
     bindK (ino_get ip i_type) (\<lambda>ty.
     if ty \<noteq> T_DIR then thenK (seqK [iunlockput ip, end_op]) (returnK (-1)) else
     thenK (iunlock ipo) (
     bindK (proc_get p p_cwd) (\<lambda>cwd.
     thenK (seqK [deref cwd iput, end_op, upd_proc p (\<lambda>r. r\<lparr>p_cwd := Some ip\<rparr>)])
       (returnK 0)))))))))"

text \<open>
  The argument loop of \<^verbatim>\<open>sys_exec\<close>: the pages that hold the strings so far, and whether the
  terminating null pointer was reached.
\<close>

definition exec_argv :: "u64 \<Rightarrow> ('z proc_st_scheme, bool \<times> addr list) K" where
  "exec_argv uargv = loopK (\<lambda>argv.
     if length argv \<ge> MAXARG then returnK (Inr (False, argv)) else
     bindK (fetchaddr (uargv + 8 * of_nat (length argv))) (\<lambda>uo.
     case uo of None \<Rightarrow> returnK (Inr (False, argv)) | Some uarg \<Rightarrow>
     if uarg = 0 then returnK (Inr (True, argv)) else
     bindK kalloc (\<lambda>page.
     if page = 0 then returnK (Inr (False, argv)) else
     bindK (fetchstr uarg (Kmem page) (ucast PGSIZE)) (\<lambda>(r, _).
     returnK (if sint r < 0 then Inr (False, argv @ [page]) else Inl (argv @ [page])))))) []"

definition sys_exec :: "('z file_st_scheme, u64) K" where
  "sys_exec =
     bindK (argaddr 1) (\<lambda>uargv.
     bindK (argstr 0 MAXPATH) (\<lambda>patho. case patho of None \<Rightarrow> returnK (-1) | Some path \<Rightarrow>
     bindK (exec_argv uargv) (\<lambda>(ok, argv).
     if \<not> ok then thenK (foreachK argv kfree) (returnK (-1)) else
     bindK (exec path argv) (\<lambda>ret.
     thenK (foreachK argv kfree) (returnK (scast ret))))))"

definition sys_pipe :: "('z file_st_scheme, u64) K" where
  "sys_pipe =
     bindK curproc (\<lambda>p.
     bindK (argaddr 0) (\<lambda>fdarray.
     bindK pipealloc (\<lambda>po. case po of None \<Rightarrow> returnK (-1) | Some (rf, wf1) \<Rightarrow>
     let clear = (\<lambda>fd. upd_proc p (\<lambda>r. r\<lparr>p_ofile := (p_ofile r)(fd := None)\<rparr>));
         bad = thenK (seqK [fileclose rf, fileclose wf1]) (returnK (-1)) in
     bindK (fdalloc rf) (\<lambda>fo0. case fo0 of None \<Rightarrow> bad | Some fd0 \<Rightarrow>
     bindK (fdalloc wf1) (\<lambda>fo1. case fo1 of None \<Rightarrow> thenK (clear fd0) bad | Some fd1 \<Rightarrow>
     bindK (proc_get p p_pagetable) (\<lambda>pt.
     bindK (copyout pt fdarray (Kobj (bytes_of 4 (of_nat fd0 :: i32))) 4) (\<lambda>r0.
     bindK (if sint r0 < 0 then returnK (-1)
            else copyout pt (fdarray + 4) (Kobj (bytes_of 4 (of_nat fd1 :: i32))) 4) (\<lambda>r1.
     if sint r1 < 0 then thenK (clear fd0) (thenK (clear fd1) bad)
     else returnK 0))))))))"

section \<open>The dispatcher\<close>

definition syscalls :: "nat \<Rightarrow> ('z file_st_scheme, u64) K option" where
  "syscalls num = map_of [
     (1, sys_fork), (2, sys_exit), (3, sys_wait), (4, sys_pipe), (5, sys_read), (6, sys_kill),
     (7, sys_exec), (8, sys_fstat), (9, sys_chdir), (10, sys_dup), (11, sys_getpid), (12, sys_sbrk),
     (13, sys_sleep), (14, sys_uptime), (15, sys_open), (16, sys_write), (17, sys_mknod),
     (18, sys_unlink), (19, sys_link), (20, sys_mkdir), (21, sys_close), (22, sys_memsize),
     (23, sys_co_yield)] num"

definition syscall :: "('z file_st_scheme, unit) K" where
  "syscall =
     bindK curproc (\<lambda>p.
     bindK (tf_get p (\<lambda>t. regs t A7)) (\<lambda>a7.
     let num = (ucast a7 :: i32) in
     case (if sint num > 0 \<and> sint num < 24 then syscalls (unat num) else None) of
       Some f \<Rightarrow> bindK f (\<lambda>r. upd_tf p (set_reg A0 r))
     | None \<Rightarrow>
         bindK (proc_get p id) (\<lambda>r.
         thenK (printf (''%d %s: unknown sys call %d'' @ [CHR 0x0A])
           [Fint (p_pid r), Fstr (Some (p_name r)), Fint num])
           (upd_tf p (set_reg A0 (-1))))))"

end
