(* ===== verification/Virtio.thy ===== *)
theory Virtio
  imports Syscall
begin

text \<open>
  \<^verbatim>\<open>kernel/virtio_disk.c\<close> and \<^verbatim>\<open>kernel/virtio.h\<close>: the driver of the disk. The three queue pages that
  driver and device share are typed fields of the state, and an address in a descriptor is
  the object it points to (\<open>dref\<close>). The device itself is outside the sources: what it answers
  to a read of a control register is the function \<open>mmio_answer\<close> of the writes it has seen, and
  what it does to the queue while the driver sleeps is part of the environment's \<open>resume\<close>.
\<close>

definition NUM :: nat where [simp]: "NUM = 8"
definition VRING_DESC_F_NEXT :: u16 where [simp]: "VRING_DESC_F_NEXT = 1"
definition VRING_DESC_F_WRITE :: u16 where [simp]: "VRING_DESC_F_WRITE = 2"
definition VIRTIO_BLK_T_IN :: u32 where [simp]: "VIRTIO_BLK_T_IN = 0"
definition VIRTIO_BLK_T_OUT :: u32 where [simp]: "VIRTIO_BLK_T_OUT = 1"

text \<open>Offsets of the control registers.\<close>

datatype vreg =
    MAGIC_VALUE | VERSION | DEVICE_ID | VENDOR_ID | DEVICE_FEATURES | DRIVER_FEATURES
  | QUEUE_SEL | QUEUE_NUM_MAX | QUEUE_NUM | QUEUE_READY | QUEUE_NOTIFY | INTERRUPT_STATUS
  | INTERRUPT_ACK | STATUS | QUEUE_DESC_LOW | QUEUE_DESC_HIGH | DRIVER_DESC_LOW
  | DRIVER_DESC_HIGH | DEVICE_DESC_LOW | DEVICE_DESC_HIGH

datatype dref = D_null | D_op nat | D_data nat | D_status nat

record virtq_desc =
  d_addr :: dref
  d_len :: u32
  d_flags :: u16
  d_next :: u16

record virtio_blk_req =
  rq_type :: u32
  rq_reserved :: u32
  rq_sector :: u64

record vdisk =
  vd_pages :: "addr \<times> addr \<times> addr"
  vd_desc :: "nat \<Rightarrow> virtq_desc"
  avail_idx :: u16
  avail_ring :: "nat \<Rightarrow> u16"
  used_dev_idx :: u16
  used_ring :: "nat \<Rightarrow> u32"
  vd_free :: "nat \<Rightarrow> bool"
  used_idx :: u16
  info_b :: "nat \<Rightarrow> nat option"
  info_status :: "nat \<Rightarrow> byte"
  vd_ops :: "nat \<Rightarrow> virtio_blk_req"
  mmio_writes :: "(vreg \<times> u32) list"
  mmio_answer :: "(vreg \<times> u32) list \<Rightarrow> vreg \<Rightarrow> u32"

record vio_st = file_st +
  vdisk :: vdisk

definition upd_vd :: "(vdisk \<Rightarrow> vdisk) \<Rightarrow> ('z vio_st_scheme, unit) K" where
  "upd_vd f = modifyK (\<lambda>s. s\<lparr>vdisk := f (vdisk s)\<rparr>)"

definition vd_get :: "(vdisk \<Rightarrow> 'a) \<Rightarrow> ('z vio_st_scheme, 'a) K" where
  "vd_get f = getsK (\<lambda>s. f (vdisk s))"

definition vr :: "vreg \<Rightarrow> ('z vio_st_scheme, u32) K" where
  "vr r = vd_get (\<lambda>d. mmio_answer d (mmio_writes d) r)"

definition vw :: "vreg \<Rightarrow> u32 \<Rightarrow> ('z vio_st_scheme, unit) K" where
  "vw r v = upd_vd (\<lambda>d. d\<lparr>mmio_writes := (r, v) # mmio_writes d\<rparr>)"

definition desc0 :: virtq_desc where
  "desc0 = \<lparr>d_addr = D_null, d_len = 0, d_flags = 0, d_next = 0\<rparr>"

section \<open>Initialisation\<close>

text \<open>The features that the driver turns off.\<close>

definition features_off :: u32 where
  "features_off = push_bit 5 1 OR push_bit 7 1 OR push_bit 11 1 OR push_bit 12 1 OR push_bit 27 1
     OR push_bit 29 1 OR push_bit 28 1"

definition virtio_disk_init :: "('z vio_st_scheme, unit) K" where
  "virtio_disk_init =
     thenK (initlock Vdisk_lock ''virtio_disk'') (
     bindK (vr MAGIC_VALUE) (\<lambda>magic.
     bindK (vr VERSION) (\<lambda>version.
     bindK (vr DEVICE_ID) (\<lambda>device.
     bindK (vr VENDOR_ID) (\<lambda>vendor.
     if magic \<noteq> 0x74726976 \<or> version \<noteq> 2 \<or> device \<noteq> 2 \<or> vendor \<noteq> 0x554d4551
     then panic ''could not find virtio disk'' else
     thenK (seqK [vw STATUS 0, vw STATUS 1, vw STATUS 3]) (
     bindK (vr DEVICE_FEATURES) (\<lambda>features.
     thenK (seqK [vw DRIVER_FEATURES (features AND NOT features_off), vw STATUS 11]) (
     bindK (vr STATUS) (\<lambda>status.
     if status AND 8 = 0 then panic ''virtio disk FEATURES_OK unset'' else
     thenK (vw QUEUE_SEL 0) (
     bindK (vr QUEUE_READY) (\<lambda>ready.
     if ready \<noteq> 0 then panic ''virtio disk should not be ready'' else
     bindK (vr QUEUE_NUM_MAX) (\<lambda>mx.
     if mx = 0 then panic ''virtio disk has no queue 0''
     else if unat mx < NUM then panic ''virtio disk max queue too short'' else
     bindK kalloc (\<lambda>desc.
     bindK kalloc (\<lambda>avail.
     bindK kalloc (\<lambda>used.
     if desc = 0 \<or> avail = 0 \<or> used = 0 then panic ''virtio disk kalloc'' else
     seqK [
       upd_mem (\<lambda>m. memset m desc 0 (ucast PGSIZE)),
       upd_mem (\<lambda>m. memset m avail 0 (ucast PGSIZE)),
       upd_mem (\<lambda>m. memset m used 0 (ucast PGSIZE)),
       upd_vd (\<lambda>d. d\<lparr>vd_pages := (desc, avail, used), vd_desc := (\<lambda>_. desc0), avail_idx := 0,
         avail_ring := (\<lambda>_. 0), used_dev_idx := 0, used_ring := (\<lambda>_. 0)\<rparr>),
       vw QUEUE_NUM (of_nat NUM),
       vw QUEUE_DESC_LOW (ucast desc), vw QUEUE_DESC_HIGH (ucast (drop_bit 32 desc)),
       vw DRIVER_DESC_LOW (ucast avail), vw DRIVER_DESC_HIGH (ucast (drop_bit 32 avail)),
       vw DEVICE_DESC_LOW (ucast used), vw DEVICE_DESC_HIGH (ucast (drop_bit 32 used)),
       vw QUEUE_READY 1,
       upd_vd (\<lambda>d. d\<lparr>vd_free := (\<lambda>i. if i < NUM then True else vd_free d i)\<rparr>),
       vw STATUS (status OR 4)])))))))))))))))"

section \<open>Descriptors\<close>

definition alloc_desc :: "('z vio_st_scheme, nat option) K" where
  "alloc_desc =
     bindK (vd_get (\<lambda>d. List.find (vd_free d) [0..<NUM])) (\<lambda>found.
     case found of
       Some i \<Rightarrow> thenK (upd_vd (\<lambda>d. d\<lparr>vd_free := (vd_free d)(i := False)\<rparr>)) (returnK (Some i))
     | None \<Rightarrow> returnK None)"

definition free_desc :: "nat \<Rightarrow> ('z vio_st_scheme, unit) K" where
  "free_desc i =
     (if i \<ge> NUM then panic ''free_desc 1'' else
      bindK (vd_get (\<lambda>d. vd_free d i)) (\<lambda>fr.
      if fr then panic ''free_desc 2'' else
      thenK (upd_vd (\<lambda>d. d\<lparr>vd_desc := (vd_desc d)(i := desc0), vd_free := (vd_free d)(i := True)\<rparr>))
        (wakeup C_disk_free)))"

definition free_chain :: "nat \<Rightarrow> ('z vio_st_scheme, unit) K" where
  "free_chain = loopK (\<lambda>i.
     bindK (vd_get (\<lambda>d. vd_desc d i)) (\<lambda>de.
     thenK (free_desc i)
       (returnK (if d_flags de AND VRING_DESC_F_NEXT \<noteq> 0 then Inl (unat (d_next de)) else Inr ()))))"

definition alloc3_desc :: "('z vio_st_scheme, (nat \<times> nat \<times> nat) option) K" where
  "alloc3_desc =
     bindK alloc_desc (\<lambda>o0. case o0 of None \<Rightarrow> returnK None | Some i0 \<Rightarrow>
     bindK alloc_desc (\<lambda>o1. case o1 of None \<Rightarrow> thenK (free_desc i0) (returnK None) | Some i1 \<Rightarrow>
     bindK alloc_desc (\<lambda>o2. case o2 of
       None \<Rightarrow> thenK (free_desc i0) (thenK (free_desc i1) (returnK None))
     | Some i2 \<Rightarrow> returnK (Some (i0, i1, i2)))))"

section \<open>A request\<close>

text \<open>The three descriptors of a transfer, and the entry in the ring of available chains.\<close>

definition format_chain :: "nat \<Rightarrow> bool \<Rightarrow> u64 \<Rightarrow> nat \<times> nat \<times> nat \<Rightarrow> vdisk \<Rightarrow> vdisk" where
  "format_chain b write sector = (\<lambda>(i0, i1, i2) d. d\<lparr>
     vd_desc := (vd_desc d)(
       i0 := \<lparr>d_addr = D_op i0, d_len = 16, d_flags = VRING_DESC_F_NEXT, d_next = of_nat i1\<rparr>,
       i1 := \<lparr>d_addr = D_data b, d_len = of_nat BSIZE,
              d_flags = (if write then 0 else VRING_DESC_F_WRITE) OR VRING_DESC_F_NEXT, d_next = of_nat i2\<rparr>,
       i2 := \<lparr>d_addr = D_status i0, d_len = 1, d_flags = VRING_DESC_F_WRITE, d_next = 0\<rparr>),
     vd_ops := (vd_ops d)(i0 := \<lparr>rq_type = (if write then VIRTIO_BLK_T_OUT else VIRTIO_BLK_T_IN),
       rq_reserved = 0, rq_sector = sector\<rparr>),
     info_status := (info_status d)(i0 := 0xff),
     info_b := (info_b d)(i0 := Some b),
     avail_ring := (avail_ring d)(unat (avail_idx d) mod NUM := of_nat i0),
     avail_idx := avail_idx d + 1\<rparr>)"

definition virtio_disk_rw :: "nat \<Rightarrow> bool \<Rightarrow> ('z vio_st_scheme, unit) K" where
  "virtio_disk_rw b write =
     bindK (buf_get b (\<lambda>r. ucast (b_blockno r * of_nat (BSIZE div 512)))) (\<lambda>sector.
     thenK (acquire Vdisk_lock) (
     bindK (loopK (\<lambda>_.
       bindK alloc3_desc (\<lambda>got. case got of
         Some idx \<Rightarrow> returnK (Inr idx)
       | None \<Rightarrow> thenK (sleep C_disk_free Vdisk_lock) (returnK (Inl ())))) ()) (\<lambda>(i0, i1, i2).
     thenK (upd_buf b (\<lambda>r. r\<lparr>b_disk := 1\<rparr>)) (
     thenK (upd_vd (format_chain b write sector (i0, i1, i2))) (
     thenK (vw QUEUE_NOTIFY 0) (
     thenK (loopK (\<lambda>_.
       bindK (buf_get b b_disk) (\<lambda>own.
       if own = 1 then thenK (sleep (C_buf b) Vdisk_lock) (returnK (Inl ()))
       else returnK (Inr ()))) ()) (
     thenK (upd_vd (\<lambda>d. d\<lparr>info_b := (info_b d)(i0 := None)\<rparr>)) (
     thenK (free_chain i0)
       (release Vdisk_lock)))))))))"

definition intr_body :: "unit \<Rightarrow> ('z vio_st_scheme, unit + unit) K" where
  "intr_body _ =
     bindK (vd_get (\<lambda>d. used_idx d = used_dev_idx d)) (\<lambda>stop.
     if stop then returnK (Inr ()) else
     bindK (vd_get (\<lambda>d. unat (used_ring d (unat (used_idx d) mod NUM)))) (\<lambda>id.
     bindK (vd_get (\<lambda>d. info_status d id)) (\<lambda>st.
     if st \<noteq> 0 then panic ''virtio_disk_intr status'' else
     bindK (vd_get (\<lambda>d. info_b d id)) (\<lambda>bo.
     deref bo (\<lambda>b.
     thenK (upd_buf b (\<lambda>r. r\<lparr>b_disk := 0\<rparr>)) (
     thenK (wakeup (C_buf b)) (
     thenK (upd_vd (\<lambda>d. d\<lparr>used_idx := used_idx d + 1\<rparr>))
       (returnK (Inl ())))))))))"

definition virtio_disk_intr :: "('z vio_st_scheme, unit) K" where
  "virtio_disk_intr =
     thenK (acquire Vdisk_lock) (
     bindK (vr INTERRUPT_STATUS) (\<lambda>st.
     thenK (vw INTERRUPT_ACK (st AND 3)) (
     thenK (loopK intr_body ())
       (release Vdisk_lock))))"

end
