(* ===== verification/Trap.thy ===== *)
theory Trap
  imports Virtio
begin

text \<open>
  \<^verbatim>\<open>kernel/trap.c\<close>, \<^verbatim>\<open>kernel/plic.c\<close>, \<^verbatim>\<open>forkret\<close> of \<^verbatim>\<open>kernel/proc.c\<close>, \<^verbatim>\<open>kernel/main.c\<close> and
  \<^verbatim>\<open>kernel/start.c\<close>: traps from user space and from the kernel, and the boot sequence. The
  bits of \<^verbatim>\<open>sstatus\<close> that the code uses are fields of their own (\<^verbatim>\<open>SIE\<close> is \<open>sie\<close> of the
  machine). What the interrupt controller answers to successive claims is the list
  \<open>plic_claims\<close>. The jump to \<^verbatim>\<open>userret\<close> that ends a trap is a return of the page table that
  is to be installed.
\<close>

datatype tvec = Kernelvec | Uservec

record trap_st = vio_st +
  spp :: bool
  spie :: bool
  stvec :: tvec
  sepc :: u64
  scause :: u64
  stval :: u64
  ssip :: bool
  plic_regs :: "u64 \<Rightarrow> u32"
  plic_claims :: "i32 list"
  plic_done :: "i32 list"
  started :: bool

definition UART0_IRQ :: i32 where [simp]: "UART0_IRQ = 10"
definition VIRTIO0_IRQ :: i32 where [simp]: "VIRTIO0_IRQ = 1"
definition PLIC_SENABLE :: "nat \<Rightarrow> u64" where "PLIC_SENABLE hart = PLIC + 0x2080 + of_nat hart * 0x100"
definition PLIC_SPRIORITY :: "nat \<Rightarrow> u64" where "PLIC_SPRIORITY hart = PLIC + 0x201000 + of_nat hart * 0x2000"

section \<open>The interrupt controller\<close>

definition plic_write :: "u64 \<Rightarrow> u32 \<Rightarrow> ('z trap_st_scheme, unit) K" where
  "plic_write a v = modifyK (\<lambda>s. s\<lparr>plic_regs := (plic_regs s)(a := v)\<rparr>)"

definition plicinit :: "('z trap_st_scheme, unit) K" where
  "plicinit = thenK (plic_write (PLIC + scast UART0_IRQ * 4) 1) (plic_write (PLIC + scast VIRTIO0_IRQ * 4) 1)"

definition plicinithart :: "('z trap_st_scheme, unit) K" where
  "plicinithart =
     bindK cpuid (\<lambda>hart.
     thenK (plic_write (PLIC_SENABLE hart) (push_bit (unat UART0_IRQ) 1 OR push_bit (unat VIRTIO0_IRQ) 1))
       (plic_write (PLIC_SPRIORITY hart) 0))"

definition plic_claim :: "('z trap_st_scheme, i32) K" where
  "plic_claim =
     bindK (getsK plic_claims) (\<lambda>cs. case cs of
       [] \<Rightarrow> returnK 0
     | irq # cs' \<Rightarrow> thenK (modifyK (\<lambda>s. s\<lparr>plic_claims := cs'\<rparr>)) (returnK irq))"

definition plic_complete :: "i32 \<Rightarrow> ('z trap_st_scheme, unit) K" where
  "plic_complete irq = modifyK (\<lambda>s. s\<lparr>plic_done := irq # plic_done s\<rparr>)"

section \<open>Interrupts\<close>

definition trapinit :: "('z trap_st_scheme, unit) K" where
  "trapinit = initlock Ticks_lock ''time''"

definition trapinithart :: "('z trap_st_scheme, unit) K" where
  "trapinithart = modifyK (\<lambda>s. s\<lparr>stvec := Kernelvec\<rparr>)"

definition clockintr :: "('z trap_st_scheme, unit) K" where
  "clockintr = seqK [
     acquire Ticks_lock,
     modifyK (\<lambda>s. s\<lparr>ticks := ticks s + 1\<rparr>),
     wakeup C_ticks,
     release Ticks_lock]"

definition devintr :: "('z trap_st_scheme, nat) K" where
  "devintr =
     bindK (getsK scause) (\<lambda>cause.
     if cause AND 0x8000000000000000 \<noteq> 0 \<and> cause AND 0xff = 9 then
       bindK plic_claim (\<lambda>irq.
       thenK (if irq = UART0_IRQ then uartintr
              else if irq = VIRTIO0_IRQ then virtio_disk_intr
              else whenK (irq \<noteq> 0) (printf (''unexpected interrupt irq=%d'' @ [CHR 0x0A]) [Fint irq])) (
       thenK (whenK (irq \<noteq> 0) (plic_complete irq)) (returnK 1)))
     else if cause = 0x8000000000000001 then
       bindK cpuid (\<lambda>c.
       thenK (whenK (c = 0) clockintr) (
       thenK (modifyK (\<lambda>s. s\<lparr>ssip := False\<rparr>)) (returnK 2)))
     else returnK 0)"

section \<open>Traps\<close>

text \<open>The result is the value for \<^verbatim>\<open>satp\<close> that \<^verbatim>\<open>userret\<close> is called with.\<close>

definition usertrapret :: "('z trap_st_scheme, u64) K" where
  "usertrapret =
     bindK curproc (\<lambda>p.
     thenK intr_off (
     thenK (modifyK (\<lambda>s. s\<lparr>stvec := Uservec\<rparr>)) (
     bindK (getsK satp) (\<lambda>ksatp.
     bindK (proc_get p p_kstack) (\<lambda>kstack.
     bindK (askK usertrap_sym) (\<lambda>usertrap.
     bindK (getsK (\<lambda>s. tp (mach s))) (\<lambda>hart.
     thenK (upd_tf p (\<lambda>t. t\<lparr>kernel_satp := ksatp, kernel_sp := kstack + PGSIZE, kernel_trap := usertrap,
       kernel_hartid := of_nat hart\<rparr>)) (
     thenK (modifyK (\<lambda>s. s\<lparr>spp := False, spie := True\<rparr>)) (
     bindK (tf_get p epc) (\<lambda>pc.
     thenK (modifyK (\<lambda>s. s\<lparr>sepc := pc\<rparr>)) (
     bindK (proc_get p p_pagetable) (\<lambda>pt.
     returnK (MAKE_SATP pt)))))))))))))"

definition usertrap :: "('z trap_st_scheme, u64) K" where
  "usertrap =
     bindK (getsK spp) (\<lambda>from_kernel.
     if from_kernel then panic ''usertrap: not from user mode'' else
     thenK (modifyK (\<lambda>s. s\<lparr>stvec := Kernelvec\<rparr>)) (
     bindK curproc (\<lambda>p.
     bindK (getsK sepc) (\<lambda>pc.
     thenK (upd_tf p (\<lambda>t. t\<lparr>epc := pc\<rparr>)) (
     bindK (getsK scause) (\<lambda>cause.
     bindK (if cause = 8 then
              bindK (killed p) (\<lambda>k.
              thenK (whenK (k \<noteq> 0) (exit (-1))) (
              thenK (upd_tf p (\<lambda>t. t\<lparr>epc := epc t + 4\<rparr>)) (
              thenK intr_on (
              thenK syscall (returnK 0)))))
            else
              bindK devintr (\<lambda>dev.
              if dev \<noteq> 0 then returnK dev else
              bindK (proc_get p p_pid) (\<lambda>pid.
              bindK (getsK stval) (\<lambda>val.
              bindK (getsK sepc) (\<lambda>pc.
              thenK (seqK [
                printf (''usertrap(): unexpected scause %p pid=%d'' @ [CHR 0x0A]) [Fptr cause, Fint pid],
                printf (''            sepc=%p stval=%p'' @ [CHR 0x0A]) [Fptr pc, Fptr val],
                setkilled p])
                (returnK 0)))))) (\<lambda>which_dev.
     bindK (killed p) (\<lambda>k.
     thenK (whenK (k \<noteq> 0) (exit (-1))) (
     thenK (whenK (which_dev = 2) yield)
       usertrapret)))))))))"

definition kerneltrap :: "('z trap_st_scheme, unit) K" where
  "kerneltrap =
     bindK (getsK (\<lambda>s. (sepc s, spp s, spie s, sie (mach s), scause s))) (\<lambda>(pc, pp, pie, ie, cause).
     if \<not> pp then panic ''kerneltrap: not from supervisor mode''
     else if ie then panic ''kerneltrap: interrupts enabled'' else
     bindK devintr (\<lambda>which_dev.
     if which_dev = 0 then
       bindK (getsK stval) (\<lambda>val.
       bindK (getsK sepc) (\<lambda>pc.
       thenK (seqK [
         printf (''scause %p'' @ [CHR 0x0A]) [Fptr cause],
         printf (''sepc=%p stval=%p'' @ [CHR 0x0A]) [Fptr pc, Fptr val]])
         (panic ''kerneltrap'')))
     else
       thenK (whenK (which_dev = 2) (
         bindK myproc (\<lambda>po. case po of None \<Rightarrow> returnK () | Some _ \<Rightarrow>
         bindK curproc (\<lambda>p.
         bindK (proc_get p p_state) (\<lambda>st.
         whenK (st = RUNNING) yield))))) (
       modifyK (\<lambda>s. s\<lparr>mach := (mach s)\<lparr>sie := ie\<rparr>, sepc := pc, spp := pp, spie := pie\<rparr>))))"

definition forkret :: "('z trap_st_scheme, u64) K" where
  "forkret =
     bindK curproc (\<lambda>p.
     thenK (release (Proc_lock p)) (
     bindK (getsK first) (\<lambda>f.
     thenK (whenK f (
       thenK (modifyK (\<lambda>s. s\<lparr>first := False\<rparr>)) (fsinit ROOTDEV)))
       usertrapret)))"

section \<open>Boot\<close>

definition kmain :: "('z trap_st_scheme, unit) K" where
  "kmain =
     bindK cpuid (\<lambda>c.
     thenK (if c = 0 then seqK [
         consoleinit,
         printfinit,
         printf [CHR 0x0A] [],
         printf (''xv6 kernel is booting'' @ [CHR 0x0A]) [],
         printf [CHR 0x0A] [],
         kinit,
         kvminit,
         kvminithart,
         procinit,
         trapinit,
         trapinithart,
         plicinit,
         plicinithart,
         binit,
         iinit,
         fileinit,
         virtio_disk_init,
         userinit,
         modifyK (\<lambda>s. s\<lparr>started := True\<rparr>)]
       else seqK [
         loopK (\<lambda>_. bindK (getsK started) (\<lambda>go. returnK (if go then Inr () else Inl ()))) (),
         bindK cpuid (\<lambda>c. printf (''hart %d starting'' @ [CHR 0x0A]) [Fint (of_nat c)]),
         kvminithart,
         trapinithart,
         plicinithart])
       scheduler)"

text \<open>Machine mode: what \<^verbatim>\<open>start\<close> leaves in the registers before it enters \<^verbatim>\<open>main\<close>.\<close>

record mregs =
  m_mpp :: u64
  m_mie_bit :: bool
  m_mepc_main :: bool
  m_satp :: u64
  m_medeleg :: u64
  m_mideleg :: u64
  m_sie :: u64
  m_pmpaddr0 :: u64
  m_pmpcfg0 :: u64
  m_tp :: u64
  m_mie :: u64
  m_mtvec_timer :: bool
  mtime :: u64
  mtimecmp :: "nat \<Rightarrow> u64"
  m_scratch :: "nat \<Rightarrow> nat \<Rightarrow> u64"

definition CLINT_MTIMECMP :: "nat \<Rightarrow> u64" where "CLINT_MTIMECMP hart = 0x2000000 + 0x4000 + 8 * of_nat hart"

definition timerinit :: "nat \<Rightarrow> mregs \<Rightarrow> mregs" where
  "timerinit hart m = m\<lparr>mtimecmp := (mtimecmp m)(hart := mtime m + 1000000),
     m_scratch := (m_scratch m)(hart := (m_scratch m hart)(3 := CLINT_MTIMECMP hart, 4 := 1000000)),
     m_mtvec_timer := True, m_mie_bit := True, m_mie := m_mie m OR push_bit 7 1\<rparr>"

definition start :: "nat \<Rightarrow> mregs \<Rightarrow> mregs" where
  "start hart m =
     (let m = m\<lparr>m_mpp := 1, m_mepc_main := True, m_satp := 0, m_medeleg := 0xffff, m_mideleg := 0xffff,
        m_sie := m_sie m OR push_bit 9 1 OR push_bit 5 1 OR push_bit 1 1,
        m_pmpaddr0 := 0x3fffffffffffff, m_pmpcfg0 := 0xf\<rparr>
      in (timerinit hart m)\<lparr>m_tp := of_nat hart\<rparr>)"

end
