(* ===== verification/Proc_Ops.thy ===== *)
theory Proc_Ops
  imports Proc
begin

text \<open>
  What the process-table operations of \<open>Proc\<close> do on every branch. Each operation that only takes
  and releases locks of the table is an equation between states; the ones that give the CPU
  away are described up to the \<^verbatim>\<open>swtch\<close> and from the state in which they are resumed.
\<close>

lemma proc_st_upd_order [simp]:
  fixes s :: "'z proc_st_scheme"
  shows "mach_update f (procs_update g s) = procs_update g (mach_update f s)"
    and "mach_update f (tfs_update h s) = tfs_update h (mach_update f s)"
    and "mach_update f (nextpid_update k s) = nextpid_update k (mach_update f s)"
    and "mach_update f (ticks_update l s) = ticks_update l (mach_update f s)"
    and "procs_update g (tfs_update h s) = tfs_update h (procs_update g s)"
    and "procs_update g (nextpid_update k s) = nextpid_update k (procs_update g s)"
  by simp_all

section \<open>The current process\<close>

definition cur :: "mach \<Rightarrow> nat option" where
  "cur m = cpu_proc (cpus m (tp m))"

lemma cur_simps [simp]:
  "cur (acq lk m) = cur m" "cur (rel lk m) = cur m" "cur (settle m) = cur m" "cur (pushoff m) = cur m"
  by (simp_all add: cur_def)

definition on_cpu :: "nat \<Rightarrow> mach \<Rightarrow> mach" where
  "on_cpu q m = m\<lparr>cpus := (cpus m)(tp m := (cpus m (tp m))\<lparr>cpu_proc := Some q\<rparr>)\<rparr>"

lemma on_cpu_simps [simp]:
  "tp (on_cpu q m) = tp m" "sie (on_cpu q m) = sie m" "depth (on_cpu q m) = depth m"
  "lock_mine l (on_cpu q m) = lock_mine l m" "lock_free l (on_cpu q m) = lock_free l m"
  "clean l (on_cpu q m) = clean l m" "switches (on_cpu q m) = switches m" "cur (on_cpu q m) = Some q"
  "sane (on_cpu q m) = sane m"
  by (simp_all add: on_cpu_def depth_def lock_mine_def lock_free_def clean_def cur_def sane_def)

lemma sane_depth: "sane m \<Longrightarrow> 0 \<le> depth m" "sane m \<Longrightarrow> 1 \<le> depth m + 1"
  by (simp_all add: sane_def)

lemma settle_acq [simp]: "sane m \<Longrightarrow> settle (acq l m) = acq l m"
  using sane_depth [of m] by (simp add: settle_def)

lemma myproc_run: "sane (mach s) \<Longrightarrow> myproc e s = Ok (cur (mach s)) (s\<lparr>mach := settle (mach s)\<rparr>)"
  by (simp add: myproc_def monad_defs mycpu_def cpuid_def pop_off_run sane_depth cur_def)

lemma curproc_run:
  "sane (mach s) \<Longrightarrow> cur (mach s) = Some p \<Longrightarrow> curproc e s = Ok p (s\<lparr>mach := settle (mach s)\<rparr>)"
  by (simp add: curproc_def monad_defs myproc_run)

lemma curproc_none: "sane (mach s) \<Longrightarrow> cur (mach s) = None \<Longrightarrow> curproc e s = Panic ''kerneltrap''"
  by (simp add: curproc_def monad_defs myproc_run)

lemma wp_myproc [wp]: "sane (mach s) \<Longrightarrow> wpK myproc Q e s \<longleftrightarrow> Q (cur (mach s)) (s\<lparr>mach := settle (mach s)\<rparr>)"
  by (simp add: wpK_def myproc_run)

lemma wp_curproc [wp]:
  "sane (mach s) \<Longrightarrow> wpK curproc Q e s \<longleftrightarrow> (case cur (mach s) of None \<Rightarrow> False
     | Some p \<Rightarrow> Q p (s\<lparr>mach := settle (mach s)\<rparr>))"
  by (simp add: wpK_def curproc_run curproc_none split: option.split)

lemmas run_simps = monad_defs release_run sane_depth upd_proc_def proc_get_def

section \<open>Operations on the table under its locks\<close>

definition table_free :: "'z proc_st_scheme \<Rightarrow> bool" where
  "table_free s \<longleftrightarrow> sane (mach s) \<and> (\<forall>p. clean (Proc_lock p) (mach s))"

lemma table_free_settle [simp]: "table_free (s\<lparr>mach := settle m\<rparr>) = table_free (s\<lparr>mach := m\<rparr>)"
  by (simp add: table_free_def)

lemma table_free_upd [simp]:
  "table_free (s\<lparr>procs := ps\<rparr>) = table_free s" "table_free (s\<lparr>tfs := t\<rparr>) = table_free s"
  "table_free (s\<lparr>mach := mach s\<rparr>) = table_free s"
  by (simp_all add: table_free_def)

lemma setkilled_run:
  "table_free s \<Longrightarrow> setkilled p e s =
     Ok () (s\<lparr>mach := settle (mach s), procs := (procs s)(p := (procs s p)\<lparr>p_killed := 1\<rparr>)\<rparr>)"
  by (simp add: setkilled_def table_free_def run_simps)

lemma killed_run:
  "table_free s \<Longrightarrow> killed p e s = Ok (p_killed (procs s p)) (s\<lparr>mach := settle (mach s)\<rparr>)"
  by (simp add: killed_def table_free_def run_simps)

lemma allocpid_run:
  "sane (mach s) \<Longrightarrow> clean Pid_lock (mach s) \<Longrightarrow> allocpid e s =
     Ok (nextpid s) (s\<lparr>mach := settle (mach s), nextpid := nextpid s + 1\<rparr>)"
  by (simp add: allocpid_def run_simps)

text \<open>\<^verbatim>\<open>wakeup\<close>: every other process sleeping on the channel becomes runnable.\<close>

definition woken :: "chan \<Rightarrow> proc \<Rightarrow> proc" where
  "woken ch r = (if p_state r = SLEEPING \<and> p_chan r = ch then r\<lparr>p_state := RUNNABLE\<rparr> else r)"

definition wake_all :: "chan \<Rightarrow> nat option \<Rightarrow> (nat \<Rightarrow> proc) \<Rightarrow> nat \<Rightarrow> proc" where
  "wake_all ch me ps p = (if p < NPROC \<and> Some p \<noteq> me then woken ch (ps p) else ps p)"

lemma wake_one_run:
  "table_free s \<Longrightarrow> wake_one ch p e s =
     Ok () (s\<lparr>mach := settle (mach s), procs :=
        (procs s)(p := (if Some p \<noteq> cur (mach s) then woken ch (procs s p) else procs s p))\<rparr>)"
  by (simp add: wake_one_def table_free_def run_simps myproc_run woken_def)

lemma wake_loop:
  assumes "table_free s" and "distinct ps"
  shows "foreachK ps (wake_one ch) e s =
     Ok () (s\<lparr>mach := (if ps = [] then mach s else settle (mach s)), procs :=
        (\<lambda>p. if p \<in> set ps \<and> Some p \<noteq> cur (mach s) then woken ch (procs s p) else procs s p)\<rparr>)"
  using assms
proof (induction ps arbitrary: s)
  case Nil
  then show ?case by (simp add: returnK_def)
next
  case (Cons p ps)
  let ?t = "s\<lparr>mach := settle (mach s), procs :=
        (procs s)(p := (if Some p \<noteq> cur (mach s) then woken ch (procs s p) else procs s p))\<rparr>"
  have "table_free ?t" using Cons.prems(1) by (simp add: table_free_def)
  from Cons.IH [OF this] Cons.prems show ?case
    by (auto simp: thenK_def bindK_def wake_one_run fun_eq_iff intro!: arg_cong [where f = "\<lambda>f. procs_update f _"])
qed

lemma wakeup_run:
  "table_free s \<Longrightarrow> wakeup ch e s =
     Ok () (s\<lparr>mach := settle (mach s), procs := wake_all ch (cur (mach s)) (procs s)\<rparr>)"
  by (simp add: wakeup_def wake_loop wake_all_def [abs_def] del: upt_Suc)

section \<open>Scanning the table\<close>

lemma scan_run:
  assumes "table_free s"
  shows "forK ps (scan test hit) e s =
     (case List.find (\<lambda>p. test (procs s p)) ps of
        None \<Rightarrow> Ok None (s\<lparr>mach := (if ps = [] then mach s else settle (mach s))\<rparr>)
      | Some p \<Rightarrow> bindK (hit p) (\<lambda>x. returnK (Some x)) e (s\<lparr>mach := acq (Proc_lock p) (mach s)\<rparr>))"
  using assms
proof (induction ps arbitrary: s)
  case Nil
  then show ?case by (simp add: returnK_def)
next
  case (Cons p ps)
  show ?case
  proof (cases "test (procs s p)")
    case True
    then show ?thesis
      using Cons.prems(1)
      by (auto simp: scan_def table_free_def run_simps split: outcome.split)
  next
    case False
    let ?t = "s\<lparr>mach := settle (mach s)\<rparr>"
    have "scan test hit p e s = Ok None ?t"
      using False Cons.prems(1) by (simp add: scan_def table_free_def run_simps)
    moreover have "table_free ?t" using Cons.prems(1) by (simp add: table_free_def)
    ultimately show ?thesis
      using False Cons.IH [of ?t] Cons.prems by (simp add: bindK_def [of "scan _ _ _"] cong: option.case_cong)
  qed
qed

lemma find_proc_run:
  assumes "table_free s"
  shows "find_proc pid e s = (case List.find (\<lambda>p. p_pid (procs s p) = pid \<and> p_state (procs s p) \<noteq> UNUSED) [0..<NPROC] of
     None \<Rightarrow> Ok None (s\<lparr>mach := settle (mach s)\<rparr>)
   | Some p \<Rightarrow> Ok (Some p) (s\<lparr>mach := acq (Proc_lock p) (mach s)\<rparr>))"
  unfolding find_proc_def
  by (subst scan_run [OF assms]) (auto simp: bindK_def returnK_def split: option.split simp del: upt_Suc)

definition slain :: "proc \<Rightarrow> proc" where
  "slain r = r\<lparr>p_killed := 1, p_state := (if p_state r = SLEEPING then RUNNABLE else p_state r)\<rparr>"

lemma kill_run:
  assumes "table_free s"
  shows "kill pid e s = (case List.find (\<lambda>p. p_pid (procs s p) = pid) [0..<NPROC] of
     None \<Rightarrow> Ok (-1) (s\<lparr>mach := settle (mach s)\<rparr>)
   | Some p \<Rightarrow> Ok 0 (s\<lparr>mach := settle (mach s), procs := (procs s)(p := slain (procs s p))\<rparr>))"
proof -
  have "sane (mach s)" "clean (Proc_lock p) (mach s)" for p using assms by (simp_all add: table_free_def)
  then show ?thesis
    unfolding kill_def
    by (subst bindK_def, subst scan_run [OF assms])
       (simp add: run_simps slain_def split: option.split del: upt_Suc)
qed

end
