(* ===== verification/Coroutine.thy ===== *)
theory Coroutine
  imports Proc_Ops
begin

text \<open>
  \<^verbatim>\<open>co_yield\<close> of \<^verbatim>\<open>kernel/proc.c\<close>: when it refuses, what it hands over to the peer when
  it does not, and what a run of alternating calls of two processes returns.
\<close>

section \<open>The machine at the switch\<close>

lemma switches_simps [simp]:
  "depth (m\<lparr>switches := x\<rparr>) = depth m" "lock_mine l (m\<lparr>switches := x\<rparr>) = lock_mine l m"
  "sane (m\<lparr>switches := x\<rparr>) = sane m" "clean l (m\<lparr>switches := x\<rparr>) = clean l m" "cur (m\<lparr>switches := x\<rparr>) = cur m"
  by (simp_all add: depth_def lock_mine_def sane_def clean_def cur_def)

lemma rel_on_cpu: "rel l (on_cpu q m) = on_cpu q (rel l m)"
  by (auto simp: rel_def on_cpu_def popoff_def intro!: mach.equality)

lemma set_curproc_run [simp]: "set_curproc q e s = Ok () (s\<lparr>mach := on_cpu q (mach s)\<rparr>)"
  by (simp add: set_curproc_def monad_defs mycpu_def cpuid_def upd_cpu_def upd_mach_def on_cpu_def)

section \<open>One call\<close>

definition co_target :: "'z proc_st_scheme \<Rightarrow> i32 \<Rightarrow> nat option" where
  "co_target s pid = List.find (\<lambda>q. p_pid (procs s q) = pid \<and> p_state (procs s q) \<noteq> UNUSED) [0..<NPROC]"

text \<open>The requests that \<^verbatim>\<open>co_yield\<close> refuses, for the process \<open>p\<close> that makes them.\<close>

definition co_refused :: "'z proc_st_scheme \<Rightarrow> nat \<Rightarrow> i32 \<Rightarrow> bool" where
  "co_refused s p pid \<longleftrightarrow> sint pid \<le> 0 \<or> pid = p_pid (procs s p) \<or> p_killed (procs s p) \<noteq> 0 \<or>
     (case co_target s pid of None \<Rightarrow> True | Some t \<Rightarrow>
        p_killed (procs s t) \<noteq> 0 \<or>
        \<not> (p_state (procs s t) = RUNNABLE \<or> p_state (procs s t) = SLEEPING \<and> p_chan (procs s t) = co_chan p))"

text \<open>The state in which the CPU is handed to the peer \<open>t\<close>.\<close>

definition co_procs :: "nat \<Rightarrow> nat \<Rightarrow> (nat \<Rightarrow> proc) \<Rightarrow> nat \<Rightarrow> proc" where
  "co_procs p t ps = ps(p := (ps p)\<lparr>p_chan := co_chan t, p_state := SLEEPING\<rparr>,
     t := (ps t)\<lparr>p_state := RUNNING,
       p_chan := (if p_state (ps t) = SLEEPING then C_null else p_chan (ps t))\<rparr>)"

definition co_tfs :: "bool \<Rightarrow> addr \<Rightarrow> addr \<Rightarrow> i32 \<Rightarrow> (addr \<Rightarrow> trapframe) \<Rightarrow> addr \<Rightarrow> trapframe" where
  "co_tfs waiting a b value m =
     (if waiting
      then m(a := set_reg A0 (regs (m b) A1) (set_reg A1 (scast value) (m a)),
             b := (if regs (m b) A0 = -1 then set_reg A0 (scast value) (m b) else m b))
      else m(a := set_reg A0 (-1) (set_reg A1 (scast value) (m a))))"

definition co_handoff :: "nat \<Rightarrow> nat \<Rightarrow> i32 \<Rightarrow> 'z proc_st_scheme \<Rightarrow> 'z proc_st_scheme" where
  "co_handoff p t value s = s\<lparr>mach := on_cpu t (acq (Proc_lock t) (mach s)),
     procs := co_procs p t (procs s),
     tfs := co_tfs (p_state (procs s t) = SLEEPING) (p_trapframe (procs s p)) (p_trapframe (procs s t)) value (tfs s)\<rparr>"

lemma find_Some: "List.find P xs = Some x \<Longrightarrow> P x \<and> x \<in> set xs"
  by (metis find_Some_iff nth_mem)

lemma co_targetD:
  assumes "co_target s pid = Some t"
  shows "t < NPROC" "p_pid (procs s t) = pid" "p_state (procs s t) \<noteq> UNUSED"
  using find_Some [OF assms [unfolded co_target_def]] by auto

lemma co_park_run:
  assumes "table_free s" and "p \<noteq> t" and "p_state (procs s t) = RUNNABLE"
  shows "co_park p t value e (s\<lparr>mach := acq (Proc_lock t) (mach s)\<rparr>) =
     (if p_killed (procs s p) \<noteq> 0 then Ok (-1) (s\<lparr>mach := settle (mach s)\<rparr>)
      else co_switch p t e (co_handoff p t value s))"
proof -
  have "sane (mach s)" "\<And>q. clean (Proc_lock q) (mach s)" using assms(1) by (simp_all add: table_free_def)
  then show ?thesis
    using assms(2,3) rel_on_cpu [of "Proc_lock p" t "acq (Proc_lock p) (acq (Proc_lock t) (mach s))"]
    by (simp add: co_park_def run_simps upd_tf_def co_handoff_def co_procs_def co_tfs_def fun_upd_twist)
qed

lemma co_resume_run:
  assumes "table_free s" and "p \<noteq> t" and "p_state (procs s t) = SLEEPING"
    and "p_trapframe (procs s p) \<noteq> p_trapframe (procs s t)"
  shows "co_resume p t value e (s\<lparr>mach := acq (Proc_lock t) (mach s)\<rparr>) =
     (if p_chan (procs s t) \<noteq> co_chan p \<or> p_killed (procs s p) \<noteq> 0 then Ok (-1) (s\<lparr>mach := settle (mach s)\<rparr>)
      else co_switch p t e (co_handoff p t value s))"
proof -
  have "sane (mach s)" "\<And>q. clean (Proc_lock q) (mach s)" using assms(1) by (simp_all add: table_free_def)
  then show ?thesis
    using assms(2-4) rel_on_cpu [of "Proc_lock p" t "acq (Proc_lock p) (acq (Proc_lock t) (mach s))"]
    by (simp add: co_resume_def run_simps upd_tf_def tf_get_def co_handoff_def co_procs_def co_tfs_def fun_upd_twist
        cong: if_cong)
qed

lemma co_yield_run:
  assumes "table_free s" and "cur (mach s) = Some p"
    and "\<And>t. t \<noteq> p \<Longrightarrow> p_trapframe (procs s p) \<noteq> p_trapframe (procs s t)"
  shows "co_yield pid value e s =
     (if co_refused s p pid then Ok (-1) (s\<lparr>mach := settle (mach s)\<rparr>)
      else co_switch p (the (co_target s pid)) e (co_handoff p (the (co_target s pid)) value s))"
proof -
  let ?s = "s\<lparr>mach := settle (mach s)\<rparr>"
  have sane: "sane (mach s)" "\<And>q. clean (Proc_lock q) (mach s)" using assms(1) by (simp_all add: table_free_def)
  have fp: "find_proc pid e ?s = (case co_target s pid of None \<Rightarrow> Ok None ?s
      | Some t \<Rightarrow> Ok (Some t) (s\<lparr>mach := acq (Proc_lock t) (mach s)\<rparr>))"
    using find_proc_run [of ?s pid e] assms(1) by (simp add: co_target_def split: option.split)
  show ?thesis
  proof (cases "co_target s pid")
    case None
    then show ?thesis
      using assms(2) sane fp by (simp add: co_yield_def run_simps curproc_run co_refused_def)
  next
    case (Some t)
    show ?thesis
    proof (cases "sint pid \<le> 0 \<or> pid = p_pid (procs s p)")
      case True
      then show ?thesis
        using assms(2) sane by (auto simp: co_yield_def run_simps curproc_run co_refused_def)
    next
      case False
      then have "t \<noteq> p" using co_targetD [OF Some] by auto
      then show ?thesis
        using False Some assms sane fp co_targetD [OF Some]
        by (cases "p_state (procs s t)")
           (auto simp: co_yield_def run_simps curproc_run co_refused_def co_park_run co_resume_run)
    qed
  qed
qed

section \<open>Alternating calls\<close>

text \<open>
  What the two registers of a sleeping process make of the calls that follow: \<open>a0\<close> is its
  pending return value, \<open>a1\<close> the value it sent.
\<close>

fun co_session :: "u64 \<times> u64 \<Rightarrow> i32 list \<Rightarrow> i32 list" where
  "co_session (a0, a1) [] = []"
| "co_session (a0, a1) (v # vs) = (if a0 = -1 then v else ucast a0) # co_session (a1, scast v) vs"

definition pending :: "'z proc_st_scheme \<Rightarrow> nat \<Rightarrow> u64 \<times> u64" where
  "pending s p = (regs (tfs s (p_trapframe (procs s p))) A0, regs (tfs s (p_trapframe (procs s p))) A1)"

definition co_waiting :: "'z proc_st_scheme \<Rightarrow> nat \<Rightarrow> nat \<Rightarrow> bool" where
  "co_waiting s p q \<longleftrightarrow> p_state (procs s p) = SLEEPING \<and> p_chan (procs s p) = co_chan q"

text \<open>While \<open>q\<close> runs, \<open>p\<close> sleeps: its table entry and its trapframe stay as they are.\<close>

definition asleep :: "nat \<Rightarrow> 'z proc_st_scheme \<Rightarrow> 'z proc_st_scheme \<Rightarrow> bool" where
  "asleep p s t \<longleftrightarrow> procs t p = procs s p \<and>
     tfs t (p_trapframe (procs s p)) = tfs s (p_trapframe (procs s p))"

text \<open>The kernel is entered by \<open>q\<close>; pids name processes and trapframes are not shared.\<close>

definition co_entry :: "'z proc_st_scheme \<Rightarrow> nat \<Rightarrow> nat \<Rightarrow> bool" where
  "co_entry s q p \<longleftrightarrow> table_free s \<and> cur (mach s) = Some q \<and> p \<noteq> q \<and>
     co_target s (p_pid (procs s p)) = Some p \<and>
     (\<forall>t. t \<noteq> q \<longrightarrow> p_trapframe (procs s q) \<noteq> p_trapframe (procs s t))"

text \<open>
  Alternating calls of the code: the running process \<open>q\<close> calls \<^verbatim>\<open>co_yield\<close>, which ends in the
  state \<open>h\<close> of its context switch; there the sleeping process \<open>p\<close> resumes and returns \<open>r\<close>; and
  the same goes on with the roles exchanged.
\<close>

inductive co_run :: "'z proc_st_scheme env \<Rightarrow> nat \<Rightarrow> nat \<Rightarrow> 'z proc_st_scheme \<Rightarrow> i32 list \<Rightarrow> i32 list \<Rightarrow> bool"
  for e :: "'z proc_st_scheme env"
where
  stop: "co_run e q p s [] []"
| call: "asleep p s s' \<Longrightarrow> co_entry s' q p \<Longrightarrow> co_yield (p_pid (procs s' p)) v e s' = Gone h \<Longrightarrow>
    co_back p e h = Ok r u \<Longrightarrow> co_run e p q u vs rs \<Longrightarrow> co_run e q p s (v # vs) (r # rs)"

lemma co_back_run:
  assumes "lock_mine (Proc_lock p) (mach s)" and "\<not> sie (mach s)" and "1 \<le> depth (mach s)"
  shows "co_back p e s = Ok (ucast (fst (pending s p)))
     (s\<lparr>mach := rel (Proc_lock p) (mach s), procs := (procs s)(p := (procs s p)\<lparr>p_chan := C_null\<rparr>)\<rparr>)"
  using assms by (simp add: co_back_def run_simps tf_get_def pending_def)

lemma co_switch_Gone:
  assumes "co_switch p t e s = Gone h" and "\<And>n u. resume e n u = None"
  shows "h = s\<lparr>mach := (mach s)\<lparr>switches := (Proc_context p, Proc_context t) # switches (mach s)\<rparr>\<rparr>"
  using assms by (simp add: co_switch_def swtch_def thenK_def bindK_def Let_def)

lemma pending_handoff:
  assumes "p_state (procs s t) = SLEEPING" and "p_trapframe (procs s p) \<noteq> p_trapframe (procs s t)" and "p \<noteq> t"
  shows "pending (co_handoff p t v s) p = (snd (pending s t), scast v)"
    and "fst (pending (co_handoff p t v s) t) = (if fst (pending s t) = -1 then scast v else fst (pending s t))"
  using assms by (simp_all add: pending_def co_handoff_def co_procs_def co_tfs_def set_reg_def)

lemma ucast_scast_i32 [simp]: "ucast (scast (v :: i32) :: u64) = v"
  by (rule bit_word_eqI) (auto simp: bit_simps)

lemma pending_mach [simp]: "pending (s\<lparr>mach := m\<rparr>) p = pending s p"
  by (simp add: pending_def)

lemma co_run_session:
  assumes "co_run e q p s vs rs" and "\<And>n u. resume e n u = None" and "co_waiting s p q"
  shows "rs = co_session (pending s p) vs"
  using assms(1,3)
proof (induction rule: co_run.induct)
  case (stop q p s)
  then show ?case by (cases "pending s p") simp
next
  case (call p s s' q v h r u vs rs)
  have entry: "table_free s'" "cur (mach s') = Some q" "p \<noteq> q" "co_target s' (p_pid (procs s' p)) = Some p"
    "\<And>t. t \<noteq> q \<Longrightarrow> p_trapframe (procs s' q) \<noteq> p_trapframe (procs s' t)"
    using call.hyps(2) by (auto simp: co_entry_def)
  have wait: "co_waiting s' p q" and pend: "pending s' p = pending s p"
    using call.hyps(1) call.prems by (simp_all add: co_waiting_def asleep_def pending_def)
  then have sl: "p_state (procs s' p) = SLEEPING" by (simp add: co_waiting_def)
  have "co_switch q p e (co_handoff q p v s') = Gone h"
    using call.hyps(3) co_yield_run [OF entry(1,2,5), of "p_pid (procs s' p)" v e] entry(4)
    by (simp split: if_splits)
  note h = co_switch_Gone [OF this assms(2)]
  note hand = pending_handoff [OF sl entry(5) [OF entry(3)] entry(3) [symmetric], of v]
  have "sane (mach s')" using entry(1) by (simp add: table_free_def)
  then have "co_back p e h = Ok (ucast (fst (pending h p)))
     (h\<lparr>mach := rel (Proc_lock p) (mach h), procs := (procs h)(p := (procs h p)\<lparr>p_chan := C_null\<rparr>)\<rparr>)"
    by (intro co_back_run) (simp_all add: h co_handoff_def sane_depth)
  then have r: "r = ucast (fst (pending h p))"
    and u: "u = h\<lparr>mach := rel (Proc_lock p) (mach h), procs := (procs h)(p := (procs h p)\<lparr>p_chan := C_null\<rparr>)\<rparr>"
    using call.hyps(4) by simp_all
  have "co_waiting u q p" "pending u q = (snd (pending s p), scast v)"
    using hand(1) entry(3) pend
    by (simp_all add: u h co_waiting_def co_handoff_def co_procs_def pending_def)
  moreover have "r = (if fst (pending s p) = -1 then v else ucast (fst (pending s p)))"
    using hand(2) pend by (simp add: r h)
  ultimately show ?case
    using call.IH by (cases "pending s p") simp
qed

text \<open>Without \<open>-1\<close> among the values, which is also the mark of an empty slot, the results are a shift.\<close>

lemma scast_eq_minus_1: "(scast (v :: i32) :: u64) = -1 \<longleftrightarrow> v = -1"
proof
  assume "(scast v :: u64) = -1"
  then have "ucast (scast v :: u64) = (ucast (-1 :: u64) :: i32)" by simp
  moreover have "(ucast (-1 :: u64) :: i32) = -1" by (rule bit_word_eqI) (simp add: bit_simps)
  ultimately show "v = -1" by simp
qed simp

lemma co_session_shift:
  "-1 \<notin> set (a # b # vs) \<Longrightarrow> co_session (scast a, scast b) vs = take (length vs) (a # b # vs)"
  by (induction vs arbitrary: a b) (auto simp: scast_eq_minus_1)

lemma co_session_first:
  assumes "-1 \<notin> set (v0 # v1 # vs)"
  shows "co_session (-1, scast v0) (v1 # vs) = v1 # take (length vs) (v0 # v1 # vs)"
  using co_session_shift [of v0 v1 vs] assms by simp

section \<open>A full turn\<close>

text \<open>The state after \<open>q\<close> has called and \<open>p\<close> has returned from its own call.\<close>

definition co_next :: "nat \<Rightarrow> nat \<Rightarrow> i32 \<Rightarrow> 'z proc_st_scheme \<Rightarrow> 'z proc_st_scheme" where
  "co_next q p v s = (let h = co_handoff q p v s in
     h\<lparr>mach := on_cpu p (settle (mach s))\<lparr>switches := (Proc_context q, Proc_context p) # switches (mach s)\<rparr>,
       procs := (procs h)(p := (procs h p)\<lparr>p_chan := C_null\<rparr>)\<rparr>)"

lemma rel_switches: "rel l (m\<lparr>switches := x\<rparr>) = (rel l m)\<lparr>switches := x\<rparr>"
  by (simp add: rel_def popoff_def)

lemma co_turn:
  assumes entry: "co_entry s q p" and wait: "co_waiting s p q"
    and alive: "p_killed (procs s p) = 0" "p_killed (procs s q) = 0" and pids: "0 < sint (p_pid (procs s p))"
      "p_pid (procs s p) \<noteq> p_pid (procs s q)"
    and gone: "\<And>n u. resume e n u = None"
  obtains h where "co_yield (p_pid (procs s p)) v e s = Gone h"
    and "switches (mach h) = (Proc_context q, Proc_context p) # switches (mach s)"
    and "co_back p e h = Ok (if fst (pending s p) = -1 then v else ucast (fst (pending s p))) (co_next q p v s)"
    and "co_waiting (co_next q p v s) q p"
proof -
  have e: "table_free s" "cur (mach s) = Some q" "p \<noteq> q" "co_target s (p_pid (procs s p)) = Some p"
    "\<And>t. t \<noteq> q \<Longrightarrow> p_trapframe (procs s q) \<noteq> p_trapframe (procs s t)"
    using entry by (auto simp: co_entry_def)
  have sane: "sane (mach s)" "clean (Proc_lock p) (mach s)" using e(1) by (simp_all add: table_free_def)
  have sl: "p_state (procs s p) = SLEEPING" using wait by (simp add: co_waiting_def)
  let ?h = "co_handoff q p v s"
  let ?g = "?h\<lparr>mach := (mach ?h)\<lparr>switches := (Proc_context q, Proc_context p) # switches (mach ?h)\<rparr>\<rparr>"
  have "\<not> co_refused s q (p_pid (procs s p))"
    using alive pids wait e(4) by (simp add: co_refused_def co_waiting_def)
  then have "co_yield (p_pid (procs s p)) v e s = Gone ?g"
    using co_yield_run [OF e(1,2,5), of "p_pid (procs s p)" v e] e(4) gone
    by (simp add: co_switch_def swtch_def thenK_def bindK_def Let_def)
  moreover have "switches (mach ?g) = (Proc_context q, Proc_context p) # switches (mach s)"
    by (simp add: co_handoff_def)
  moreover have "co_back p e ?g = Ok (ucast (fst (pending ?h p))) (co_next q p v s)"
    using sane by (subst co_back_run) (simp_all add: co_handoff_def sane_depth co_next_def rel_switches rel_on_cpu pending_def)
  moreover have "ucast (fst (pending ?h p)) = (if fst (pending s p) = -1 then v else ucast (fst (pending s p)))"
    using pending_handoff(2) [OF sl e(5) [OF e(3)] e(3) [symmetric], of v] by simp
  moreover have "co_waiting (co_next q p v s) q p"
    using e(3) by (simp add: co_waiting_def co_next_def co_handoff_def co_procs_def Let_def)
  ultimately show ?thesis using that by simp
qed

section \<open>Any number of turns\<close>

definition named :: "'z proc_st_scheme \<Rightarrow> nat \<Rightarrow> bool" where
  "named s p \<longleftrightarrow> p < NPROC \<and> 0 < sint (p_pid (procs s p)) \<and> p_state (procs s p) \<noteq> UNUSED \<and>
     p_killed (procs s p) = 0 \<and>
     (\<forall>i < NPROC. i \<noteq> p \<longrightarrow> p_pid (procs s i) \<noteq> p_pid (procs s p)) \<and>
     (\<forall>i. i \<noteq> p \<longrightarrow> p_trapframe (procs s i) \<noteq> p_trapframe (procs s p))"

definition co_pair :: "'z proc_st_scheme \<Rightarrow> nat \<Rightarrow> nat \<Rightarrow> bool" where
  "co_pair s q p \<longleftrightarrow> table_free s \<and> cur (mach s) = Some q \<and> p \<noteq> q \<and> named s p \<and> named s q"

lemma co_targetI: "named s p \<Longrightarrow> co_target s (p_pid (procs s p)) = Some p"
  unfolding co_target_def find_Some_iff named_def
  by (intro exI [of _ p]) (auto simp del: upt_Suc)

lemma co_pair_entry: "co_pair s q p \<Longrightarrow> co_entry s q p"
  using co_targetI [of s p] by (fastforce simp: co_pair_def co_entry_def named_def)

lemma co_pair_next:
  assumes "co_pair s q p"
  shows "co_pair (co_next q p v s) p q"
proof -
  have "sane (on_cpu p (settle (mach s)))" using assms by (simp add: co_pair_def table_free_def sane_def)
  then show ?thesis
    using assms
    by (auto simp: co_pair_def table_free_def co_next_def co_handoff_def co_procs_def Let_def named_def split: if_splits)
qed

lemma asleep_refl [simp]: "asleep p s s"
  by (simp add: asleep_def)

lemma co_run_total:
  assumes "co_pair s q p" and "co_waiting s p q" and gone: "\<And>n u. resume e n u = None"
  shows "\<exists>rs. co_run e q p s vs rs"
  using assms(1,2)
proof (induction vs arbitrary: s q p)
  case Nil
  show ?case by (blast intro: co_run.stop)
next
  case (Cons v vs)
  have n: "named s p" "named s q" "p \<noteq> q" using Cons.prems(1) by (simp_all add: co_pair_def)
  then have ids: "p_killed (procs s p) = 0" "p_killed (procs s q) = 0" "0 < sint (p_pid (procs s p))"
    "p_pid (procs s p) \<noteq> p_pid (procs s q)" by (auto simp: named_def)
  obtain h r where h: "co_yield (p_pid (procs s p)) v e s = Gone h" "co_back p e h = Ok r (co_next q p v s)"
    and w: "co_waiting (co_next q p v s) q p"
    using co_turn [OF co_pair_entry [OF Cons.prems(1)] Cons.prems(2) ids gone] by metis
  obtain rs where "co_run e p q (co_next q p v s) vs rs"
    using Cons.IH [OF co_pair_next [OF Cons.prems(1)] w] by blast
  then show ?case
    using co_run.call [OF asleep_refl co_pair_entry [OF Cons.prems(1)] h] by blast
qed

text \<open>The first call, made while the peer has not called yet.\<close>

lemma co_first:
  assumes pair: "co_pair s p q" and run: "p_state (procs s q) = RUNNABLE" and gone: "\<And>n u. resume e n u = None"
  obtains h where "co_yield (p_pid (procs s q)) v e s = Gone h" and "co_waiting h p q"
    and "pending h p = (-1, scast v)"
    and "co_pair (h\<lparr>mach := rel (Proc_lock q) (mach h)\<rparr>) q p"
proof -
  have p: "table_free s" "cur (mach s) = Some p" "q \<noteq> p" "named s p" "named s q"
    using pair by (simp_all add: co_pair_def)
  let ?h = "co_handoff p q v s"
  let ?g = "?h\<lparr>mach := (mach ?h)\<lparr>switches := (Proc_context p, Proc_context q) # switches (mach ?h)\<rparr>\<rparr>"
  have tf: "p_trapframe (procs s p) \<noteq> p_trapframe (procs s t)" if "t \<noteq> p" for t
    using p(4) that by (metis named_def)
  have "\<not> co_refused s p (p_pid (procs s q))"
    using p(3-5) run co_targetI [OF p(5)] by (auto simp: co_refused_def named_def)
  then have "co_yield (p_pid (procs s q)) v e s = Gone ?g"
    using co_yield_run [OF p(1,2) tf, of "p_pid (procs s q)" v e] co_targetI [OF p(5)] gone
    by (simp add: co_switch_def swtch_def thenK_def bindK_def Let_def)
  moreover have "co_waiting ?g p q" "pending ?g p = (-1, scast v)"
    using p(3) run by (simp_all add: co_waiting_def pending_def co_handoff_def co_procs_def co_tfs_def set_reg_def)
  moreover have "co_pair (?g\<lparr>mach := rel (Proc_lock q) (mach ?g)\<rparr>) q p"
  proof -
    have "sane (on_cpu q (settle (mach s)))" "clean l (settle (mach s)) = clean l (mach s)" for l
      using p(1) by (simp_all add: table_free_def sane_def)
    moreover have "rel (Proc_lock q) (acq (Proc_lock q) (mach s)) = settle (mach s)"
      using p(1) by (simp add: table_free_def)
    ultimately show ?thesis
      using p run
      by (auto simp: co_pair_def table_free_def co_handoff_def co_procs_def rel_switches rel_on_cpu named_def
          split: if_splits)
  qed
  ultimately show ?thesis using that by simp
qed

section \<open>Properties\<close>

text \<open>
  C1. A first call \<^verbatim>\<open>co_yield(q, v0)\<close> parks the caller \<open>p\<close> and runs \<open>q\<close>; after that the two
  processes can call each other for any number of turns, and every run of turns with values
  \<open>v1, v2, ...\<close> returns \<open>v1, v0, v1, v2, ...\<close>: the first value sent back is delivered, and from
  then on each call returns the value of the call before the last one.
\<close>

theorem co_yield_session:
  assumes "co_pair s p q" and "p_state (procs s q) = RUNNABLE" and "\<forall>n u. resume e n u = None"
    and "-1 \<notin> set (v0 # v1 # vs)"
  shows "\<exists>h. co_yield (p_pid (procs s q)) v0 e s = Gone h \<and>
    (let u = h\<lparr>mach := rel (Proc_lock q) (mach h)\<rparr> in
     (\<exists>rs. co_run e q p u (v1 # vs) rs) \<and>
     (\<forall>rs. co_run e q p u (v1 # vs) rs \<longrightarrow> rs = v1 # take (length vs) (v0 # v1 # vs)))"
proof -
  have gone: "\<And>n u. resume e n u = None" using assms(3) by blast
  obtain h where h: "co_yield (p_pid (procs s q)) v0 e s = Gone h" "co_waiting h p q"
    "pending h p = (-1, scast v0)" "co_pair (h\<lparr>mach := rel (Proc_lock q) (mach h)\<rparr>) q p"
    using co_first [OF assms(1,2) gone] by blast
  let ?u = "h\<lparr>mach := rel (Proc_lock q) (mach h)\<rparr>"
  have w: "co_waiting ?u p q" "pending ?u p = (-1, scast v0)" using h(2,3) by (simp_all add: co_waiting_def)
  have "\<exists>rs. co_run e q p ?u (v1 # vs) rs" using co_run_total [OF h(4) w(1) gone] .
  moreover have "rs = v1 # take (length vs) (v0 # v1 # vs)" if "co_run e q p ?u (v1 # vs) rs" for rs
    using co_run_session [OF that gone w(1)] w(2) co_session_first [OF assms(4)] by simp
  ultimately show ?thesis using h(1) by (auto simp: Let_def)
qed

definition co_demo :: proc_st where
  "co_demo = proc_st0\<lparr>mach := on_cpu 0 mach0, procs := (\<lambda>_. proc0)(
     0 := proc0\<lparr>p_pid := 3, p_state := RUNNING, p_trapframe := 0x87f00000\<rparr>,
     1 := proc0\<lparr>p_pid := 4, p_state := RUNNABLE, p_trapframe := 0x87f01000\<rparr>)\<rparr>"

lemma co_demo_pair: "co_pair co_demo 0 1"
  by (auto simp: co_pair_def table_free_def named_def co_demo_def proc_st0_def proc0_def sane_def)

theorem co_yield_session_witness:
  "\<exists>h rs. co_yield 4 10 idle_env co_demo = Gone h \<and>
     co_run idle_env 1 0 (h\<lparr>mach := rel (Proc_lock 1) (mach h)\<rparr>) [20, 30, 40] rs \<and> rs = [20, 10, 20]"
  using co_yield_session [of co_demo 0 1 idle_env 10 20 "[30, 40]"] co_demo_pair
  by (fastforce simp: co_demo_def proc_st0_def Let_def)


text \<open>
  C2. \<^verbatim>\<open>co_yield\<close> either refuses, returning -1 and changing nothing, exactly when the pid is not
  positive, is the caller's own, names no process, names one that is killed, exiting, running or
  asleep for another reason, or the caller itself is killed; or it hands the CPU directly to
  the peer, in the state \<open>co_handoff\<close>, by a switch from the caller's context to the peer's.
\<close>

theorem co_yield_outcome:
  assumes "table_free s" and "cur (mach s) = Some p"
    and "\<forall>t. t \<noteq> p \<longrightarrow> p_trapframe (procs s p) \<noteq> p_trapframe (procs s t)"
    and "\<forall>n u. resume e n u = None"
  shows "co_yield pid v e s =
    (if co_refused s p pid then Ok (-1) (s\<lparr>mach := settle (mach s)\<rparr>)
     else let t = the (co_target s pid); h = co_handoff p t v s in
       Gone (h\<lparr>mach := (mach h)\<lparr>switches := (Proc_context p, Proc_context t) # switches (mach h)\<rparr>\<rparr>))"
  using co_yield_run [OF assms(1,2), of pid v e] assms(3,4)
  by (simp add: co_switch_def swtch_def thenK_def bindK_def Let_def)

theorem co_yield_outcome_witness:
  "co_yield 3 7 idle_env co_demo = Ok (-1) (co_demo\<lparr>mach := settle (mach co_demo)\<rparr>) \<and>
   (let h = co_handoff 0 1 7 co_demo in co_yield 4 7 idle_env co_demo =
      Gone (h\<lparr>mach := (mach h)\<lparr>switches := (Proc_context 0, Proc_context 1) # switches (mach h)\<rparr>\<rparr>))"
proof
  have pair: "table_free co_demo" "cur (mach co_demo) = Some 0"
    "\<forall>t. t \<noteq> 0 \<longrightarrow> p_trapframe (procs co_demo 0) \<noteq> p_trapframe (procs co_demo t)" "\<forall>n u. resume (idle_env :: proc_st env) n u = None"
    using co_demo_pair by (auto simp: co_pair_def co_demo_def proc_st0_def proc0_def)
  show "co_yield 3 7 idle_env co_demo = Ok (-1) (co_demo\<lparr>mach := settle (mach co_demo)\<rparr>)"
    using co_yield_outcome [OF pair, of 3 7] by (simp add: co_refused_def co_demo_def proc_st0_def)
  have "co_target co_demo 4 = Some 1"
    by (simp add: co_target_def co_demo_def proc_st0_def proc0_def upt_conv_Cons)
  moreover from this have "\<not> co_refused co_demo 0 4" by (simp add: co_refused_def co_demo_def proc_st0_def proc0_def)
  ultimately show "let h = co_handoff 0 1 7 co_demo in co_yield 4 7 idle_env co_demo =
      Gone (h\<lparr>mach := (mach h)\<lparr>switches := (Proc_context 0, Proc_context 1) # switches (mach h)\<rparr>\<rparr>)"
    using co_yield_outcome [OF pair, of 4 7] by (simp add: Let_def)
qed

end
