(* ===== verification/Pagetable.thy ===== *)
theory Pagetable
  imports Vm
begin

text \<open>
  Page tables as trees. \<open>node m pt is\<close> is the table page reached from the root \<open>pt\<close> by the
  indices \<open>is\<close>; \<open>pt_wf\<close> says that different paths lead to different pages. Two updates keep
  a tree well formed: a store into a last-level table, and linking in a zeroed page. They give
  what \<open>walk\<close>, \<open>mappages\<close> and \<open>uvmunmap\<close> do to the map from virtual pages to entries.
\<close>

section \<open>The tree in memory\<close>

fun node :: "mem \<Rightarrow> pagetable \<Rightarrow> u64 list \<Rightarrow> addr option" where
  "node m pt [] = Some pt"
| "node m pt (i # is) =
     (if valid (load64 m (slot pt i)) then node m (PTE2PA (load64 m (slot pt i))) is else None)"

definition path_ok :: "u64 list \<Rightarrow> bool" where
  "path_ok is \<longleftrightarrow> length is \<le> 2 \<and> (\<forall>i \<in> set is. i < 512)"

definition tables :: "mem \<Rightarrow> pagetable \<Rightarrow> addr set" where
  "tables m pt = {a. \<exists>is. path_ok is \<and> node m pt is = Some a}"

definition pt_wf :: "mem \<Rightarrow> pagetable \<Rightarrow> bool" where
  "pt_wf m pt \<longleftrightarrow> (\<forall>a \<in> tables m pt. page_aligned a \<and> a \<noteq> 0) \<and>
     (\<forall>is js a. path_ok is \<longrightarrow> path_ok js \<longrightarrow> node m pt is = Some a \<longrightarrow> node m pt js = Some a \<longrightarrow> is = js)"

definition vpath :: "u64 \<Rightarrow> u64 list" where
  "vpath va = [PX 2 va, PX 1 va]"

definition pte_slot :: "mem \<Rightarrow> pagetable \<Rightarrow> u64 \<Rightarrow> addr option" where
  "pte_slot m pt va = map_option (\<lambda>p. slot p (PX 0 va)) (node m pt (vpath va))"

definition pte_of :: "mem \<Rightarrow> pagetable \<Rightarrow> u64 \<Rightarrow> pte" where
  "pte_of m pt va = (case pte_slot m pt va of None \<Rightarrow> 0 | Some a \<Rightarrow> load64 m a)"

lemma unat_slot:
  assumes "page_aligned a" and "i < 512"
  shows "unat (slot a i) = unat a + 8 * unat i"
proof -
  have i: "unat i < 512" using assms(2) by (simp add: word_less_nat_alt)
  have "unat a + 4096 \<le> 2 ^ 64" by (rule page_aligned_end [OF assms(1)])
  moreover have "unat (8 * i) = 8 * unat i"
    using i by (simp add: unat_word_ariths)
  ultimately show ?thesis using i by (simp add: slot_def unat_word_ariths)
qed

lemma PGROUNDDOWN_slot [simp]: "page_aligned a \<Longrightarrow> i < 512 \<Longrightarrow> PGROUNDDOWN (slot a i) = a"
  using unat_slot [of a i]
  by (auto simp: word_unat_eq_iff unat_PGROUNDDOWN page_aligned_unat word_less_nat_alt)

lemma slot_8 [simp]: "page_aligned a \<Longrightarrow> i < 512 \<Longrightarrow> 8 dvd unat (slot a i)"
  using unat_slot [of a i] page_aligned_8 [of a] by simp

lemma slot_eq_iff:
  "page_aligned a \<Longrightarrow> page_aligned b \<Longrightarrow> i < 512 \<Longrightarrow> j < 512 \<Longrightarrow> slot a i = slot b j \<longleftrightarrow> a = b \<and> i = j"
  by (metis PGROUNDDOWN_slot add_left_cancel mult_left_cancel unat_slot word_unat_eq_iff zero_neq_numeral)

lemma PX_512 [simp]: "PX l va < 512"
  using unat_PX_less [of l va] by (simp add: word_less_nat_alt)

lemma node_append: "node m pt (is @ js) = (case node m pt is of None \<Rightarrow> None | Some a \<Rightarrow> node m a js)"
  by (induction "is" arbitrary: pt) auto

lemma path_ok_Nil [simp]: "path_ok []"
  by (simp add: path_ok_def)

lemma path_ok_appendD: "path_ok (is @ js) \<Longrightarrow> path_ok is"
  by (simp add: path_ok_def)

lemma path_ok_vpath [simp]: "path_ok (vpath va)"
  by (simp add: path_ok_def vpath_def)

lemma tablesI: "path_ok is \<Longrightarrow> node m pt is = Some a \<Longrightarrow> a \<in> tables m pt"
  by (auto simp: tables_def)

lemma vpath_tables: "node m pt (vpath va) = Some p \<Longrightarrow> p \<in> tables m pt"
  by (rule tablesI [OF path_ok_vpath])

lemma root_in_tables [simp]: "pt \<in> tables m pt"
  by (rule tablesI [of "[]"]) simp_all

lemma pt_wf_table: "pt_wf m pt \<Longrightarrow> a \<in> tables m pt \<Longrightarrow> page_aligned a \<and> a \<noteq> 0"
  by (simp add: pt_wf_def)

lemma pt_wf_node:
  "pt_wf m pt \<Longrightarrow> path_ok is \<Longrightarrow> node m pt is = Some a \<Longrightarrow> page_aligned a \<and> a \<noteq> 0"
  using pt_wf_table tablesI by blast

lemma pt_wf_inj:
  "pt_wf m pt \<Longrightarrow> path_ok is \<Longrightarrow> path_ok js \<Longrightarrow> node m pt is = Some a \<Longrightarrow> node m pt js = Some a \<Longrightarrow> is = js"
  by (simp add: pt_wf_def)

section \<open>Updates that keep the tree\<close>

text \<open>Memory that agrees on the entries of the inner tables has the same nodes.\<close>

lemma node_cong:
  assumes "path_ok is"
    and "\<And>js a i. path_ok (js @ [i]) \<Longrightarrow> node m pt js = Some a \<Longrightarrow> load64 m' (slot a i) = load64 m (slot a i)"
  shows "node m' pt is = node m pt is"
  using assms(1)
proof (induction "is" rule: rev_induct)
  case (snoc i js)
  then have "node m' pt js = node m pt js" using path_ok_appendD by blast
  then show ?case
    using assms(2) [OF snoc.prems] by (simp add: node_append split: option.split)
qed simp

lemma tables_cong:
  assumes "\<And>is. path_ok is \<Longrightarrow> node m' pt is = node m pt is"
  shows "tables m' pt = tables m pt" "pt_wf m' pt = pt_wf m pt"
proof -
  show t: "tables m' pt = tables m pt" using assms by (auto simp: tables_def)
  show "pt_wf m' pt = pt_wf m pt" using assms by (auto simp: pt_wf_def t)
qed

lemma node_frame:
  assumes "pt_wf m pt" and "\<forall>x. PGROUNDDOWN x \<in> tables m pt \<longrightarrow> m' x = m x" and "path_ok is"
  shows "node m' pt is = node m pt is"
proof (rule node_cong [OF assms(3)])
  fix js a i assume js: "path_ok (js @ [i])" "node m pt js = Some a"
  then have a: "a \<in> tables m pt" by (auto intro: tablesI path_ok_appendD)
  have i: "i < 512" using js(1) by (simp add: path_ok_def)
  then show "load64 m' (slot a i) = load64 m (slot a i)"
    using pt_wf_table [OF assms(1) a] a by (intro load64_cong) (auto simp: assms(2))
qed

lemma pt_frame:
  assumes "pt_wf m pt" and "\<forall>x. PGROUNDDOWN x \<in> tables m pt \<longrightarrow> m' x = m x"
  shows "tables m' pt = tables m pt" "pt_wf m' pt" "pte_slot m' pt va = pte_slot m pt va"
    "pte_of m' pt va = pte_of m pt va"
proof -
  note n = node_frame [OF assms]
  show "tables m' pt = tables m pt" "pt_wf m' pt" using tables_cong [OF n] assms(1) by simp_all
  show s: "pte_slot m' pt va = pte_slot m pt va" by (simp only: pte_slot_def n path_ok_vpath)
  show "pte_of m' pt va = pte_of m pt va"
  proof (cases "node m pt (vpath va)")
    case None
    then show ?thesis by (simp add: pte_of_def pte_slot_def n)
  next
    case (Some p)
    then have p: "p \<in> tables m pt" by (rule tablesI [rotated]) simp
    then have "load64 m' (slot p (PX 0 va)) = load64 m (slot p (PX 0 va))"
      using pt_wf_table [OF assms(1) p] by (intro load64_cong) (auto simp: assms(2))
    then show ?thesis using Some by (simp add: pte_of_def pte_slot_def n)
  qed
qed

text \<open>A store into a last-level table.\<close>

lemma pte_store:
  assumes wf: "pt_wf m pt" and a: "pte_slot m pt va = Some a" and va: "va < MAXVA"
  shows "pt_wf (store64 m a v) pt" "tables (store64 m a v) pt = tables m pt"
    "va' < MAXVA \<Longrightarrow> pte_slot (store64 m a v) pt va' = pte_slot m pt va'"
    "va' < MAXVA \<Longrightarrow> pte_of (store64 m a v) pt va' =
       (if PGROUNDDOWN va' = PGROUNDDOWN va then v else pte_of m pt va')"
    "PGROUNDDOWN x \<notin> tables m pt \<Longrightarrow> store64 m a v x = m x"
proof -
  obtain p where p: "node m pt (vpath va) = Some p" and ap: "a = slot p (PX 0 va)"
    using a by (auto simp: pte_slot_def)
  have pal: "page_aligned p" "p \<noteq> 0" using pt_wf_node [OF wf _ p] by simp_all
  have other: "load64 (store64 m a v) (slot q i) = load64 m (slot q i)"
    if "page_aligned q" "i < 512" "q \<noteq> p \<or> i \<noteq> PX 0 va" for q i
    using that pal by (intro load64_store64_other) (auto simp: ap slot_eq_iff)
  have n: "node (store64 m a v) pt is = node m pt is" if "path_ok is" for "is"
  proof (rule node_cong [OF that])
    fix js b i assume js: "path_ok (js @ [i])" "node m pt js = Some b"
    have "b \<noteq> p"
    proof
      assume "b = p"
      then have "js = vpath va"
        using pt_wf_inj [OF wf _ _ js(2), of "vpath va"] p js(1) path_ok_appendD by auto
      then show False using js(1) by (simp add: path_ok_def vpath_def)
    qed
    then show "load64 (store64 m a v) (slot b i) = load64 m (slot b i)"
      using pt_wf_node [OF wf path_ok_appendD [OF js(1)] js(2)] js(1)
      by (intro other) (auto simp: path_ok_def)
  qed
  show "pt_wf (store64 m a v) pt" "tables (store64 m a v) pt = tables m pt"
    using tables_cong [OF n] wf by simp_all
  show s: "pte_slot (store64 m a v) pt va' = pte_slot m pt va'" by (simp only: pte_slot_def n path_ok_vpath)
  show "pte_of (store64 m a v) pt va' = (if PGROUNDDOWN va' = PGROUNDDOWN va then v else pte_of m pt va')"
    if va': "va' < MAXVA"
  proof (cases "PGROUNDDOWN va' = PGROUNDDOWN va")
    case True
    then have "PX l va' = PX l va" for l by (rule PX_same_page)
    then have "pte_slot m pt va' = Some a" using a by (simp add: pte_slot_def vpath_def)
    then show ?thesis using True by (simp add: pte_of_def s)
  next
    case False
    then have "vpath va' \<noteq> vpath va \<or> PX 0 va' \<noteq> PX 0 va"
      using PX_inj_page [OF va' va] by (auto simp: vpath_def)
    then have "load64 (store64 m a v) (slot q (PX 0 va')) = load64 m (slot q (PX 0 va'))"
      if "node m pt (vpath va') = Some q" for q
      using that p pt_wf_inj [OF wf _ _ that, of "vpath va"] pt_wf_node [OF wf _ that]
      by (intro other) auto
    then show ?thesis
      using False by (simp add: pte_of_def s) (simp add: pte_slot_def split: option.split)
  qed
  show "PGROUNDDOWN x \<notin> tables m pt \<Longrightarrow> store64 m a v x = m x"
    using pal tablesI [OF _ p] by (intro store64_page) (auto simp: ap)
qed

text \<open>Linking in a zeroed page.\<close>

lemma load64_page_zero:
  assumes "page_aligned n" and "k < 512"
  shows "load64 (page_fill m n 0) (slot n k) = 0"
proof -
  have "read_bytes (page_fill m n 0) (slot n k) 8 = replicate 8 0"
    using assms by (intro nth_equalityI) (simp_all add: page_fill_in page_8_offset)
  then show ?thesis by (simp add: load64_def numeral_eq_Suc)
qed

lemma load64_page_other:
  assumes "page_aligned n" and "page_aligned b" and "k < 512" and "b \<noteq> n"
  shows "load64 (page_fill m n c) (slot b k) = load64 m (slot b k)"
  using assms by (intro load64_cong) (simp_all add: page_fill_other)

lemma valid_or_V [simp]: "valid (x OR 1)"
  by (auto simp: valid_def bit_eq_iff bit_simps intro!: exI [of _ 0])

lemma valid_link:
  assumes "page_aligned n"
  shows "PTE2PA (PA2PTE n OR PTE_V) = n" "valid (PA2PTE n OR PTE_V)"
  using assms by (simp_all add: PTE2PA_PA2PTE)

lemma node_link:
  assumes wf: "pt_wf m pt" and js: "path_ok (js @ [i])" "node m pt js = Some a"
    and inval: "\<not> valid (load64 m (slot a i))"
    and new: "PTE2PA v = n" "valid v" "load64 m' (slot a i) = v"
    and zero: "\<And>k. k < 512 \<Longrightarrow> load64 m' (slot n k) = 0"
    and other: "\<And>b k. b \<in> tables m pt \<Longrightarrow> k < 512 \<Longrightarrow> b \<noteq> a \<or> k \<noteq> i \<Longrightarrow>
      load64 m' (slot b k) = load64 m (slot b k)"
    and ok: "path_ok is"
  shows "node m' pt is = (if is = js @ [i] then Some n else node m pt is)"
  using ok
proof (induction "is" rule: rev_induct)
  case (snoc k ls)
  then have IH: "node m' pt ls = (if ls = js @ [i] then Some n else node m pt ls)"
    using path_ok_appendD by blast
  have k: "k < 512" using snoc.prems by (simp add: path_ok_def)
  show ?case
  proof (cases "ls = js @ [i]")
    case True
    have "node m pt ls = None" using True js(2) inval by (simp add: node_append)
    moreover have "node m' pt ls = Some n" using IH True by simp
    moreover have "node m pt (ls @ [k]) = None" "node m' pt (ls @ [k]) = None"
      unfolding node_append [of _ _ ls] using calculation zero [OF k] by (simp_all add: valid_def)
    ultimately show ?thesis using True by auto
  next
    case False
    show ?thesis
    proof (cases "node m pt ls")
      case None
      then show ?thesis using IH False js(2) by (auto simp: node_append)
    next
      case (Some b)
      have ls: "path_ok ls" using snoc.prems path_ok_appendD by blast
      have "b = a \<longleftrightarrow> ls = js"
        using pt_wf_inj [OF wf ls path_ok_appendD [OF js(1)], of a] Some js(2) by auto
      then show ?thesis
        using IH False Some new other [OF tablesI [OF ls Some] k] js(2)
        by (cases "ls = js \<and> k = i") (auto simp: node_append)
    qed
  qed
qed simp

lemma pt_link:
  assumes wf: "pt_wf m pt" and js: "path_ok (js @ [i])" "node m pt js = Some a"
    and inval: "\<not> valid (load64 m (slot a i))"
    and new: "page_aligned n" "n \<noteq> 0" "n \<notin> tables m pt"
  defines "m' \<equiv> store64 (page_fill (page_fill m n 5) n 0) (slot a i) (PA2PTE n OR PTE_V)"
  shows "pt_wf m' pt" "tables m' pt = insert n (tables m pt)" "node m' pt (js @ [i]) = Some n"
    "pte_of m' pt va = pte_of m pt va" "PGROUNDDOWN x \<notin> insert n (tables m pt) \<Longrightarrow> m' x = m x"
proof -
  have a: "a \<in> tables m pt" "page_aligned a" "a \<noteq> n"
    using tablesI [OF path_ok_appendD [OF js(1)] js(2)] pt_wf_table [OF wf] new by auto
  have i: "i < 512" using js(1) by (simp add: path_ok_def)
  have zero: "load64 m' (slot n k) = 0" if "k < 512" for k
    using that a i new by (simp add: m'_def load64_store64_other slot_eq_iff load64_page_zero)
  have other: "load64 m' (slot b k) = load64 m (slot b k)"
    if b: "b \<in> tables m pt" "k < 512" "b \<noteq> a \<or> k \<noteq> i" for b k
  proof -
    have "page_aligned b" "b \<noteq> n" using b(1) pt_wf_table [OF wf] new(3) by auto
    moreover from this have "slot a i \<noteq> slot b k" using b a i by (auto simp: slot_eq_iff)
    ultimately show ?thesis
      using b a i new by (simp add: m'_def load64_store64_other load64_page_other)
  qed
  note v = valid_link [OF new(1)]
  have n: "node m' pt is = (if is = js @ [i] then Some n else node m pt is)" if "path_ok is" for "is"
    by (rule node_link [OF wf js inval v _ zero other that]) (simp_all add: m'_def)
  have old: "node m pt (js @ [i]) = None" using js(2) inval by (simp add: node_append)
  show t: "tables m' pt = insert n (tables m pt)"
  proof (intro equalityI subsetI)
    fix b assume "b \<in> tables m' pt"
    then obtain "is" where "path_ok is" "node m' pt is = Some b" by (auto simp: tables_def)
    then show "b \<in> insert n (tables m pt)"
      using n [of "is"] by (cases "is = js @ [i]") (auto intro: tablesI)
  next
    fix b assume "b \<in> insert n (tables m pt)"
    then consider "b = n" | "is" where "path_ok is" "node m pt is = Some b" by (auto simp: tables_def)
    then show "b \<in> tables m' pt"
    proof cases
      case 1
      then show ?thesis using n [OF js(1)] by (auto intro: tablesI [OF js(1)])
    next
      case (2 "is")
      then have "node m' pt is = Some b" using n [OF 2(1)] old by auto
      then show ?thesis by (rule tablesI [OF 2(1)])
    qed
  qed
  show "pt_wf m' pt"
    unfolding pt_wf_def t
  proof (intro conjI ballI allI impI)
    show "page_aligned b" "b \<noteq> 0" if "b \<in> insert n (tables m pt)" for b
      using that new pt_wf_table [OF wf] by auto
    show "is = ks" if "path_ok is" "path_ok ks" "node m' pt is = Some b" "node m' pt ks = Some b"
      for "is" ks b
      using that n new(3) tablesI [of _ m pt] pt_wf_inj [OF wf that(1,2)]
      by (auto split: if_splits)
  qed
  show "node m' pt (js @ [i]) = Some n" using n js(1) by simp
  show "pte_of m' pt va = pte_of m pt va"
  proof (cases "node m pt (vpath va)")
    case None
    then show ?thesis
      using n [OF path_ok_vpath] zero by (simp add: pte_of_def pte_slot_def)
  next
    case (Some p)
    have "p \<noteq> a"
    proof
      assume "p = a"
      then have "vpath va = js"
        using pt_wf_inj [OF wf _ path_ok_appendD [OF js(1)]] Some js(2) by auto
      then show False using js(1) by (auto simp: path_ok_def vpath_def)
    qed
    then have "load64 m' (slot p (PX 0 va)) = load64 m (slot p (PX 0 va))"
      using Some by (intro other) (auto intro: vpath_tables)
    then show ?thesis
      using n [OF path_ok_vpath] Some old by (auto simp: pte_of_def pte_slot_def)
  qed
  show "PGROUNDDOWN x \<notin> insert n (tables m pt) \<Longrightarrow> m' x = m x" 
    using a i new by (subst m'_def, subst store64_page) (auto simp: page_fill_other)
qed

section \<open>Looking up\<close>

lemma walk_loop_lookup:
  "walk_loop level pt va False e s =
     Ok (case node (mem s) pt (map (\<lambda>l. PX l va) (rev [1..<Suc level])) of
           None \<Rightarrow> 0 | Some p \<Rightarrow> slot p (PX 0 va)) s"
proof (induction level arbitrary: pt)
  case 0
  then show ?case by (simp add: returnK_def)
next
  case (Suc level)
  have "map (\<lambda>l. PX l va) (rev [1..<Suc (Suc level)]) =
     PX (Suc level) va # map (\<lambda>l. PX l va) (rev [1..<Suc level])" by simp
  then show ?case using Suc by (simp add: monad_defs)
qed

lemma vpath_levels: "map (\<lambda>l. PX l va) (rev [Suc 0..<3]) = vpath va"
  by (simp add: vpath_def numeral_3_eq_3 numeral_2_eq_2)

lemma walk_lookup:
  "va < MAXVA \<Longrightarrow> walk pt va False e s =
     Ok (case pte_slot (mem s) pt va of None \<Rightarrow> 0 | Some a \<Rightarrow> a) s"
  using walk_loop_lookup [of 2 pt va e s]
  by (simp add: walk_def pte_slot_def vpath_levels not_le [symmetric] del: upt_Suc split: option.split)

lemma walk_panics: "MAXVA \<le> va \<Longrightarrow> walk pt va alloc e s = Panic ''walk''"
  by (simp add: walk_def panic_def)

lemma pte_slot_nonzero:
  assumes "pt_wf m pt" and "pte_slot m pt va = Some a"
  shows "a \<noteq> 0"
proof -
  obtain p where p: "node m pt (vpath va) = Some p" and a: "a = slot p (PX 0 va)"
    using assms(2) by (auto simp: pte_slot_def)
  have "page_aligned p" "p \<noteq> 0" using pt_wf_node [OF assms(1) _ p] by simp_all
  then show ?thesis using unat_slot [of p "PX 0 va"] by (auto simp: a word_unat_eq_iff)
qed

text \<open>The physical page a user access to \<open>va\<close> may use.\<close>

definition upage :: "mem \<Rightarrow> pagetable \<Rightarrow> u64 \<Rightarrow> addr" where
  "upage m pt va = (if va < MAXVA \<and> valid (pte_of m pt va) \<and> pte_of m pt va AND PTE_U \<noteq> 0
     then PTE2PA (pte_of m pt va) else 0)"

lemma walkaddr_run:
  assumes "pt_wf (mem s) pt"
  shows "walkaddr pt va e s = Ok (upage (mem s) pt va) s"
proof (cases "va < MAXVA")
  case True
  show ?thesis
  proof (cases "pte_slot (mem s) pt va")
    case None
    then show ?thesis
      using True by (simp add: walkaddr_def bindK_def walk_lookup returnK_def upage_def pte_of_def valid_def)
  next
    case (Some a)
    then show ?thesis
      using True pte_slot_nonzero [OF assms Some]
      by (auto simp: walkaddr_def bindK_def walk_lookup returnK_def upage_def pte_of_def valid_def getsK_def
          not_le)
  qed
qed (simp add: walkaddr_def upage_def returnK_def flip: not_less)

lemma wp_walkaddr: "pt_wf (mem s) pt \<Longrightarrow> wpK (walkaddr pt va) Q e s \<longleftrightarrow> Q (upage (mem s) pt va) s"
  by (simp add: wpK_def walkaddr_run)

section \<open>Creating entries\<close>

text \<open>
  A page table next to the pool of free pages, and what creating table pages may change: the
  entries stay as they were, memory outside the tables is not touched, and every page is still
  either a table or free.
\<close>

definition vm_ok :: "'z kmem_st_scheme env \<Rightarrow> pagetable \<Rightarrow> addr list \<Rightarrow> 'z kmem_st_scheme \<Rightarrow> bool" where
  "vm_ok e pt ps s \<longleftrightarrow> kmem_pool e ps s \<and> pt_wf (mem s) pt \<and> tables (mem s) pt \<inter> set ps = {}"

definition vm_step :: "pagetable \<Rightarrow> addr list \<Rightarrow> 'z kmem_st_scheme \<Rightarrow> addr list \<Rightarrow> 'z kmem_st_scheme \<Rightarrow> bool" where
  "vm_step pt ps s qs t \<longleftrightarrow> same_rest s t \<and>
     (\<exists>us. ps = us @ qs \<and> tables (mem t) pt = tables (mem s) pt \<union> set us) \<and>
     (\<forall>x. PGROUNDDOWN x \<notin> tables (mem t) pt \<longrightarrow> mem t x = mem s x)"

definition vm_grow :: "pagetable \<Rightarrow> addr list \<Rightarrow> 'z kmem_st_scheme \<Rightarrow> addr list \<Rightarrow> 'z kmem_st_scheme \<Rightarrow> bool" where
  "vm_grow pt ps s qs t \<longleftrightarrow>
     vm_step pt ps s qs t \<and> (\<forall>va. pte_of (mem t) pt va = pte_of (mem s) pt va)"

lemma vm_step_refl [simp]: "mem t = mem s \<Longrightarrow> same_rest s t \<Longrightarrow> vm_step pt ps s ps t"
  by (simp add: vm_step_def)

lemma vm_grow_refl [simp]: "mem t = mem s \<Longrightarrow> same_rest s t \<Longrightarrow> vm_grow pt ps s ps t"
  by (simp add: vm_grow_def)

lemma vm_step_trans [trans]:
  assumes "vm_step pt ps s qs t" and "vm_step pt qs t rs u"
  shows "vm_step pt ps s rs u"
proof -
  obtain us vs where uv: "ps = us @ qs" "tables (mem t) pt = tables (mem s) pt \<union> set us"
    "qs = vs @ rs" "tables (mem u) pt = tables (mem t) pt \<union> set vs"
    using assms by (auto simp: vm_step_def)
  have "mem u x = mem s x" if "PGROUNDDOWN x \<notin> tables (mem u) pt" for x
    using that uv(4) assms by (auto simp: vm_step_def)
  moreover have "same_rest s u"
    using assms by (auto simp: vm_step_def intro: same_rest_trans)
  ultimately show ?thesis
    using uv unfolding vm_step_def by (auto intro!: exI [of _ "us @ vs"])
qed

lemma vm_grow_trans: "vm_grow pt ps s qs t \<Longrightarrow> vm_grow pt qs t rs u \<Longrightarrow> vm_grow pt ps s rs u"
  by (auto simp: vm_grow_def intro: vm_step_trans)

lemma walk_link:
  assumes ok: "vm_ok e pt (n # qs) s" and js: "path_ok (js @ [i])" "node (mem s) pt js = Some a"
    and inval: "\<not> valid (load64 (mem s) (slot a i))"
    and t: "kmem_pool e qs t" "mem t = page_fill (mem s) n 5" "same_rest s t" "kpage e n" "n \<noteq> 0"
  defines "u \<equiv> t\<lparr>mem := store64 (page_fill (mem t) n 0) (slot a i) (PA2PTE n OR PTE_V)\<rparr>"
  shows "vm_ok e pt qs u \<and> vm_grow pt (n # qs) s qs u \<and> node (mem u) pt (js @ [i]) = Some n"
proof -
  have wf: "pt_wf (mem s) pt" and dis: "tables (mem s) pt \<inter> set (n # qs) = {}" "n \<notin> set qs"
    using ok kp.pool_distinct [of e "n # qs" s] by (auto simp: vm_ok_def)
  have al: "page_aligned n" using t(4) by (simp add: kpage_def)
  have fresh: "n \<notin> tables (mem s) pt" using dis(1) by auto
  note link = pt_link [OF wf js inval al t(5) fresh]
  have mem_u: "mem u = store64 (page_fill (page_fill (mem s) n 5) n 0) (slot a i) (PA2PTE n OR PTE_V)"
    by (simp add: u_def t(2))
  have "page_aligned a" "i < 512" "a \<in> tables (mem s) pt"
    using pt_wf_node [OF wf path_ok_appendD [OF js(1)] js(2)] js(1)
      tablesI [OF path_ok_appendD [OF js(1)] js(2)] by (auto simp: path_ok_def)
  then have "store64 (page_fill (mem t) n 0) (slot a i) (PA2PTE n OR PTE_V) x = mem t x"
    if "PGROUNDDOWN x \<in> set qs" for x
    using that dis al by (subst store64_page) (auto intro: page_fill_other)
  then have "kmem_pool e qs u" unfolding u_def by (rule kmem_pool_mem [OF t(1)])
  moreover have "same_rest s u" using t(3) by (simp add: u_def)
  ultimately show ?thesis
    using link dis unfolding vm_ok_def vm_grow_def vm_step_def mem_u
    by (auto intro!: exI [of _ "[n]"])
qed

definition walk_post ::
  "'z kmem_st_scheme env \<Rightarrow> pagetable \<Rightarrow> addr list \<Rightarrow> 'z kmem_st_scheme \<Rightarrow> u64 \<Rightarrow> addr \<Rightarrow> 'z kmem_st_scheme \<Rightarrow> bool"
where
  "walk_post e pt ps s va r t \<longleftrightarrow> (\<exists>qs. vm_ok e pt qs t \<and> vm_grow pt ps s qs t \<and>
     (if r = 0 then qs = [] else pte_slot (mem t) pt va = Some r))"

lemma walk_post_grow: "vm_grow pt ps s qs t \<Longrightarrow> walk_post e pt qs t va r u \<Longrightarrow> walk_post e pt ps s va r u"
  by (auto simp: walk_post_def intro: vm_grow_trans)

lemma walk_loop_alloc:
  assumes "vm_ok e pt ps s" and "node (mem s) pt js = Some p"
    and "js @ map (\<lambda>l. PX l va) (rev [1..<Suc level]) = vpath va"
  shows "wpK (walk_loop level p va True)
     (walk_post e pt ps s va) e s"
  using assms
proof (induction level arbitrary: ps s js p)
  case 0
  then have "pte_slot (mem s) pt va = Some (slot p (PX 0 va))" by (simp add: pte_slot_def)
  then show ?case
    using 0 pte_slot_nonzero [of "mem s" pt va] by (auto simp: wp walk_post_def vm_ok_def intro!: exI [of _ ps])
next
  case (Suc level)
  let ?i = "PX (Suc level) va" and ?pte = "load64 (mem s) (slot p (PX (Suc level) va))"
  have path: "(js @ [?i]) @ map (\<lambda>l. PX l va) (rev [1..<Suc level]) = vpath va"
    using Suc.prems(3) by simp
  then have okp: "path_ok (js @ [?i])" using path_ok_vpath [of va] path_ok_appendD by metis
  show ?case
  proof (cases "valid ?pte")
    case True
    then have "node (mem s) pt (js @ [?i]) = Some (PTE2PA ?pte)"
      using Suc.prems(2) by (simp add: node_append)
    from Suc.IH [OF Suc.prems(1) this path] show ?thesis using True by (simp add: wp)
  next
    case False
    have pool: "kmem_pool e ps s" using Suc.prems(1) by (simp add: vm_ok_def)
    let ?Q = "walk_post e pt ps s va"
    have "wpK kalloc (\<lambda>page t. (page = 0 \<longrightarrow> ?Q 0 t) \<and> (page \<noteq> 0 \<longrightarrow>
       wpK (walk_loop level page va True) ?Q e
         (t\<lparr>mem := store64 (page_fill (mem t) page 0) (slot p ?i) (PA2PTE page OR PTE_V)\<rparr>))) e s"
    proof (rule kalloc_wp [OF pool])
      fix t assume "ps = []" "kmem_pool e [] t" "mem t = mem s" "same_rest s t"
      then show "(0 = (0 :: addr) \<longrightarrow> ?Q 0 t) \<and> (0 \<noteq> (0 :: addr) \<longrightarrow> wpK (walk_loop level 0 va True) ?Q e
         (t\<lparr>mem := store64 (page_fill (mem t) 0 0) (slot p ?i) (PA2PTE 0 OR PTE_V)\<rparr>))"
        using Suc.prems(1) by (auto simp: vm_ok_def walk_post_def)
    next
      fix n qs t
      assume n: "ps = n # qs" "kpage e n" "n \<noteq> 0" "n \<notin> set qs" "kmem_pool e qs t"
        "mem t = page_fill (mem s) n 5" "same_rest s t"
      let ?u = "t\<lparr>mem := store64 (page_fill (mem t) n 0) (slot p ?i) (PA2PTE n OR PTE_V)\<rparr>"
      have "vm_ok e pt qs ?u \<and> vm_grow pt ps s qs ?u \<and> node (mem ?u) pt (js @ [?i]) = Some n"
        using Suc.prems(1) n walk_link [OF _ okp Suc.prems(2) False, of e n qs t] by simp
      then have "vm_grow pt ps s qs ?u"
        and "wpK (walk_loop level n va True) (walk_post e pt qs ?u va) e ?u"
        using Suc.IH [OF _ _ path] by blast+
      then show "(n = 0 \<longrightarrow> ?Q 0 t) \<and> (n \<noteq> 0 \<longrightarrow> wpK (walk_loop level n va True) ?Q e ?u)"
        using n(3) by (auto elim!: wpK_mono intro: walk_post_grow)
    qed
    then show ?thesis
      using False by (simp add: wp upd_mem_def memset_page)
  qed
qed

lemma walk_alloc:
  assumes "vm_ok e pt ps s" and "va < MAXVA"
  shows "wpK (walk pt va True) (walk_post e pt ps s va) e s"
  using walk_loop_alloc [OF assms(1), of "[]" pt va 2] assms(2)
  by (simp add: walk_def vpath_levels del: upt_Suc flip: not_less)

text \<open>A store into the entry of a page.\<close>

lemma vm_ok_store:
  fixes v :: pte
  assumes ok: "vm_ok e pt ps s" and a: "pte_slot (mem s) pt va = Some a" and va: "va < MAXVA"
  defines "t \<equiv> s\<lparr>mem := store64 (mem s) a v\<rparr>"
  shows "vm_ok e pt ps t" "vm_step pt ps s ps t"
    "va' < MAXVA \<Longrightarrow> pte_of (mem t) pt va' =
       (if PGROUNDDOWN va' = PGROUNDDOWN va then v else pte_of (mem s) pt va')"
proof -
  have wf: "pt_wf (mem s) pt" using ok by (simp add: vm_ok_def)
  note st = pte_store [OF wf a va]
  have "kmem_pool e ps t"
    unfolding t_def using ok by (intro kmem_pool_mem st(5)) (auto simp: vm_ok_def)
  then show "vm_ok e pt ps t" "vm_step pt ps s ps t"
    using st ok by (auto simp: vm_ok_def vm_step_def t_def)
  show "pte_of (mem t) pt va' = (if PGROUNDDOWN va' = PGROUNDDOWN va then v else pte_of (mem s) pt va')"
    if "va' < MAXVA" using st(4) [OF that] by (simp add: t_def)
qed

section \<open>Mapping a range\<close>

text \<open>The entries after \<open>k\<close> pages from \<open>a\<close> on have been mapped to the pages from \<open>pa\<close> on.\<close>

definition mapped :: "mem \<Rightarrow> mem \<Rightarrow> pagetable \<Rightarrow> u64 \<Rightarrow> u64 \<Rightarrow> u64 \<Rightarrow> nat \<Rightarrow> bool" where
  "mapped m m' pt a pa perm k \<longleftrightarrow> (\<forall>va < MAXVA. pte_of m' pt va =
     (if unat (PGROUNDDOWN va - a) < 4096 * k
      then PA2PTE (pa + (PGROUNDDOWN va - a)) OR perm OR PTE_V else pte_of m pt va))"

lemma mapped_0 [simp]: "mapped m m pt a pa perm 0"
  by (simp add: mapped_def)

lemma page_diff_step:
  assumes "page_aligned a" and "page_aligned b" and "4096 * k < 2 ^ 64"
  shows "unat (b - a) < 4096 * Suc k \<longleftrightarrow> unat (b - a) < 4096 * k \<or> b = page_at a k"
proof -
  have "unat (b - a) mod 4096 = 0"
    using unat_add_mod [of "b - a" a] assms(1,2)
    by (simp add: page_aligned_unat mod_eq_0_iff_dvd dvd_add_left_iff)
  then obtain q where "unat (b - a) = 4096 * q" by auto
  then have "unat (b - a) < 4096 * Suc k \<longleftrightarrow> unat (b - a) < 4096 * k \<or> unat (b - a) = 4096 * k"
    by (auto simp: less_Suc_eq)
  moreover have "unat (b - a) = 4096 * k \<longleftrightarrow> b = page_at a k"
    using unat_page_at_diff [OF assms(3), of a]
    by (metis add.commute diff_add_cancel word_unat_eq_iff)
  ultimately show ?thesis by simp
qed

lemma mapped_Suc:
  assumes "mapped m m' pt a pa perm k" and "page_aligned a" and "4096 * k < 2 ^ 64"
    and "\<And>va. va < MAXVA \<Longrightarrow> pte_of m'' pt va = (if PGROUNDDOWN va = page_at a k
       then PA2PTE (page_at pa k) OR perm OR PTE_V else pte_of m' pt va)"
  shows "mapped m m'' pt a pa perm (Suc k)"
  unfolding mapped_def
proof (intro allI impI)
  fix va assume "va < MAXVA"
  then show "pte_of m'' pt va = (if unat (PGROUNDDOWN va - a) < 4096 * Suc k
      then PA2PTE (pa + (PGROUNDDOWN va - a)) OR perm OR PTE_V else pte_of m pt va)"
    using page_diff_step [OF assms(2) _ assms(3), of "PGROUNDDOWN va"] assms(1) assms(4) [of va]
    by (auto simp: mapped_def)
qed

definition map_inv ::
  "'z kmem_st_scheme env \<Rightarrow> pagetable \<Rightarrow> addr list \<Rightarrow> 'z kmem_st_scheme \<Rightarrow> u64 \<Rightarrow> u64 \<Rightarrow> u64 \<Rightarrow> nat \<Rightarrow>
   addr list \<Rightarrow> 'z kmem_st_scheme \<Rightarrow> bool" where
  "map_inv e pt ps s a pa perm k qs t \<longleftrightarrow>
     vm_ok e pt qs t \<and> vm_step pt ps s qs t \<and> mapped (mem s) (mem t) pt a pa perm k"

definition map_next ::
  "'z kmem_st_scheme env \<Rightarrow> pagetable \<Rightarrow> addr list \<Rightarrow> 'z kmem_st_scheme \<Rightarrow> u64 \<Rightarrow> u64 \<Rightarrow> u64 \<Rightarrow> u64 \<Rightarrow> nat \<Rightarrow>
   (u64 \<times> u64) + i32 \<Rightarrow> 'z kmem_st_scheme \<Rightarrow> bool" where
  "map_next e pt ps s a pa perm fin k r u \<longleftrightarrow> (\<exists>rs.
     (if r = Inr (-1) then rs = [] \<and> map_inv e pt ps s a pa perm k rs u
      else map_inv e pt ps s a pa perm (Suc k) rs u \<and>
        r = (if page_at a k = fin then Inr 0
             else Inl (page_at a (Suc k), page_at pa (Suc k)))))"

lemma map_body_run:
  assumes inv: "map_inv e pt ps s a pa perm k qs t" and al: "page_aligned a"
    and k: "4096 * k < 2 ^ 64" "page_at a k < MAXVA"
    and free: "\<not> valid (pte_of (mem s) pt (page_at a k))"
  shows "wpK (map_body pt perm fin (page_at a k, page_at pa k))
     (map_next e pt ps s a pa perm fin k) e t"
proof -
  let ?va = "page_at a k" and ?pa = "page_at pa k"
  let ?v = "PA2PTE ?pa OR perm OR PTE_V"
  have va_al: "PGROUNDDOWN ?va = ?va"
    using al by (simp add: PGROUNDDOWN_aligned)
  have inv': "vm_ok e pt qs t" "vm_step pt ps s qs t" "mapped (mem s) (mem t) pt a pa perm k"
    using inv by (simp_all add: map_inv_def)
  have same: "pte_of (mem t) pt ?va = pte_of (mem s) pt ?va"
    using inv'(3) k va_al by (simp add: mapped_def unat_page_at_diff)
  have "wpK (walk pt ?va True) (\<lambda>r u. (r = 0 \<longrightarrow> map_next e pt ps s a pa perm fin k (Inr (-1)) u) \<and>
     (r \<noteq> 0 \<longrightarrow> \<not> valid (load64 (mem u) r) \<and> (\<exists>rs. map_inv e pt ps s a pa perm (Suc k) rs
        (u\<lparr>mem := store64 (mem u) r ?v\<rparr>)))) e t"
  proof (rule wpK_mono [OF walk_alloc [OF inv'(1) k(2)]], intro conjI impI)
    fix r u assume "walk_post e pt qs t ?va r u"
    then obtain rs where rs: "vm_ok e pt rs u" "vm_grow pt qs t rs u"
      "if r = 0 then rs = [] else pte_slot (mem u) pt ?va = Some r" by (auto simp: walk_post_def)
    have step: "vm_step pt ps s rs u" using inv'(2) rs(2) vm_step_trans by (auto simp: vm_grow_def)
    have map_u: "mapped (mem s) (mem u) pt a pa perm k"
      using inv'(3) rs(2) by (simp add: mapped_def vm_grow_def)
    {
      assume "r = 0"
      then show "map_next e pt ps s a pa perm fin k (Inr (-1)) u"
        using rs step map_u by (simp add: map_next_def map_inv_def)
    next
      assume "r \<noteq> 0"
      then have r: "pte_slot (mem u) pt ?va = Some r" using rs(3) by simp
      have "load64 (mem u) r = pte_of (mem u) pt ?va" by (simp only: pte_of_def r option.case)
      then show "\<not> valid (load64 (mem u) r)"
        using free same rs(2) by (simp add: vm_grow_def)
      note st = vm_ok_store [OF rs(1) r k(2), where v = ?v]
      have "mapped (mem s) (store64 (mem u) r ?v) pt a pa perm (Suc k)"
        by (rule mapped_Suc [OF map_u al k(1)]) (use st(3) va_al in simp)
      then show "\<exists>rs. map_inv e pt ps s a pa perm (Suc k) rs (u\<lparr>mem := store64 (mem u) r ?v\<rparr>)"
        using st(1,2) vm_step_trans [OF step] by (auto simp: map_inv_def)
    }
  qed
  then show ?thesis
    unfolding map_body_def prod.case wp
    by (rule wpK_mono) (auto simp: wp upd_mem_def map_next_def valid_def)
qed

lemma mappages_run:
  assumes ok: "vm_ok e pt ps s" and sz: "sz \<noteq> 0" and a: "PGROUNDDOWN va = a"
    and fin: "PGROUNDDOWN (va + sz - 1) = page_at a n"
    and lim: "unat a + 4096 * n < 2 ^ 38"
    and free: "\<And>k. k \<le> n \<Longrightarrow> \<not> valid (pte_of (mem s) pt (page_at a k))"
  shows "wpK (mappages pt va sz pa perm) (\<lambda>r t. \<exists>qs k. map_inv e pt ps s a pa perm k qs t \<and>
     (r = 0 \<and> k = Suc n \<or> r = -1 \<and> qs = [] \<and> k \<le> n)) e s"
proof -
  let ?fin = "page_at a n"
  define I where "I = (\<lambda>(x, y) t. \<exists>k qs. k \<le> n \<and> x = page_at a k \<and> y = page_at pa k \<and>
     map_inv e pt ps s a pa perm k qs t)"
  have al: "page_aligned a" using a by auto
  have u: "unat (page_at a k) = unat a + 4096 * k" if "k \<le> n" for k
    using that lim by (intro unat_page_at) simp
  have "wpK (loopK (map_body pt perm ?fin) (a, pa)) (\<lambda>r t. \<exists>qs k. map_inv e pt ps s a pa perm k qs t \<and>
     (r = 0 \<and> k = Suc n \<or> r = -1 \<and> qs = [] \<and> k \<le> n)) e s"
  proof (rule wp_loop_measure [where I = I and f = "\<lambda>(x, _) _. unat ?fin - unat x"])
    show "I (a, pa) s" using ok by (auto simp: I_def map_inv_def intro!: exI [of _ 0] exI [of _ ps])
  next
    fix j t assume "I j t"
    then obtain k qs where k: "k \<le> n" "j = (page_at a k, page_at pa k)"
      "map_inv e pt ps s a pa perm k qs t" by (auto simp: I_def)
    have "page_at a k < MAXVA" "4096 * k < 2 ^ 64"
      using u [OF k(1)] k(1) lim by (simp_all add: word_less_nat_alt)
    then have "wpK (map_body pt perm ?fin j) (map_next e pt ps s a pa perm ?fin k) e t"
      unfolding k(2) using k(1) by (intro map_body_run [OF k(3) al] free)
    then show "wpK (map_body pt perm ?fin j) (\<lambda>r v. case r of
        Inl c \<Rightarrow> I c v \<and> (\<lambda>(x, _) _. unat ?fin - unat x) c v < (\<lambda>(x, _) _. unat ?fin - unat x) j t
      | Inr r \<Rightarrow> \<exists>qs k. map_inv e pt ps s a pa perm k qs v \<and>
          (r = 0 \<and> k = Suc n \<or> r = -1 \<and> qs = [] \<and> k \<le> n)) e t"
    proof (rule wpK_mono)
      fix r v assume nxt: "map_next e pt ps s a pa perm ?fin k r v"
      have "k = n \<longleftrightarrow> page_at a k = ?fin"
        using u [OF k(1)] u [of n] by (metis add_left_cancel le_refl mult_left_cancel zero_neq_numeral)
      then show "case r of
        Inl c \<Rightarrow> I c v \<and> (\<lambda>(x, _) _. unat ?fin - unat x) c v < (\<lambda>(x, _) _. unat ?fin - unat x) j t
      | Inr r \<Rightarrow> \<exists>qs k. map_inv e pt ps s a pa perm k qs v \<and>
          (r = 0 \<and> k = Suc n \<or> r = -1 \<and> qs = [] \<and> k \<le> n)"
        using nxt k u [of "Suc k"] u [of k] u [of n] unfolding map_next_def I_def
        by (cases "r = Inr (-1)"; cases "k = n") (auto intro: exI [of _ "Suc k"])
    qed
  qed
  then show ?thesis using sz a fin by (simp add: mappages_def)
qed

end
