(* ===== verification/Usermem.thy ===== *)
theory Usermem
  imports Pagetable
begin

text \<open>
  User memory as the copies of \<^verbatim>\<open>kernel/vm.c\<close> see it: \<open>ubyte m pt va\<close> is the byte a
  user access to \<open>va\<close> through the page table \<open>pt\<close> reads. \<^verbatim>\<open>copyout\<close> writes a run of bytes
  there, \<^verbatim>\<open>copyin\<close> reads one, both across page boundaries, and both refuse exactly the ranges
  that leave the user's mapped pages.
\<close>

definition ubyte :: "mem \<Rightarrow> pagetable \<Rightarrow> u64 \<Rightarrow> byte option" where
  "ubyte m pt va =
     (if upage m pt va = 0 then None else Some (m (upage m pt va + (va - PGROUNDDOWN va))))"

definition upages :: "mem \<Rightarrow> pagetable \<Rightarrow> addr set" where
  "upages m pt = {p. p \<noteq> 0 \<and> (\<exists>va. upage m pt va = p)}"

text \<open>User pages are RAM, none is a page table, and no two user addresses share one.\<close>

definition uspace_ok :: "mem \<Rightarrow> pagetable \<Rightarrow> bool" where
  "uspace_ok m pt \<longleftrightarrow> pt_wf m pt \<and> upages m pt \<inter> tables m pt = {} \<and>
     (\<forall>p \<in> upages m pt. p < PHYSTOP) \<and>
     (\<forall>va vb. upage m pt va = upage m pt vb \<longrightarrow> upage m pt va \<noteq> 0 \<longrightarrow> PGROUNDDOWN va = PGROUNDDOWN vb)"

lemma page_aligned_PTE2PA [simp]: "page_aligned (PTE2PA v)"
proof -
  have "take_bit 12 (PTE2PA v) = 0"
    by (rule bit_word_eqI) (simp add: bit_take_bit_iff bit_PTE2PA)
  then show ?thesis by (simp add: page_aligned_bits)
qed

lemma page_aligned_upage [simp]: "page_aligned (upage m pt va)"
proof -
  have "page_aligned 0" by (simp add: page_aligned_unat)
  then show ?thesis by (simp add: upage_def)
qed

lemma PGROUNDDOWN_MAXVA: "PGROUNDDOWN va < MAXVA \<longleftrightarrow> va < MAXVA"
proof -
  have "unat va div 4096 * 4096 < 2 ^ 38 \<longleftrightarrow> unat va < 2 ^ 38" by (simp) linarith
  then show ?thesis by (simp add: word_less_nat_alt unat_PGROUNDDOWN)
qed

lemma upage_same_page:
  assumes "PGROUNDDOWN va = PGROUNDDOWN vb"
  shows "upage m pt va = upage m pt vb"
proof -
  have "va < MAXVA \<longleftrightarrow> vb < MAXVA" using PGROUNDDOWN_MAXVA [of va] PGROUNDDOWN_MAXVA [of vb] assms by simp
  moreover have "pte_of m pt va = pte_of m pt vb"
    using PX_same_page [OF assms] by (simp add: pte_of_def pte_slot_def vpath_def)
  ultimately show ?thesis by (simp add: upage_def)
qed

lemma upage_PGROUNDDOWN [simp]: "upage m pt (PGROUNDDOWN va) = upage m pt va"
  by (rule upage_same_page) (simp add: PGROUNDDOWN_aligned)

lemma page_offset: "unat (va - PGROUNDDOWN va) < 4096"
  by (simp add: page_offset_iff)

lemma PGROUNDDOWN_phys:
  assumes "page_aligned p"
  shows "PGROUNDDOWN (p + (va - PGROUNDDOWN va)) = p"
  using page_offset [of va] page_offset_iff [OF assms, of "p + (va - PGROUNDDOWN va)"] by simp

lemma uspace_frame:
  assumes "uspace_ok m pt" and "\<forall>x. PGROUNDDOWN x \<in> tables m pt \<longrightarrow> m' x = m x"
  shows "uspace_ok m' pt" "upage m' pt va = upage m pt va" "upages m' pt = upages m pt"
    "tables m' pt = tables m pt"
proof -
  have wf: "pt_wf m pt" using assms(1) by (simp add: uspace_ok_def)
  note fr = pt_frame [OF wf assms(2)]
  show u: "upage m' pt va = upage m pt va" for va by (simp add: upage_def fr(4))
  show us: "upages m' pt = upages m pt" by (simp add: upages_def u)
  show "tables m' pt = tables m pt" by (rule fr(1))
  show "uspace_ok m' pt" using assms(1) fr(2) unfolding uspace_ok_def us u fr(1) by (elim conjE, intro conjI)
qed

section \<open>Writing within one page\<close>

definition page_room :: "u64 \<Rightarrow> nat" where
  "page_room va = 4096 - unat (va - PGROUNDDOWN va)"

lemma page_room_pos: "0 < page_room va"
  using page_offset [of va] by (simp add: page_room_def)

lemma within_page:
  assumes "unat (v - va) < page_room va"
  shows "PGROUNDDOWN v = PGROUNDDOWN va"
proof -
  have "unat ((v - va) + (va - PGROUNDDOWN va)) = unat (v - va) + unat (va - PGROUNDDOWN va)"
    by (subst unat_word_ariths(1)) (use assms page_offset [of va] in \<open>simp add: page_room_def\<close>)
  then have "unat (v - PGROUNDDOWN va) < 4096"
    using assms by (simp add: page_room_def)
  then show ?thesis using page_offset_iff [of "PGROUNDDOWN va" v] by simp
qed

lemma write_in_page:
  assumes "page_aligned p" and "length bs \<le> page_room va" and "PGROUNDDOWN x \<noteq> p"
  shows "write_bytes m (p + (va - PGROUNDDOWN va)) bs x = m x"
proof (rule write_bytes_out, rule ccontr)
  let ?o = "va - PGROUNDDOWN va"
  assume "\<not> length bs \<le> unat (x - (p + ?o))"
  then have "unat (x - (p + ?o)) + unat ?o < 4096" using assms(2) by (simp add: page_room_def)
  then have "unat ((x - (p + ?o)) + ?o) < 4096" by (subst unat_word_ariths(1)) simp
  then have "unat (x - p) < 4096" by simp
  then show False using assms(1,3) page_offset_iff by blast
qed

lemma uwrite_page:
  assumes ok: "uspace_ok m pt" and pa: "upage m pt va = pa" "pa \<noteq> 0"
    and len: "length bs \<le> page_room va"
  defines "m' \<equiv> write_bytes m (pa + (va - PGROUNDDOWN va)) bs"
  shows "PGROUNDDOWN x \<noteq> pa \<Longrightarrow> m' x = m x"
    and "uspace_ok m' pt" "upage m' pt v = upage m pt v" "upages m' pt = upages m pt"
    and "ubyte m' pt v = (if unat (v - va) < length bs then Some (bs ! unat (v - va)) else ubyte m pt v)"
proof -
  have al: "page_aligned pa" using pa(1) page_aligned_upage by blast
  have out: "m' x = m x" if "PGROUNDDOWN x \<noteq> pa" for x
    unfolding m'_def by (rule write_in_page [OF al len that])
  then show "PGROUNDDOWN x \<noteq> pa \<Longrightarrow> m' x = m x" .
  have "pa \<in> upages m pt" using pa by (auto simp: upages_def)
  then have "\<forall>x. PGROUNDDOWN x \<in> tables m pt \<longrightarrow> m' x = m x"
    using ok by (auto simp: uspace_ok_def intro!: out)
  note fr = uspace_frame [OF ok this]
  show "uspace_ok m' pt" "upage m' pt v = upage m pt v" "upages m' pt = upages m pt" by (simp_all add: fr)
  show "ubyte m' pt v = (if unat (v - va) < length bs then Some (bs ! unat (v - va)) else ubyte m pt v)"
  proof (cases "PGROUNDDOWN v = PGROUNDDOWN va")
    case True
    have "pa + (v - PGROUNDDOWN v) - (pa + (va - PGROUNDDOWN va)) = v - va" using True by simp
    then have "m' (pa + (v - PGROUNDDOWN v)) =
       (if unat (v - va) < length bs then bs ! unat (v - va) else m (pa + (v - PGROUNDDOWN v)))"
      by (simp only: m'_def write_bytes_def)
    moreover have "upage m pt v = pa" using upage_same_page [OF True, of m pt] pa by simp
    ultimately show ?thesis using pa(2) by (simp add: ubyte_def fr(2))
  next
    case False
    then have far: "\<not> unat (v - va) < length bs" using within_page [of v va] len by auto
    have "upage m pt v = 0 \<or> upage m pt v \<noteq> pa" using ok False pa by (auto simp: uspace_ok_def)
    then show ?thesis using far by (auto simp: ubyte_def fr(2) out PGROUNDDOWN_phys)
  qed
qed

section \<open>Copying out\<close>

definition kbytes :: "mem \<Rightarrow> kptr \<Rightarrow> nat \<Rightarrow> byte list" where
  "kbytes m src n = (case src of Kmem a \<Rightarrow> read_bytes m a n | Kobj bs \<Rightarrow> take n bs)"

text \<open>A kernel source of \<open>n\<close> bytes that is not itself user memory.\<close>

definition src_ok :: "mem \<Rightarrow> pagetable \<Rightarrow> kptr \<Rightarrow> nat \<Rightarrow> bool" where
  "src_ok m pt src n = (case src of
     Kmem a \<Rightarrow> unat a + n < 2 ^ 64 \<and> (\<forall>i<n. PGROUNDDOWN (a + of_nat i) \<notin> upages m pt)
   | Kobj bs \<Rightarrow> n \<le> length bs)"

lemma length_kbytes [simp]: "src_ok m pt src n \<Longrightarrow> length (kbytes m src n) = n"
  by (auto simp: kbytes_def src_ok_def split: kptr.splits)

lemma unat_chunk: "unat (chunk va len) = min (page_room va) (unat len)"
proof -
  have "unat (4096 - (va - PGROUNDDOWN va)) = page_room va"
    using page_offset [of va] by (subst unat_sub) (simp_all add: word_le_nat_alt page_room_def)
  then show ?thesis by (auto simp: chunk_def Let_def word_less_nat_alt min_def)
qed

lemma chunk_next: "unat (chunk va len) < unat len \<Longrightarrow> PGROUNDDOWN va + 4096 = va + chunk va len"
proof -
  assume "unat (chunk va len) < unat len"
  then have "\<not> 4096 - (va - PGROUNDDOWN va) > len" by (auto simp: chunk_def Let_def split: if_splits)
  then show ?thesis by (simp add: chunk_def Let_def)
qed

lemma upage_end:
  assumes "uspace_ok m pt" and "upage m pt va = pa" and "pa \<noteq> 0"
  shows "unat (pa + (va - PGROUNDDOWN va)) + page_room va < 2 ^ 64"
proof -
  have "pa < PHYSTOP" using assms by (auto simp: uspace_ok_def upages_def)
  then have "unat pa < 0x88000000" by (simp add: word_less_nat_alt)
  then show ?thesis
    using page_offset [of va] by (simp add: unat_word_ariths page_room_def)
qed

lemma kptr_read_write:
  assumes "src_ok m pt src (unat len)" and "unat n \<le> unat len" and "unat n \<le> 4096"
    and "unat dst + unat n < 2 ^ 64"
  shows "kptr_read m dst src n = write_bytes m dst (kbytes m src (unat n))"
proof (cases src)
  case (Kmem a)
  have "unat (ucast n :: u32) = unat n" using assms(3) by (simp add: unsigned_ucast_eq take_bit_nat_eq_self)
  then show ?thesis
    using assms Kmem by (simp add: kptr_read_def kbytes_def src_ok_def memmove_write)
qed (simp add: kptr_read_def kbytes_def)

lemma src_step:
  assumes "src_ok m pt src N" and n: "unat n \<le> N"
    and "upages m' pt = upages m pt" and same: "\<forall>x. PGROUNDDOWN x \<notin> upages m pt \<longrightarrow> m' x = m x"
  shows "src_ok m' pt (src_advance src n) (N - unat n)"
    "kbytes m' (src_advance src n) (N - unat n) = drop (unat n) (kbytes m src N)"
    "kbytes m src (unat n) = take (unat n) (kbytes m src N)"
proof (atomize (full), cases src)
  case (Kmem a)
  have src: "unat a + N < 2 ^ 64" "\<And>i. i < N \<Longrightarrow> PGROUNDDOWN (a + of_nat i) \<notin> upages m pt"
    using assms(1) Kmem by (simp_all add: src_ok_def)
  have ai: "a + n + of_nat i = a + of_nat (unat n + i)" for i by (simp add: add.assoc)
  have far: "PGROUNDDOWN (a + n + of_nat i) \<notin> upages m pt" if "i < N - unat n" for i
    unfolding ai using that by (intro src(2)) simp
  have "unat (a + n) = unat a + unat n" using src(1) n by (simp add: unat_word_ariths)
  moreover have "read_bytes m' (a + n) (N - unat n) = drop (unat n) (read_bytes m a N)"
    using far same by (intro nth_equalityI) (simp_all add: add.assoc)
  moreover have "read_bytes m a (unat n) = take (unat n) (read_bytes m a N)"
    using n by (intro nth_equalityI) simp_all
  ultimately show "src_ok m' pt (src_advance src n) (N - unat n) \<and>
     kbytes m' (src_advance src n) (N - unat n) = drop (unat n) (kbytes m src N) \<and>
     kbytes m src (unat n) = take (unat n) (kbytes m src N)"
    using far src(1) n assms(3) Kmem by (simp add: src_ok_def src_advance_def kbytes_def)
qed (use assms in \<open>auto simp: src_ok_def src_advance_def kbytes_def min_def drop_take\<close>)

text \<open>
  The first \<open>k\<close> bytes of \<open>bs\<close> have reached user memory from \<open>va\<close> on, and nothing else in user
  memory or outside it has changed.
\<close>

definition ucopied :: "pagetable \<Rightarrow> u64 \<Rightarrow> byte list \<Rightarrow> nat \<Rightarrow> mem \<Rightarrow> mem \<Rightarrow> bool" where
  "ucopied pt va bs k m m' \<longleftrightarrow>
     (\<forall>v. ubyte m' pt v = (if unat (v - va) < k then Some (bs ! unat (v - va)) else ubyte m pt v)) \<and>
     (\<forall>v. upage m' pt v = upage m pt v) \<and>
     (\<forall>x. PGROUNDDOWN x \<notin> upages m pt \<longrightarrow> m' x = m x)"

lemma ucopied_0 [simp]: "ucopied pt va bs 0 m m"
  by (simp add: ucopied_def)

lemma ucopied_upage: "ucopied pt va bs k m m' \<Longrightarrow> upage m' pt v = upage m pt v"
  by (simp add: ucopied_def)

lemma offset_split:
  assumes "k + n < 2 ^ 64"
  shows "unat (v - (a + of_nat k) :: u64) < n \<longleftrightarrow> k \<le> unat (v - a) \<and> unat (v - a) < k + n"
    and "k \<le> unat (v - a :: u64) \<Longrightarrow> unat (v - (a + of_nat k)) = unat (v - a) - k"
proof -
  have k: "unat (of_nat k :: u64) = k" using assms by (simp add: unat_of_nat64)
  have d: "v - (a + of_nat k) = (v - a) - of_nat k" by simp
  have ge: "unat (v - (a + of_nat k)) = unat (v - a) - k" if "k \<le> unat (v - a)"
    unfolding d using that k by (subst unat_sub) (simp_all add: word_le_nat_alt)
  then show "k \<le> unat (v - a) \<Longrightarrow> unat (v - (a + of_nat k)) = unat (v - a) - k" .
  have lt: "unat (v - (a + of_nat k)) = 2 ^ 64 - (k - unat (v - a))" if "unat (v - a) < k"
    unfolding d using that k by (subst unat_sub_wrap) simp_all
  show "unat (v - (a + of_nat k)) < n \<longleftrightarrow> k \<le> unat (v - a) \<and> unat (v - a) < k + n"
    using ge lt assms by (cases "k \<le> unat (v - a)") (auto simp: not_le)
qed

lemma ucopied_step:
  assumes cp: "ucopied pt va bs k m m'" and ok: "uspace_ok m' pt"
    and pa: "upage m' pt (va + of_nat k) = pa" "pa \<noteq> 0"
    and cs: "cs = take n (drop k bs)" "k + n \<le> length bs" "length bs < 2 ^ 64" "n \<le> page_room (va + of_nat k)"
  defines "w \<equiv> write_bytes m' (pa + (va + of_nat k - PGROUNDDOWN (va + of_nat k))) cs"
  shows "ucopied pt va bs (k + n) m w" "uspace_ok w pt" "upages w pt = upages m' pt"
    "\<forall>x. PGROUNDDOWN x \<notin> upages m' pt \<longrightarrow> w x = m' x"
proof -
  have len: "length cs = n" using cs by simp
  note w = uwrite_page [OF ok pa, of cs, unfolded len, OF cs(4), folded w_def]
  have u: "upages m' pt = upages m pt" using cp by (simp add: ucopied_def upages_def)
  show "uspace_ok w pt" "upages w pt = upages m' pt" by (rule w)+
  have "pa \<in> upages m' pt" using pa by (auto simp: upages_def)
  then show out: "\<forall>x. PGROUNDDOWN x \<notin> upages m' pt \<longrightarrow> w x = m' x" by (auto intro!: w(1))
  have "ubyte w pt v = (if unat (v - va) < k + n then Some (bs ! unat (v - va)) else ubyte m pt v)" for v
    using w(5) [of v] cp offset_split [of k n v va] cs by (auto simp: ucopied_def)
  then show "ucopied pt va bs (k + n) m w" using cp w(3) out u by (simp add: ucopied_def)
qed

definition out_inv :: "pagetable \<Rightarrow> u64 \<Rightarrow> byte list \<Rightarrow> 'z kmem_st_scheme \<Rightarrow> nat \<Rightarrow> u64 \<times> kptr \<times> u64 \<Rightarrow> 'z kmem_st_scheme \<Rightarrow> bool" where
  "out_inv pt va bs s k = (\<lambda>(d, src, len) t. k + unat len = length bs \<and> (len \<noteq> 0 \<longrightarrow> d = va + of_nat k) \<and>
     src_ok (mem t) pt src (unat len) \<and> kbytes (mem t) src (unat len) = drop k bs \<and>
     uspace_ok (mem t) pt \<and> ucopied pt va bs k (mem s) (mem t) \<and> t = s\<lparr>mem := mem t\<rparr>)"

lemma copyout_round:
  assumes inv: "out_inv pt va bs s k (d, src, len) t" and len: "len \<noteq> 0" and bs: "length bs < 2 ^ 64"
  shows "wpK (copyout_body pt (d, src, len)) (\<lambda>r u. case r of
      Inl c \<Rightarrow> unat (snd (snd c)) < unat len \<and> (\<exists>k. out_inv pt va bs s k c u)
    | Inr x \<Rightarrow> x = -1 \<and> u = t \<and> upage (mem t) pt (va + of_nat k) = 0) e t"
proof -
  let ?n = "chunk d len"
  have t: "k + unat len = length bs" "d = va + of_nat k" "src_ok (mem t) pt src (unat len)"
    "kbytes (mem t) src (unat len) = drop k bs" "uspace_ok (mem t) pt"
    "ucopied pt va bs k (mem s) (mem t)" "t = s\<lparr>mem := mem t\<rparr>"
    using inv len by (auto simp: out_inv_def)
  have wf: "pt_wf (mem t) pt" using t(5) by (simp add: uspace_ok_def)
  have n: "unat ?n \<le> unat len" "unat ?n \<le> page_room d" "0 < unat ?n"
    using len page_room_pos [of d] by (simp_all add: unat_chunk word_unat_eq_iff)
  have n4: "unat ?n \<le> 4096" using n(2) by (simp add: page_room_def)
  have l: "unat (len - ?n) = unat len - unat ?n" using n(1) by (subst unat_sub) (simp_all add: word_le_nat_alt)
  {
    assume pa: "upage (mem t) pt d \<noteq> 0"
    let ?w = "kptr_read (mem t) (upage (mem t) pt d + (d - PGROUNDDOWN d)) src ?n"
    have w: "?w = write_bytes (mem t) (upage (mem t) pt d + (d - PGROUNDDOWN d)) (take (unat ?n) (drop k bs))"
      using kptr_read_write [OF t(3) n(1) n4] upage_end [OF t(5) refl pa] n(2)
        src_step(3) [OF t(3) n(1) refl] t(4) by simp
    have k: "k + unat ?n \<le> length bs" using t(1) n(1) by simp
    note st = ucopied_step [OF t(6,5), where pa = "upage (mem t) pt d" and n = "unat ?n"
        and cs = "take (unat ?n) (drop k bs)", folded t(2), OF refl pa refl k bs n(2), folded w]
    note src = src_step [OF t(3) n(1) st(3) st(4)]
    have nxt: "PGROUNDDOWN d + 4096 = va + of_nat (k + unat ?n)" if "len - ?n \<noteq> 0"
    proof -
      have "unat ?n < unat len" using that l n(1) by (metis unat_eq_zero zero_less_diff neq0_conv)
      from chunk_next [OF this] show ?thesis by (simp add: t(2) add.assoc)
    qed
    have upd: "t\<lparr>mem := w\<rparr> = s\<lparr>mem := w\<rparr>" for w by (subst t(7)) simp
    have "out_inv pt va bs s (k + unat ?n) (PGROUNDDOWN d + 4096, src_advance src ?n, len - ?n) (t\<lparr>mem := ?w\<rparr>)"
      using st(1,2) src(1,2) t(1,4,7) n(1) l nxt
      by (simp add: out_inv_def add.commute upd)
    then have "unat (len - ?n) < unat len \<and>
       (\<exists>k. out_inv pt va bs s k (PGROUNDDOWN d + 4096, src_advance src ?n, len - ?n) (t\<lparr>mem := ?w\<rparr>))"
      using l n(1,3) by auto
  }
  then show ?thesis
    using len wf t(2)
    by (auto simp: copyout_body_def wp wp_walkaddr Let_def upd_mem_def word_gt_0)
qed

lemma copyout_run:
  assumes ok: "uspace_ok (mem s) pt" and src: "src_ok (mem s) pt src (unat len)"
  shows "wpK (copyout pt va src len) (\<lambda>r t. \<exists>k.
     ucopied pt va (kbytes (mem s) src (unat len)) k (mem s) (mem t) \<and> uspace_ok (mem t) pt \<and>
     t = s\<lparr>mem := mem t\<rparr> \<and>
     (r = 0 \<and> k = unat len \<or> r = -1 \<and> k < unat len \<and> upage (mem s) pt (va + of_nat k) = 0)) e s"
    (is "wpK _ ?Q e s")
proof -
  let ?bs = "kbytes (mem s) src (unat len)"
  have len: "length ?bs = unat len" "length ?bs < 2 ^ 64" using src unat64_less [of len] by simp_all
  have "wpK (loopK (copyout_body pt) (va, src, len)) ?Q e s"
  proof (rule wp_loop_measure [where I = "\<lambda>c t. \<exists>k. out_inv pt va ?bs s k c t" and f = "\<lambda>c _. unat (snd (snd c))"])
    show "\<exists>k. out_inv pt va ?bs s k (va, src, len) s"
      using ok src len by (auto simp: out_inv_def intro!: exI [of _ 0])
  next
    fix c t assume "\<exists>k. out_inv pt va ?bs s k c t"
    then obtain k d sr l where c: "c = (d, sr, l)" and inv: "out_inv pt va ?bs s k (d, sr, l) t"
      by (metis prod_cases3)
    show "wpK (copyout_body pt c) (\<lambda>r u. case r of
       Inl j \<Rightarrow> (\<exists>k. out_inv pt va ?bs s k j u) \<and> unat (snd (snd j)) < unat (snd (snd c))
     | Inr a \<Rightarrow> ?Q a u) e t"
    proof (cases "l = 0")
      case True
      then show ?thesis
        using inv len c by (auto simp: copyout_body_def wp out_inv_def)
    next
      case False
      from copyout_round [OF inv this len(2)] show ?thesis
        unfolding c
      proof (rule wpK_mono)
        fix r :: "(u64 \<times> kptr \<times> u64) + i32" and u
        assume "case r of Inl j \<Rightarrow> unat (snd (snd j)) < unat l \<and> (\<exists>k. out_inv pt va ?bs s k j u)
          | Inr x \<Rightarrow> x = -1 \<and> u = t \<and> upage (mem t) pt (va + of_nat k) = 0"
        moreover have "0 < unat l" using False by (simp add: unat_gt_0)
        ultimately show "case r of
            Inl j \<Rightarrow> (\<exists>k. out_inv pt va ?bs s k j u) \<and> unat (snd (snd j)) < unat (snd (snd (d, sr, l)))
          | Inr a \<Rightarrow> ?Q a u"
          using inv len by (cases r) (auto simp: out_inv_def ucopied_upage intro!: exI [of _ k])
      qed
    qed
  qed
  then show ?thesis by (simp add: copyout_def)
qed

section \<open>Copying in\<close>

definition uread :: "mem \<Rightarrow> pagetable \<Rightarrow> u64 \<Rightarrow> byte list \<Rightarrow> bool" where
  "uread m pt va bs \<longleftrightarrow> (\<forall>i < length bs. ubyte m pt (va + of_nat i) = Some (bs ! i))"

lemma uread_append: "uread m pt va (bs @ cs) \<longleftrightarrow> uread m pt va bs \<and> uread m pt (va + of_nat (length bs)) cs"
  by (simp add: uread_def all_less_add nth_append add.assoc)

lemma uread_page:
  assumes "upage m pt va \<noteq> 0" and "n \<le> page_room va"
  shows "uread m pt va (read_bytes m (upage m pt va + (va - PGROUNDDOWN va)) n)"
  unfolding uread_def
proof (intro allI impI)
  fix i assume i: "i < length (read_bytes m (upage m pt va + (va - PGROUNDDOWN va)) n)"
  then have "unat (va + of_nat i - va) < page_room va"
    using assms(2) by (simp add: unat_of_nat64 page_room_def)
  then have same: "PGROUNDDOWN (va + of_nat i) = PGROUNDDOWN va" by (rule within_page)
  from upage_same_page [OF this, of m pt]
  show "ubyte m pt (va + of_nat i) = Some (read_bytes m (upage m pt va + (va - PGROUNDDOWN va)) n ! i)"
    using i assms(1) same by (simp add: ubyte_def algebra_simps)
qed

definition in_inv :: "pagetable \<Rightarrow> u64 \<Rightarrow> u64 \<Rightarrow> 'z kmem_st_scheme \<Rightarrow> byte list \<Rightarrow> kptr \<times> u64 \<times> u64 \<Rightarrow> 'z kmem_st_scheme \<Rightarrow> bool" where
  "in_inv pt va len0 s bs = (\<lambda>(dst, v, len) t. dst = Kobj bs \<and> t = s \<and> length bs + unat len = unat len0 \<and>
     (len \<noteq> 0 \<longrightarrow> v = va + of_nat (length bs)) \<and> uread (mem s) pt va bs)"

lemma copyin_round:
  assumes wf: "pt_wf (mem s) pt" and inv: "in_inv pt va len0 s bs (dst, v, len) t" and len: "len \<noteq> 0"
  shows "wpK (copyin_body pt (dst, v, len)) (\<lambda>r u. case r of
      Inl c \<Rightarrow> unat (snd (snd c)) < unat len \<and> (\<exists>bs. in_inv pt va len0 s bs c u)
    | Inr (x, dst') \<Rightarrow> x = -1 \<and> dst' = dst \<and> u = s \<and> upage (mem s) pt (va + of_nat (length bs)) = 0) e t"
proof -
  let ?n = "chunk v len" and ?p = "upage (mem s) pt v + (v - PGROUNDDOWN v)"
  have t: "dst = Kobj bs" "t = s" "length bs + unat len = unat len0" "v = va + of_nat (length bs)"
    "uread (mem s) pt va bs" using inv len by (auto simp: in_inv_def)
  have n: "unat ?n \<le> unat len" "unat ?n \<le> page_room v" "0 < unat ?n"
    using len page_room_pos [of v] by (simp_all add: unat_chunk word_unat_eq_iff)
  have l: "unat (len - ?n) = unat len - unat ?n" using n(1) by (subst unat_sub) (simp_all add: word_le_nat_alt)
  have nxt: "PGROUNDDOWN v + 4096 = va + of_nat (length bs + unat ?n)" if "len - ?n \<noteq> 0"
  proof -
    have "unat ?n < unat len" using that l n(1) by (metis unat_eq_zero zero_less_diff neq0_conv)
    from chunk_next [OF this] show ?thesis by (simp add: t(4) add.assoc)
  qed
  {
    assume pa: "upage (mem s) pt v \<noteq> 0"
    have "uread (mem s) pt va (bs @ read_bytes (mem s) ?p (unat ?n))"
      using uread_page [OF pa n(2)] t(4,5) by (simp add: uread_append)
    then have "in_inv pt va len0 s (bs @ read_bytes (mem s) ?p (unat ?n))
        (Kobj (bs @ read_bytes (mem s) ?p (unat ?n)), PGROUNDDOWN v + 4096, len - ?n) s"
      using t(3) n(1) l nxt by (simp add: in_inv_def)
    then have "unat (len - ?n) < unat len \<and> (\<exists>bs'. in_inv pt va len0 s bs'
        (Kobj (bs @ read_bytes (mem s) ?p (unat ?n)), PGROUNDDOWN v + 4096, len - ?n) s)"
      using l n(1,3) by auto
  }
  then show ?thesis
    using len wf t
    by (auto simp: copyin_body_def wp wp_walkaddr Let_def upd_mem_def word_gt_0 kptr_write_def dst_advance_def)
qed

lemma copyin_run:
  assumes wf: "pt_wf (mem s) pt"
  shows "wpK (copyin pt (Kobj []) va len) (\<lambda>(r, dst) t. t = s \<and> (\<exists>bs. dst = Kobj bs \<and> uread (mem s) pt va bs \<and>
     (r = 0 \<and> length bs = unat len \<or>
      r = -1 \<and> length bs < unat len \<and> upage (mem s) pt (va + of_nat (length bs)) = 0))) e s"
    (is "wpK _ ?Q e s")
proof -
  have "wpK (loopK (copyin_body pt) (Kobj [], va, len)) ?Q e s"
  proof (rule wp_loop_measure [where I = "\<lambda>c t. \<exists>bs. in_inv pt va len s bs c t" and f = "\<lambda>c _. unat (snd (snd c))"])
    show "\<exists>bs. in_inv pt va len s bs (Kobj [], va, len) s"
      by (auto simp: in_inv_def uread_def)
  next
    fix c t assume "\<exists>bs. in_inv pt va len s bs c t"
    then obtain bs d v l where c: "c = (d, v, l)" and inv: "in_inv pt va len s bs (d, v, l) t"
      by (metis prod_cases3)
    show "wpK (copyin_body pt c) (\<lambda>r u. case r of
       Inl j \<Rightarrow> (\<exists>bs. in_inv pt va len s bs j u) \<and> unat (snd (snd j)) < unat (snd (snd c))
     | Inr a \<Rightarrow> ?Q a u) e t"
    proof (cases "l = 0")
      case True
      then show ?thesis using inv c by (auto simp: copyin_body_def wp in_inv_def)
    next
      case False
      then have l: "0 < unat l" by (simp add: unat_gt_0)
      from copyin_round [OF wf inv False] show ?thesis
        unfolding c by (rule wpK_mono) (use inv l in \<open>auto simp: in_inv_def split: sum.splits\<close>)
    qed
  qed
  then show ?thesis by (simp add: copyin_def)
qed

section \<open>A space with one page\<close>

text \<open>A concrete memory in which a page table maps the page at 0, for the examples.\<close>

definition demo_pt :: pagetable where
  "demo_pt = 0x80100000"

definition link_table :: "mem \<Rightarrow> addr \<Rightarrow> u64 \<Rightarrow> addr \<Rightarrow> mem" where
  "link_table m a i n = store64 (page_fill (page_fill m n 5) n 0) (slot a i) (PA2PTE n OR PTE_V)"

definition one_page :: mem where
  "one_page = store64 (link_table (link_table (\<lambda>_. 0) demo_pt 0 0x80101000) 0x80101000 0 0x80102000)
     (slot 0x80102000 0) (PA2PTE 0x80103000 OR PTE_W OR PTE_R OR PTE_U OR PTE_V)"

lemma load64_zero [simp]: "load64 (\<lambda>_. 0) a = 0"
proof -
  have "read_bytes (\<lambda>_. 0) a 8 = bytes_of 8 (0 :: u64)"
    by (simp add: read_bytes_def bytes_of_def)
  then show ?thesis by (simp add: load64_def word_of_bytes_of)
qed

lemma node_zero: "node (\<lambda>_. 0) pt is = (if is = [] then Some pt else None)"
  by (cases "is") (simp_all add: valid_def)

lemma zero_space:
  assumes "page_aligned pt" "pt \<noteq> 0"
  shows "pt_wf (\<lambda>_. 0) pt" "tables (\<lambda>_. 0) pt = {pt}" "upage (\<lambda>_. 0) pt va = 0" "uspace_ok (\<lambda>_. 0) pt"
    "pte_of (\<lambda>_. 0) pt va = 0"
proof -
  show t: "tables (\<lambda>_. 0) pt = {pt}" by (auto simp: tables_def node_zero split: if_splits)
  then show wf: "pt_wf (\<lambda>_. 0) pt" using assms by (auto simp: pt_wf_def node_zero split: if_splits)
  show p: "pte_of (\<lambda>_. 0) pt va = 0" for va by (simp add: pte_of_def pte_slot_def vpath_def node_zero)
  then show "upage (\<lambda>_. 0) pt va = 0" for va by (simp add: upage_def valid_def)
  then show "uspace_ok (\<lambda>_. 0) pt" using wf by (auto simp: uspace_ok_def upages_def)
qed

lemma demo_aligned [simp]:
  "page_aligned demo_pt" "page_aligned 0x80101000" "page_aligned 0x80102000" "page_aligned 0x80103000" "demo_pt \<noteq> 0"
  by (simp_all add: page_aligned_def demo_pt_def)

lemma demo_pt_other [simp]: "demo_pt \<noteq> 0x80101000" "demo_pt \<noteq> 0x80102000" "demo_pt \<noteq> 0x80103000"
  "0x80101000 \<noteq> demo_pt" "0x80102000 \<noteq> demo_pt" "0x80103000 \<noteq> demo_pt"
  by (simp_all add: demo_pt_def)

lemma one_page_tables:
  "pt_wf one_page demo_pt" "tables one_page demo_pt = {0x80102000, 0x80101000, demo_pt}"
  "va < MAXVA \<Longrightarrow> pte_of one_page demo_pt va =
     (if PGROUNDDOWN va = 0 then PA2PTE 0x80103000 OR PTE_W OR PTE_R OR PTE_U OR PTE_V else 0)"
proof -
  let ?m0 = "\<lambda>_ :: addr. 0 :: byte"
  let ?m1 = "link_table ?m0 demo_pt 0 0x80101000"
  let ?m2 = "link_table ?m1 0x80101000 0 0x80102000"
  note z = zero_space [OF demo_aligned(1,5)]
  have l1: "pt_wf ?m1 demo_pt" "tables ?m1 demo_pt = {0x80101000, demo_pt}" "node ?m1 demo_pt [0] = Some 0x80101000"
    "pte_of ?m1 demo_pt va = 0" for va
    using pt_link [OF z(1), of "[]" 0 demo_pt "0x80101000"] z
    by (auto simp: link_table_def path_ok_def valid_def)
  have "slot demo_pt 0 \<noteq> slot 0x80101000 0" by (simp add: slot_eq_iff)
  then have "load64 ?m1 (slot 0x80101000 0) = 0"
    by (simp add: link_table_def load64_store64_other load64_page_zero)
  then have l2: "pt_wf ?m2 demo_pt" "tables ?m2 demo_pt = {0x80102000, 0x80101000, demo_pt}"
    "node ?m2 demo_pt [0, 0] = Some 0x80102000" "pte_of ?m2 demo_pt va = 0" for va
    using pt_link [OF l1(1), of "[0]" 0 "0x80101000" "0x80102000"] l1
    by (auto simp: link_table_def path_ok_def valid_def)
  have sl: "pte_slot ?m2 demo_pt 0 = Some (slot 0x80102000 0)"
    using l2(3) by (simp add: pte_slot_def vpath_def PX_def)
  note st = pte_store [OF l2(1) sl]
  show "pt_wf one_page demo_pt" "tables one_page demo_pt = {0x80102000, 0x80101000, demo_pt}"
    using st(1,2) l2(2) by (simp_all add: one_page_def)
  show "pte_of one_page demo_pt va =
     (if PGROUNDDOWN va = 0 then PA2PTE 0x80103000 OR PTE_W OR PTE_R OR PTE_U OR PTE_V else 0)" if "va < MAXVA"
    using st(4) [of va] that l2(4) by (simp add: one_page_def PGROUNDDOWN_def)
qed

lemma PGROUNDDOWN_zero: "PGROUNDDOWN va = 0 \<longleftrightarrow> va < 4096"
proof -
  have "PGROUNDDOWN va = 0 \<longleftrightarrow> unat va div 4096 * 4096 = 0"
    using unat_PGROUNDDOWN [of va] by (metis unat_0 word_unat_eq_iff)
  then show ?thesis by (simp add: div_eq_0_iff word_less_nat_alt)
qed

lemma one_page_upage: "upage one_page demo_pt va = (if va < 4096 then 0x80103000 else 0)"
proof (cases "va < MAXVA")
  case True
  have "PGROUNDDOWN va = 0 \<longleftrightarrow> va < 4096" by (simp add: PGROUNDDOWN_zero)
  then show ?thesis using one_page_tables(3) [OF True] True by (simp add: upage_def valid_def PA2PTE_def PTE2PA_def)
next
  case False
  then have "\<not> va < 4096" by (auto simp: word_less_nat_alt not_less)
  then show ?thesis using False by (simp add: upage_def)
qed

lemma one_page_space: "uspace_ok one_page demo_pt"
proof -
  have up: "upages one_page demo_pt = {0x80103000}" by (auto simp: upages_def one_page_upage intro: exI [of _ 0])
  have inj: "PGROUNDDOWN va = PGROUNDDOWN vb"
    if "upage one_page demo_pt va = upage one_page demo_pt vb" "upage one_page demo_pt va \<noteq> 0" for va vb
  proof -
    have "va < 4096" "vb < 4096" using that by (auto simp: one_page_upage split: if_splits)
    then show ?thesis by (simp flip: PGROUNDDOWN_zero)
  qed
  show ?thesis
    unfolding uspace_ok_def up one_page_tables(2)
  proof (intro conjI allI impI)
    show "PGROUNDDOWN va = PGROUNDDOWN vb"
      if "upage one_page demo_pt va = upage one_page demo_pt vb" "upage one_page demo_pt va \<noteq> 0" for va vb
      by (rule inj [OF that])
  qed (simp_all add: one_page_tables(1))
qed

section \<open>Properties\<close>

text \<open>
  C4. \<^verbatim>\<open>copyout\<close> always returns. It changes the bytes at the virtual addresses \<open>va\<close>, \<open>va + 1\<close>, ... of
  the user space to a prefix of the source and no other byte of the machine; the prefix is the
  whole source when it returns 0, and when it returns -1 it ends at an address that is not
  mapped for the user.
\<close>

theorem copyout_writes:
  assumes "uspace_ok (mem s) pt" and "src_ok (mem s) pt src (unat len)"
  shows "\<exists>r k t. copyout pt va src len e s = Ok r t \<and> t = s\<lparr>mem := mem t\<rparr> \<and>
     ucopied pt va (kbytes (mem s) src (unat len)) k (mem s) (mem t) \<and> uspace_ok (mem t) pt \<and>
     (r = 0 \<and> k = unat len \<or> r = -1 \<and> k < unat len \<and> upage (mem s) pt (va + of_nat k) = 0)"
  using copyout_run [OF assms, of va e] by (auto simp: wpK_iff)

definition user_st0 :: kmem_st where
  "user_st0 = \<lparr>mach = mach0, mem = one_page, freelist = 0\<rparr>"

theorem copyout_writes_witness:
  "\<exists>t. copyout demo_pt 4094 (Kobj [7, 8, 9]) 3 idle_env user_st0 = Ok (-1) t \<and>
     ubyte (mem t) demo_pt 4095 = Some 8"
proof -
  obtain r k t where t: "copyout demo_pt 4094 (Kobj [7, 8, 9]) 3 idle_env user_st0 = Ok r t"
    "ucopied demo_pt 4094 [7, 8, 9] k one_page (mem t)"
    "r = 0 \<and> k = 3 \<or> r = -1 \<and> k < 3 \<and> upage one_page demo_pt (4094 + of_nat k) = 0"
    using copyout_writes [of user_st0 demo_pt "Kobj [7, 8, 9]" 3 4094 idle_env] one_page_space
    by (auto simp: user_st0_def src_ok_def kbytes_def)
  have "upage (mem t) demo_pt 4096 = 0" using t(2) by (simp add: ucopied_def one_page_upage)
  then have "ubyte (mem t) demo_pt 4096 = None" by (simp add: ubyte_def)
  then have "\<not> 2 < k" using t(2) by (auto simp: ucopied_def dest: spec [of _ 4096])
  moreover have "k \<noteq> 0" by (rule notI) (use t(3) in \<open>simp add: one_page_upage\<close>)
  moreover have "k \<noteq> 1" by (rule notI) (use t(3) in \<open>simp add: one_page_upage\<close>)
  ultimately have "k = 2" by linarith
  then show ?thesis using t by (auto simp: ucopied_def)
qed

text \<open>
  C5. What \<^verbatim>\<open>copyout\<close> has put into the user space \<^verbatim>\<open>copyin\<close> reads back: if \<^verbatim>\<open>copyout\<close> returns 0, a
  \<^verbatim>\<open>copyin\<close> of the same range returns 0 and the bytes that were the source.
\<close>

theorem copyout_copyin:
  assumes "uspace_ok (mem s) pt" and "src_ok (mem s) pt src (unat len)"
    and "copyout pt va src len e s = Ok 0 t"
  shows "copyin pt (Kobj []) va len e t = Ok (0, Kobj (kbytes (mem s) src (unat len))) t"
proof -
  let ?bs = "kbytes (mem s) src (unat len)"
  have out: "ucopied pt va ?bs (unat len) (mem s) (mem t)" "uspace_ok (mem t) pt"
    using copyout_run [OF assms(1,2), of va e] assms(3) by (auto simp: wpK_def)
  have len: "length ?bs = unat len" using assms(2) by simp
  have byte: "ubyte (mem t) pt (va + of_nat i) = Some (?bs ! i)" if "i < unat len" for i
  proof -
    have "i < 2 ^ 64" using that unat64_less [of len] by simp
    then show ?thesis using out(1) that by (simp add: ucopied_def unat_of_nat)
  qed
  obtain r bs where cp: "copyin pt (Kobj []) va len e t = Ok (r, Kobj bs) t" "uread (mem t) pt va bs"
    "r = 0 \<and> length bs = unat len \<or> r = -1 \<and> length bs < unat len \<and> upage (mem t) pt (va + of_nat (length bs)) = 0"
    using copyin_run [of t pt va len e] out(2) by (auto simp: wpK_iff uspace_ok_def)
  have "upage (mem t) pt (va + of_nat i) \<noteq> 0" if "i < unat len" for i
    using byte [OF that] by (auto simp: ubyte_def split: if_splits)
  then have r: "r = 0" "length bs = unat len" using cp(3) by auto
  have "bs ! i = ?bs ! i" if "i < unat len" for i
    using cp(2) byte [OF that] that r(2) by (simp add: uread_def)
  then have "bs = ?bs" using r(2) len by (intro nth_equalityI) auto
  then show ?thesis using cp(1) r(1) by simp
qed

theorem copyout_copyin_witness:
  "\<exists>t. copyout demo_pt 100 (Kobj [7, 8]) 2 idle_env user_st0 = Ok 0 t \<and>
     copyin demo_pt (Kobj []) 100 2 idle_env t = Ok (0, Kobj [7, 8]) t"
proof -
  have ok: "uspace_ok (mem user_st0) demo_pt" "src_ok (mem user_st0) demo_pt (Kobj [7, 8]) (unat (2 :: u64))"
    using one_page_space by (simp_all add: user_st0_def src_ok_def)
  have "upage one_page demo_pt (100 + of_nat k) \<noteq> 0" if "k < 2" for k
    using that by (auto simp: one_page_upage less_2_cases_iff)
  then obtain t where "copyout demo_pt 100 (Kobj [7, 8]) 2 idle_env user_st0 = Ok 0 t"
    using copyout_run [OF ok, of 100 idle_env] by (auto simp: wpK_iff user_st0_def)
  then show ?thesis using copyout_copyin [OF ok] by (auto simp: kbytes_def)
qed

end
