(* ===== verification/Ring_Buffer.thy ===== *)
theory Ring_Buffer
  imports Prelude
begin

text \<open>
  What the kernel's three byte queues have in common (the pipe of \<^verbatim>\<open>kernel/pipe.c\<close>, the transmit
  buffer of \<^verbatim>\<open>kernel/uart.c\<close> and the input buffer of \<^verbatim>\<open>kernel/console.c\<close>): an array and two
  counters that only grow, wrap around at the width of their type and are taken modulo the
  size of the array when the array is accessed. The laws of \<open>ring_buffer\<close> are the
  assignments of the code; the lemmas show that such a buffer is a bounded queue.
\<close>

locale ring_buffer =
  fixes cap :: nat
    and cell :: "'r \<Rightarrow> nat \<Rightarrow> 'a"
    and rd :: "'r \<Rightarrow> 'w::len word"
    and wr :: "'r \<Rightarrow> 'w::len word"
    and push :: "'a \<Rightarrow> 'r \<Rightarrow> 'r"
    and pop :: "'r \<Rightarrow> 'r"
  assumes cap_pos: "0 < cap" and cap_dvd: "cap dvd 2 ^ LENGTH('w)" and cap_less: "cap < 2 ^ LENGTH('w)"
    and cell_push: "cell (push c r) = (cell r)(unat (wr r) mod cap := c)"
    and wr_push: "wr (push c r) = wr r + 1" and rd_push: "rd (push c r) = rd r"
    and cell_pop: "cell (pop r) = cell r" and wr_pop: "wr (pop r) = wr r" and rd_pop: "rd (pop r) = rd r + 1"
begin

definition used :: "'r \<Rightarrow> nat" where
  "used r = unat (wr r - rd r)"

definition content :: "'r \<Rightarrow> 'a list" where
  "content r = map (\<lambda>i. cell r (unat (rd r + of_nat i) mod cap)) [0..<used r]"

definition bounded :: "'r \<Rightarrow> bool" where
  "bounded r \<longleftrightarrow> used r \<le> cap"

definition front :: "'r \<Rightarrow> 'a" where
  "front r = cell r (unat (rd r) mod cap)"

lemma length_content [simp]: "length (content r) = used r"
  by (simp add: content_def)

lemma nth_content: "i < used r \<Longrightarrow> content r ! i = cell r (unat (rd r + of_nat i) mod cap)"
  by (simp add: content_def)

lemma bounded_length: "bounded r \<Longrightarrow> length (content r) \<le> cap"
  by (simp add: bounded_def)

lemma empty_iff: "wr r = rd r \<longleftrightarrow> content r = []"
  by (simp flip: length_0_conv add: used_def unat_eq_zero)

lemma of_nat_used: "of_nat (used r) = wr r - rd r"
  by (simp add: used_def)

lemma full_iff: "wr r = rd r + of_nat cap \<longleftrightarrow> used r = cap"
proof
  assume "wr r = rd r + of_nat cap"
  then show "used r = cap" using cap_less by (simp add: used_def unat_of_nat)
next
  assume "used r = cap"
  then show "wr r = rd r + of_nat cap" using of_nat_used [of r] by (simp add: algebra_simps)
qed

lemma unat_add_mod_cap: "unat (a + of_nat i :: 'w word) mod cap = (unat a + i) mod cap"
  by (simp add: unat_word_ariths unat_of_nat mod_mod_cancel [OF cap_dvd] mod_add_right_eq)

lemma used_push: "used r < cap \<Longrightarrow> used (push c r) = Suc (used r)"
proof -
  assume "used r < cap"
  then have "unat (wr r - rd r) + 1 < 2 ^ LENGTH('w)" using cap_less by (simp add: used_def)
  moreover have "wr (push c r) - rd (push c r) = (wr r - rd r) + 1" by (simp add: wr_push rd_push)
  ultimately show ?thesis by (simp add: used_def unat_word_ariths)
qed

lemma push_content:
  assumes "used r < cap"
  shows "content (push c r) = content r @ [c]"
proof (rule nth_equalityI)
  show "length (content (push c r)) = length (content r @ [c])" using used_push [OF assms] by simp
  fix i assume "i < length (content (push c r))"
  then have i: "i < Suc (used r)" using used_push [OF assms] by simp
  have w: "wr r = rd r + of_nat (used r)" by (simp add: of_nat_used)
  have "unat (rd r + of_nat i) mod cap \<noteq> unat (wr r) mod cap" if "i < used r"
  proof -
    have "(unat (rd r) + i) mod cap \<noteq> (unat (rd r) + used r) mod cap"
    proof
      assume "(unat (rd r) + i) mod cap = (unat (rd r) + used r) mod cap"
      then have "cap dvd unat (rd r) + used r - (unat (rd r) + i)"
        using that by (metis add_le_cancel_left less_imp_le mod_eq_dvd_iff_nat)
      then show False using that assms by (auto dest: dvd_imp_le)
    qed
    then show ?thesis by (simp add: w unat_add_mod_cap)
  qed
  then show "content (push c r) ! i = (content r @ [c]) ! i"
    using i used_push [OF assms, of c] w
    by (cases "i = used r") (auto simp: nth_content nth_append cell_push rd_push)
qed

lemma bounded_push: "used r < cap \<Longrightarrow> bounded (push c r)"
  by (simp add: bounded_def used_push)

lemma used_pop:
  assumes "content r \<noteq> []"
  shows "used (pop r) = used r - 1"
proof -
  have "wr r - rd r \<noteq> 0" using assms by (simp flip: empty_iff)
  moreover have "wr (pop r) - rd (pop r) = (wr r - rd r) - 1" by (simp add: wr_pop rd_pop)
  ultimately show ?thesis by (simp add: used_def unat_minus_one)
qed

lemma pop_content:
  assumes "content r \<noteq> []"
  shows "content r = front r # content (pop r)"
proof (rule nth_equalityI)
  have pos: "0 < used r" using assms by (simp flip: length_content)
  then show "length (content r) = length (front r # content (pop r))"
    using used_pop [OF assms] by simp
  fix i assume "i < length (content r)"
  then show "content r ! i = (front r # content (pop r)) ! i"
    using used_pop [OF assms]
    by (cases i) (auto simp: nth_content front_def cell_pop rd_pop algebra_simps)
qed

lemma bounded_pop: "bounded r \<Longrightarrow> content r \<noteq> [] \<Longrightarrow> bounded (pop r)"
  by (simp add: bounded_def used_pop)

text \<open>Several bytes at a time.\<close>

lemma pops_content: "k \<le> used r \<Longrightarrow> content ((pop ^^ k) r) = drop k (content r)"
proof (induction k)
  case (Suc k)
  then have "content ((pop ^^ k) r) = drop k (content r)" by simp
  moreover have "drop k (content r) \<noteq> []" using Suc.prems by simp
  ultimately show ?case using pop_content [of "(pop ^^ k) r"] by (metis drop_Suc funpow.simps(2) list.sel(3) o_apply tl_drop)
qed simp

lemma pushes_content: "used r + length cs \<le> cap \<Longrightarrow> content (fold push cs r) = content r @ cs"
proof (induction cs arbitrary: r)
  case (Cons c cs)
  then have "used r < cap" by simp
  then show ?case using Cons by (simp add: used_push push_content)
qed simp

end

text \<open>A buffer whose writer can also take back what it has added last.\<close>

locale ring_buffer_undo = ring_buffer +
  fixes undo
  assumes cell_undo: "cell (undo r) = cell r" and rd_undo: "rd (undo r) = rd r" and wr_undo: "wr (undo r) = wr r - 1"
begin

lemma used_undo: "content r \<noteq> [] \<Longrightarrow> used (undo r) = used r - 1"
proof -
  assume "content r \<noteq> []"
  then have "wr r - rd r \<noteq> 0" by (simp flip: empty_iff)
  moreover have "wr (undo r) - rd (undo r) = (wr r - rd r) - 1" by (simp add: wr_undo rd_undo)
  ultimately show ?thesis by (simp add: used_def unat_minus_one)
qed

lemma undo_content: "content r \<noteq> [] \<Longrightarrow> content (undo r) = butlast (content r)"
  by (rule nth_equalityI) (auto simp: used_undo nth_butlast nth_content cell_undo rd_undo)

lemma last_content:
  assumes "content r \<noteq> []"
  shows "last (content r) = cell r (unat (wr r - 1) mod cap)"
proof -
  have pos: "0 < used r" using assms by (simp flip: length_content)
  then have "rd r + of_nat (used r - 1) = wr r - 1"
    using of_nat_used [of r] by (simp add: of_nat_diff)
  moreover have "last (content r) = content r ! (used r - 1)" using assms by (simp add: last_conv_nth)
  moreover have "content r ! (used r - 1) = cell r (unat (rd r + of_nat (used r - 1)) mod cap)"
    using pos by (intro nth_content) simp
  ultimately show ?thesis by metis
qed

lemma undos_content: "k \<le> used r \<Longrightarrow> content ((undo ^^ k) r) = take (used r - k) (content r)"
proof (induction k)
  case (Suc k)
  then have c: "content ((undo ^^ k) r) = take (used r - k) (content r)" by simp
  moreover have "content ((undo ^^ k) r) \<noteq> []" using Suc.prems by (simp add: c flip: length_0_conv)
  ultimately show ?case by (simp add: undo_content butlast_take)
qed simp

end

end
