(* ===== verification/Pipe_Ops.thy ===== *)
theory Pipe_Ops
  imports Pipe Proc_Ops Usermem Ring_Buffer
begin

text \<open>
  What \<^verbatim>\<open>pipewrite\<close> and \<^verbatim>\<open>piperead\<close> of \<^verbatim>\<open>kernel/pipe.c\<close> do to the queue of bytes that a pipe
  stands for, and to the memory of the calling process.
\<close>

interpretation pq: ring_buffer PIPESIZE pi_data nread nwrite pipe_push pipe_pop
  by unfold_locales (simp_all add: pipe_push_def pipe_pop_def PIPESIZE_def)

lemma pipe_head_front: "pipe_head = pq.front"
  by (simp add: fun_eq_iff pipe_head_def pq.front_def)

lemma pipe_st_upd_order [simp]:
  fixes s :: "'z pipe_st_scheme"
  shows "mach_update f (pipes_update g s) = pipes_update g (mach_update f s)"
    and "mem_update h (pipes_update g s) = pipes_update g (mem_update h s)"
    and "procs_update k (pipes_update g s) = pipes_update g (procs_update k s)"
  by simp_all

section \<open>The caller's view\<close>

text \<open>
  A process \<open>pr\<close> enters the kernel with no lock held that the pipe code needs and with a
  well-formed address space.
\<close>

definition pipe_caller :: "addr \<Rightarrow> nat \<Rightarrow> 'z pipe_st_scheme \<Rightarrow> bool" where
  "pipe_caller pi pr s \<longleftrightarrow> table_free s \<and> clean (Pipe_lock pi) (mach s) \<and> cur (mach s) = Some pr \<and>
     uspace_ok (mem s) (p_pagetable (procs s pr))"

text \<open>The state inside the critical section, with memory \<open>m\<close> and pipe \<open>p\<close>.\<close>

definition in_pipe :: "addr \<Rightarrow> mem \<Rightarrow> pipe \<Rightarrow> 'z pipe_st_scheme \<Rightarrow> 'z pipe_st_scheme" where
  "in_pipe pi m p s = s\<lparr>mach := acq (Pipe_lock pi) (mach s), mem := m, pipes := (pipes s)(pi := p)\<rparr>"

lemma in_pipe_simps [simp]:
  "mach (in_pipe pi m p s) = acq (Pipe_lock pi) (mach s)" "mem (in_pipe pi m p s) = m"
  "pipes (in_pipe pi m p s) pi = p" "procs (in_pipe pi m p s) = procs s"
  "(in_pipe pi m p s)\<lparr>mem := m'\<rparr> = in_pipe pi m' p s"
  "upd_pipe pi f e (in_pipe pi m p s) = Ok () (in_pipe pi m (f p) s)"
  by (simp_all add: in_pipe_def upd_pipe_def modifyK_def)

lemma in_pipe_start: "in_pipe pi (mem s) (pipes s pi) s = s\<lparr>mach := acq (Pipe_lock pi) (mach s)\<rparr>"
  by (simp add: in_pipe_def)

lemma in_pipe_free: "pipe_caller pi pr s \<Longrightarrow> table_free (in_pipe pi m p s)"
  by (simp add: pipe_caller_def table_free_def)

lemma pipe_callerD:
  assumes "pipe_caller pi pr s"
  shows "table_free s" "clean (Pipe_lock pi) (mach s)" "cur (mach s) = Some pr" "sane (mach s)"
    "uspace_ok (mem s) (p_pagetable (procs s pr))"
  using assms by (simp_all add: pipe_caller_def table_free_def)

lemma in_pipe_wakeup:
  assumes "pipe_caller pi pr s"
  shows "wakeup cn e (in_pipe pi m p s) =
    Ok () (in_pipe pi m p s\<lparr>procs := wake_all cn (Some pr) (procs s)\<rparr>)"
  using wakeup_run [OF in_pipe_free [OF assms], of cn e m p] pipe_callerD [OF assms] by (simp add: in_pipe_def)

lemma in_pipe_killed:
  "pipe_caller pi pr s \<Longrightarrow> killed q e (in_pipe pi m p s) = Ok (p_killed (procs s q)) (in_pipe pi m p s)"
  using killed_run [OF in_pipe_free, of pi pr s q e m p] pipe_callerD [of pi pr s] by (simp add: in_pipe_def)

lemma in_pipe_release:
  assumes "pipe_caller pi pr s"
  shows "release (Pipe_lock pi) e (in_pipe pi m p s\<lparr>procs := ps\<rparr>) =
    Ok () (s\<lparr>mach := settle (mach s), mem := m, procs := ps, pipes := (pipes s)(pi := p)\<rparr>)"
  using pipe_callerD [OF assms] sane_depth by (subst release_run) (simp_all add: in_pipe_def)

lemma pipe_enter:
  "pipe_caller pi pr s \<Longrightarrow>
   acquire (Pipe_lock pi) e (s\<lparr>mach := settle (mach s)\<rparr>) = Ok () (in_pipe pi (mem s) (pipes s pi) s)"
  using pipe_callerD [of pi pr s] by (simp add: in_pipe_start)

lemma ucopied_trans:
  assumes "ucopied pt va bs k m m'" and "ucopied pt (va + of_nat k) (drop k bs) n m' m''"
    and "k + n \<le> length bs" and "length bs < 2 ^ 64"
  shows "ucopied pt va bs (k + n) m m''"
proof -
  have up: "upages m' pt = upages m pt" using assms(1) by (simp add: ucopied_def upages_def)
  have "ubyte m'' pt v = (if unat (v - va) < k + n then Some (bs ! unat (v - va)) else ubyte m pt v)" for v
    using assms offset_split [of k n v va] by (auto simp: ucopied_def)
  then show ?thesis using assms(1,2) up by (auto simp: ucopied_def)
qed

section \<open>Reading\<close>

lemma piperead_round:
  assumes s: "pipe_caller pi pr s" and ok: "uspace_ok m (p_pagetable (procs s pr))"
    and i: "sint i < sint n" and p: "pq.content p \<noteq> []"
  shows "wpK (piperead_body pi pr addr n i) (\<lambda>r u. \<exists>m'. u = in_pipe pi m' (pipe_pop p) s \<and>
     uspace_ok m' (p_pagetable (procs s pr)) \<and>
     (\<exists>k \<le> 1. ucopied (p_pagetable (procs s pr)) (addr + scast i) [pq.front p] k m m' \<and>
       (k = 1 \<and> r = Inl (i + 1) \<or>
        k = 0 \<and> r = Inr i \<and> upage m (p_pagetable (procs s pr)) (addr + scast i) = 0))) e (in_pipe pi m p s)"
proof -
  let ?pt = "p_pagetable (procs s pr)" and ?t = "in_pipe pi m (pipe_pop p) s"
  have "wpK (copyout ?pt (addr + scast i) (Kobj [pq.front p]) 1) (\<lambda>r u. \<exists>m' k. u = in_pipe pi m' (pipe_pop p) s \<and>
     uspace_ok m' ?pt \<and> ucopied ?pt (addr + scast i) [pq.front p] k m m' \<and>
     (k = 1 \<and> r = 0 \<or> k = 0 \<and> r = -1 \<and> upage m ?pt (addr + scast i) = 0)) e ?t"
    using copyout_run [of ?t ?pt "Kobj [pq.front p]" 1 "addr + scast i" e] ok
    by (auto simp: src_ok_def kbytes_def elim!: wpK_mono)
  then show ?thesis
    using i p
    by (auto simp: piperead_body_def wp pipe_get_def proc_get_def pipe_head_front pq.empty_iff [symmetric]
        wpK_def [of "upd_pipe _ _"] elim!: wpK_mono)
qed

text \<open>The copying loop: \<open>k\<close> bytes have been copied and taken from the pipe.\<close>

definition read_inv :: "addr \<Rightarrow> nat \<Rightarrow> u64 \<Rightarrow> nat \<Rightarrow> 'z pipe_st_scheme \<Rightarrow> i32 \<Rightarrow> 'z pipe_st_scheme \<Rightarrow> bool" where
  "read_inv pi pr addr want s i t \<longleftrightarrow> (\<exists>k m. k \<le> want \<and> i = of_nat k \<and>
     t = in_pipe pi m ((pipe_pop ^^ k) (pipes s pi)) s \<and> uspace_ok m (p_pagetable (procs s pr)) \<and>
     ucopied (p_pagetable (procs s pr)) addr (pq.content (pipes s pi)) k (mem s) m)"

definition read_done :: "addr \<Rightarrow> nat \<Rightarrow> u64 \<Rightarrow> nat \<Rightarrow> 'z pipe_st_scheme \<Rightarrow> i32 \<Rightarrow> 'z pipe_st_scheme \<Rightarrow> bool" where
  "read_done pi pr addr want s r t \<longleftrightarrow> (\<exists>k m j. k \<le> want \<and> r = of_nat k \<and>
     t = in_pipe pi m ((pipe_pop ^^ j) (pipes s pi)) s \<and>
     ucopied (p_pagetable (procs s pr)) addr (pq.content (pipes s pi)) k (mem s) m \<and>
     (k = want \<and> j = k \<or>
      k < want \<and> j = Suc k \<and> upage (mem s) (p_pagetable (procs s pr)) (addr + of_nat k) = 0))"

lemma piperead_loop:
  assumes s: "pipe_caller pi pr s" and n: "0 \<le> sint n"
  defines "xs \<equiv> pq.content (pipes s pi)" and "pt \<equiv> p_pagetable (procs s pr)"
  defines "want \<equiv> min (nat (sint n)) (length xs)"
  shows "wpK (loopK (piperead_body pi pr addr n) 0) (read_done pi pr addr want s) e (in_pipe pi (mem s) (pipes s pi) s)"
proof (rule wp_loop_measure [where I = "read_inv pi pr addr want s" and f = "\<lambda>i _. want - unat i"])
  show "read_inv pi pr addr want s 0 (in_pipe pi (mem s) (pipes s pi) s)"
    using s by (auto simp: read_inv_def pipe_caller_def intro!: exI [of _ 0])
next
  fix i t assume "read_inv pi pr addr want s i t"
  then obtain k m where k: "k \<le> want" "i = of_nat k" "t = in_pipe pi m ((pipe_pop ^^ k) (pipes s pi)) s"
    "uspace_ok m pt" "ucopied pt addr xs k (mem s) m" by (auto simp: read_inv_def pt_def xs_def)
  let ?p = "(pipe_pop ^^ k) (pipes s pi)"
  have small: "nat (sint n) < 2 ^ 31" using sint_less [of n] by simp
  then have kn: "k < 2 ^ 31" "sint i = int k" "unat i = k" "scast i = (of_nat k :: u64)"
    using k(1,2) by (simp_all add: want_def unat_small scast_small)
  have c: "pq.content ?p = drop k xs"
    using k(1) unfolding xs_def by (intro pq.pops_content) (simp add: want_def xs_def)
  have len: "length xs < 2 ^ 64" 
    unfolding xs_def using unat32_less [of "nwrite (pipes s pi) - nread (pipes s pi)"] by (simp add: pq.used_def)
  show "wpK (piperead_body pi pr addr n i) (\<lambda>r u. case r of
       Inl i' \<Rightarrow> read_inv pi pr addr want s i' u \<and> want - unat i' < want - unat i
     | Inr x \<Rightarrow> read_done pi pr addr want s x u) e t"
  proof (cases "k = want")
    case True
    then have "\<not> sint i < sint n \<or> pq.content ?p = []" using kn n c by (auto simp: want_def min_def split: if_splits)
    then have "piperead_body pi pr addr n i e t = Ok (Inr i) t"
      using k(3) by (auto simp: piperead_body_def monad_defs pipe_get_def pq.empty_iff [symmetric])
    moreover have "read_done pi pr addr want s i t"
      unfolding read_done_def using True k unfolding pt_def xs_def by blast
    ultimately show ?thesis by (simp add: wpK_def)
  next
    case False
    then have lt: "k < want" using k(1) by simp
    then have "sint i < sint n" "pq.content ?p \<noteq> []" using kn(2) c by (simp_all add: want_def zless_nat_eq_int_zless)
    note rd = piperead_round [OF s k(4) [unfolded pt_def] this, folded pt_def, of addr e]
    have dr: "drop k xs = pq.front ?p # pq.content (pipe_pop ?p)"
      using pq.pop_content [OF \<open>pq.content ?p \<noteq> []\<close>] c by simp
    then have fr: "drop k xs = pq.front ?p # drop (Suc k) xs" by (simp add: drop_Suc flip: tl_drop)
    have step: "ucopied pt addr xs (Suc k) (mem s) m'" if "ucopied pt (addr + of_nat k) [pq.front ?p] 1 m m'" for m'
    proof -
      have "ucopied pt (addr + of_nat k) (drop k xs) 1 m m'" using that fr by (auto simp: ucopied_def)
      then show ?thesis using ucopied_trans [OF k(5), of 1 m'] lt len by (simp add: want_def)
    qed
    have none: "ucopied pt addr xs k (mem s) m'" if "ucopied pt (addr + of_nat k) [pq.front ?p] 0 m m'" for m'
    proof -
      have "ucopied pt (addr + of_nat k) (drop k xs) 0 m m'" using that by (auto simp: ucopied_def)
      then show ?thesis using ucopied_trans [OF k(5), of 0 m'] lt len by (simp add: want_def)
    qed
    have up: "upage m pt v = upage (mem s) pt v" for v using ucopied_upage [OF k(5)] .
    have next': "of_nat k + 1 = (of_nat (Suc k) :: i32)" "unat (of_nat (Suc k) :: i32) = Suc k"
      using lt small unat_small [of "Suc k"] by (simp_all add: want_def)
    show ?thesis
      unfolding k(3)
    proof (rule wpK_mono [OF rd])
      fix r u
      assume "\<exists>m'. u = in_pipe pi m' (pipe_pop ?p) s \<and> uspace_ok m' pt \<and>
        (\<exists>k' \<le> 1. ucopied pt (addr + scast i) [pq.front ?p] k' m m' \<and>
          (k' = 1 \<and> r = Inl (i + 1) \<or> k' = 0 \<and> r = Inr i \<and> upage m pt (addr + scast i) = 0))"
      then obtain m' where m': "u = in_pipe pi m' ((pipe_pop ^^ Suc k) (pipes s pi)) s" "uspace_ok m' pt"
        "r = Inl (of_nat (Suc k)) \<and> ucopied pt addr xs (Suc k) (mem s) m' \<or>
         r = Inr i \<and> ucopied pt addr xs k (mem s) m' \<and> upage (mem s) pt (addr + of_nat k) = 0"
        using step none up next' kn(4) k(2) by auto
      then consider "r = Inl (of_nat (Suc k))" "ucopied pt addr xs (Suc k) (mem s) m'"
        | "r = Inr i" "ucopied pt addr xs k (mem s) m'" "upage (mem s) pt (addr + of_nat k) = 0" by blast
      then show "case r of
          Inl i' \<Rightarrow> read_inv pi pr addr want s i' u \<and> want - unat i' < want - unat i
        | Inr x \<Rightarrow> read_done pi pr addr want s x u"
      proof cases
        case 1
        then have "read_inv pi pr addr want s (of_nat (Suc k)) u"
          unfolding read_inv_def using lt m'(1,2) unfolding pt_def xs_def
          by (intro exI [of _ "Suc k"] exI [of _ m']) simp
        then show ?thesis using 1 lt kn(3) next'(2) by simp
      next
        case 2
        then have "read_done pi pr addr want s i u"
          unfolding read_done_def using lt m'(1) k(2) unfolding pt_def xs_def
          by (intro exI [of _ k] exI [of _ m'] exI [of _ "Suc k"]) simp
        then show ?thesis using 2 by simp
      qed
    qed
  qed
qed

lemma piperead_ready:
  assumes "pq.content (pipes s pi) \<noteq> [] \<or> writeopen (pipes s pi) = 0"
  shows "piperead_wait pi pr e s = Ok True s"
  using assms
  by (subst piperead_wait_def, subst loopK_unfold)
     (auto simp: monad_defs pipe_get_def pq.empty_iff [symmetric])

lemma piperead_run:
  assumes s: "pipe_caller pi pr s" and n: "0 \<le> sint n"
    and ready: "pq.content (pipes s pi) \<noteq> [] \<or> writeopen (pipes s pi) = 0"
  defines "xs \<equiv> pq.content (pipes s pi)" and "pt \<equiv> p_pagetable (procs s pr)"
  defines "want \<equiv> min (nat (sint n)) (length xs)"
  shows "wpK (piperead pi addr n) (\<lambda>r t. \<exists>k j m. k \<le> want \<and> r = of_nat k \<and> ucopied pt addr xs k (mem s) m \<and>
     t = s\<lparr>mach := settle (mach s), mem := m, procs := wake_all (C_pipe_nwrite pi) (Some pr) (procs s),
       pipes := (pipes s)(pi := (pipe_pop ^^ j) (pipes s pi))\<rparr> \<and>
     (k = want \<and> j = k \<or> k < want \<and> j = Suc k \<and> upage (mem s) pt (addr + of_nat k) = 0)) e s"
proof -
  note ok = pipe_callerD [OF s] and wk = in_pipe_wakeup [OF s] and rls = in_pipe_release [OF s]
  have "piperead_wait pi pr e (in_pipe pi (mem s) (pipes s pi) s) = Ok True (in_pipe pi (mem s) (pipes s pi) s)"
    by (rule piperead_ready) (use ready in simp)
  then have start: "piperead pi addr n e s = bindK (loopK (piperead_body pi pr addr n) 0) (\<lambda>i.
     thenK (wakeup (C_pipe_nwrite pi)) (thenK (release (Pipe_lock pi)) (returnK i))) e (in_pipe pi (mem s) (pipes s pi) s)"
    using ok pipe_enter [OF s] by (simp add: piperead_def curproc_run thenK_def bindK_def)
  show ?thesis
    unfolding wpK_def [of "piperead pi addr n"] start
    unfolding wpK_def [symmetric] wp
  proof (rule wpK_mono [OF piperead_loop [OF s n, of addr e, folded xs_def, folded want_def]])
    fix r t assume "read_done pi pr addr want s r t"
    then obtain k m j where a: "k \<le> want \<and> r = of_nat k \<and> t = in_pipe pi m ((pipe_pop ^^ j) (pipes s pi)) s \<and>
      ucopied pt addr xs k (mem s) m \<and>
      (k = want \<and> j = k \<or> k < want \<and> j = Suc k \<and> upage (mem s) pt (addr + of_nat k) = 0)"
      unfolding read_done_def pt_def xs_def by blast
    then have t: "t = in_pipe pi m ((pipe_pop ^^ j) (pipes s pi)) s" by blast
    show "wpK (wakeup (C_pipe_nwrite pi)) (\<lambda>_ t. wpK (release (Pipe_lock pi)) (\<lambda>_ t.
      \<exists>k j m. k \<le> want \<and> r = of_nat k \<and> ucopied pt addr xs k (mem s) m \<and>
       t = s\<lparr>mach := settle (mach s), mem := m, procs := wake_all (C_pipe_nwrite pi) (Some pr) (procs s),
         pipes := (pipes s)(pi := (pipe_pop ^^ j) (pipes s pi))\<rparr> \<and>
       (k = want \<and> j = k \<or> k < want \<and> j = Suc k \<and> upage (mem s) pt (addr + of_nat k) = 0)) e t) e t"
      unfolding t wpK_def [of "wakeup _"] wk outcome.case wpK_def [of "release _"] rls
      using a by blast
  qed
qed

section \<open>Writing\<close>

lemma ubyte_one:
  "uread m pt va [c] \<longleftrightarrow> ubyte m pt va = Some c"
  by (simp add: uread_def)

text \<open>What \<^verbatim>\<open>pipewrite\<close> leaves when it stops after the bytes \<open>bs\<close>.\<close>

definition wrote :: "addr \<Rightarrow> nat \<Rightarrow> byte list \<Rightarrow> 'z pipe_st_scheme \<Rightarrow> 'z pipe_st_scheme" where
  "wrote pi pr bs s = s\<lparr>mach := settle (mach s), procs := wake_all (C_pipe_nread pi) (Some pr) (procs s),
     pipes := (pipes s)(pi := fold pipe_push bs (pipes s pi))\<rparr>"

lemma wrote_finish:
  assumes "pipe_caller pi pr s"
  shows "thenK (wakeup (C_pipe_nread pi)) (thenK (release (Pipe_lock pi)) (returnK x)) e
     (in_pipe pi (mem s) (fold pipe_push bs (pipes s pi)) s) = Ok x (wrote pi pr bs s)"
  using in_pipe_wakeup [OF assms] in_pipe_release [OF assms]
  by (simp add: thenK_def bindK_def returnK_def wrote_def)

lemma pipe_push_open [simp]: "readopen (fold pipe_push bs p) = readopen p"
  by (induction bs arbitrary: p) (simp_all add: pipe_push_def)

lemma pipewrite_round:
  assumes s: "pipe_caller pi pr s" and op: "readopen (pipes s pi) \<noteq> 0" "p_killed (procs s pr) = 0"
    and i: "sint i < sint n" and p: "p = fold pipe_push bs (pipes s pi)" "pq.used p < PIPESIZE"
  shows "wpK (pipewrite_body pi pr addr n i) (\<lambda>r u.
      (\<exists>c. ubyte (mem s) (p_pagetable (procs s pr)) (addr + scast i) = Some c \<and> r = Inl (i + 1) \<and>
         u = in_pipe pi (mem s) (pipe_push c p) s) \<or>
      upage (mem s) (p_pagetable (procs s pr)) (addr + scast i) = 0 \<and> r = Inr i \<and> u = wrote pi pr bs s) e
     (in_pipe pi (mem s) p s)"
proof -
  let ?pt = "p_pagetable (procs s pr)" and ?t = "in_pipe pi (mem s) p s"
  have wf: "pt_wf (mem ?t) ?pt" using pipe_callerD(5) [OF s] by (simp add: uspace_ok_def)
  obtain r dst where r: "copyin ?pt (Kobj []) (addr + scast i) 1 e ?t = Ok (r, dst) ?t"
    and cases: "r = 0 \<and> (\<exists>c. dst = Kobj [c] \<and> ubyte (mem s) ?pt (addr + scast i) = Some c) \<or>
      r = -1 \<and> upage (mem s) ?pt (addr + scast i) = 0"
    using copyin_run [OF wf, of "addr + scast i" 1 e]
    by (auto simp: wpK_iff length_Suc_conv ubyte_one)
  have full: "nwrite p \<noteq> nread p + of_nat PIPESIZE" using p(2) pq.full_iff [of p] by auto
  have "pipewrite_body pi pr addr n i e ?t = (if r = -1
      then Ok (Inr i) (wrote pi pr bs s)
      else Ok (Inl (i + 1)) (in_pipe pi (mem s) (pipe_push (case dst of Kobj [c] \<Rightarrow> c | _ \<Rightarrow> 0) p) s))"
    using i op full r in_pipe_killed [OF s, of pr e "mem s" p] wrote_finish [OF s, of "Inr i :: i32 + i32" e bs]
    by (simp add: pipewrite_body_def Let_def bindK_def getsK_def returnK_def thenK_def pipe_get_def proc_get_def p(1))
  then show ?thesis using cases by (auto simp: wpK_def)
qed

definition write_inv :: "addr \<Rightarrow> nat \<Rightarrow> u64 \<Rightarrow> nat \<Rightarrow> 'z pipe_st_scheme \<Rightarrow> i32 \<Rightarrow> 'z pipe_st_scheme \<Rightarrow> bool" where
  "write_inv pi pr addr want s i t \<longleftrightarrow> (\<exists>bs. length bs \<le> want \<and> i = of_nat (length bs) \<and>
     t = in_pipe pi (mem s) (fold pipe_push bs (pipes s pi)) s \<and>
     uread (mem s) (p_pagetable (procs s pr)) addr bs)"

definition write_done :: "addr \<Rightarrow> nat \<Rightarrow> u64 \<Rightarrow> nat \<Rightarrow> 'z pipe_st_scheme \<Rightarrow> i32 \<Rightarrow> 'z pipe_st_scheme \<Rightarrow> bool" where
  "write_done pi pr addr want s r t \<longleftrightarrow> (\<exists>bs. length bs \<le> want \<and> r = of_nat (length bs) \<and>
     t = wrote pi pr bs s \<and> uread (mem s) (p_pagetable (procs s pr)) addr bs \<and>
     (length bs < want \<longrightarrow> upage (mem s) (p_pagetable (procs s pr)) (addr + of_nat (length bs)) = 0))"

lemma pipewrite_loop:
  assumes s: "pipe_caller pi pr s" and op: "readopen (pipes s pi) \<noteq> 0" "p_killed (procs s pr) = 0"
    and n: "0 \<le> sint n" "pq.used (pipes s pi) + nat (sint n) \<le> PIPESIZE"
  shows "wpK (loopK (pipewrite_body pi pr addr n) 0) (write_done pi pr addr (nat (sint n)) s) e
     (in_pipe pi (mem s) (pipes s pi) s)"
proof (rule wp_loop_measure [where I = "write_inv pi pr addr (nat (sint n)) s" and f = "\<lambda>i _. nat (sint n) - unat i"])
  show "write_inv pi pr addr (nat (sint n)) s 0 (in_pipe pi (mem s) (pipes s pi) s)"
    by (auto simp: write_inv_def uread_def intro!: exI [of _ "[]"])
next
  let ?pt = "p_pagetable (procs s pr)" and ?N = "nat (sint n)"
  fix i t assume "write_inv pi pr addr ?N s i t"
  then obtain bs where bs: "length bs \<le> ?N" "i = of_nat (length bs)" "uread (mem s) ?pt addr bs"
    "t = in_pipe pi (mem s) (fold pipe_push bs (pipes s pi)) s" by (auto simp: write_inv_def)
  let ?p = "fold pipe_push bs (pipes s pi)"
  have small: "length bs < 2 ^ 31" using bs(1) sint_less [of n] by simp
  then have li: "sint i = int (length bs)" "unat i = length bs" "scast i = (of_nat (length bs) :: u64)"
    using bs(2) by (simp_all add: unat_small scast_small)
  show "wpK (pipewrite_body pi pr addr n i) (\<lambda>r u. case r of
       Inl i' \<Rightarrow> write_inv pi pr addr ?N s i' u \<and> ?N - unat i' < ?N - unat i
     | Inr x \<Rightarrow> write_done pi pr addr ?N s x u) e t"
  proof (cases "length bs = ?N")
    case True
    then have "pipewrite_body pi pr addr n i e t = Ok (Inr i) (wrote pi pr bs s)"
      using li(1) n(1) bs(4) wrote_finish [OF s, of "Inr i :: i32 + i32" e bs]
      by (simp add: pipewrite_body_def Let_def)
    moreover have "write_done pi pr addr ?N s i (wrote pi pr bs s)"
      unfolding write_done_def using True bs(1-3) by (intro exI [of _ bs]) simp
    ultimately show ?thesis by (simp add: wpK_def)
  next
    case False
    then have lt: "sint i < sint n" "length bs < ?N" using bs(1) li(1) by (simp_all add: zless_nat_eq_int_zless)
    have "pq.content ?p = pq.content (pipes s pi) @ bs" using n(2) lt by (intro pq.pushes_content) simp
    then have "pq.used ?p < PIPESIZE" using n(2) lt(2) by (simp flip: pq.length_content)
    note rd = pipewrite_round [OF s op lt(1) refl this, of addr e]
    have nx: "of_nat (length bs) + 1 = (of_nat (Suc (length bs)) :: i32)" "unat (of_nat (Suc (length bs)) :: i32) = Suc (length bs)"
      using unat_small [of "Suc (length bs)"] small by simp_all
    show ?thesis
      unfolding bs(4)
    proof (rule wpK_mono [OF rd], elim disjE exE conjE)
      fix r :: "i32 + i32" and u c assume c: "ubyte (mem s) ?pt (addr + scast i) = Some c" "r = Inl (i + 1)"
        "u = in_pipe pi (mem s) (pipe_push c ?p) s"
      have "write_inv pi pr addr ?N s (of_nat (Suc (length bs))) u"
        unfolding write_inv_def using lt(2) c bs(3) li(3)
        by (intro exI [of _ "bs @ [c]"]) (simp add: uread_append ubyte_one)
      then show "case r of
          Inl i' \<Rightarrow> write_inv pi pr addr ?N s i' u \<and> ?N - unat i' < ?N - unat i
        | Inr x \<Rightarrow> write_done pi pr addr ?N s x u"
        using c(2) bs(2) nx li(2) lt(2) by simp
    next
      fix r :: "i32 + i32" and u assume c: "upage (mem s) ?pt (addr + scast i) = 0" "r = Inr i" "u = wrote pi pr bs s"
      have "write_done pi pr addr ?N s i u"
        unfolding write_done_def using lt(2) c bs(1-3) li(3) by (intro exI [of _ bs]) simp
      then show "case r of
          Inl i' \<Rightarrow> write_inv pi pr addr ?N s i' u \<and> ?N - unat i' < ?N - unat i
        | Inr x \<Rightarrow> write_done pi pr addr ?N s x u"
        using c(2) by simp
    qed
  qed
qed

lemma pipewrite_run:
  assumes s: "pipe_caller pi pr s" and "readopen (pipes s pi) \<noteq> 0" "p_killed (procs s pr) = 0"
    and "0 \<le> sint n" "pq.used (pipes s pi) + nat (sint n) \<le> PIPESIZE"
  shows "wpK (pipewrite pi addr n) (write_done pi pr addr (nat (sint n)) s) e s"
proof -
  have "pipewrite pi addr n e s = loopK (pipewrite_body pi pr addr n) 0 e (in_pipe pi (mem s) (pipes s pi) s)"
    using pipe_callerD [OF s] pipe_enter [OF s] by (simp add: pipewrite_def curproc_run thenK_def bindK_def)
  then show ?thesis using pipewrite_loop [OF assms, of addr e] by (simp add: wpK_def)
qed

section \<open>Properties\<close>

definition pipe_st0 :: pipe_st where
  "pipe_st0 = \<lparr>mach = on_cpu 0 mach0, mem = one_page, freelist = 0, kernel_pagetable = 0, satp = 0,
     procs = (\<lambda>_. proc0\<lparr>p_pagetable := demo_pt\<rparr>), nextpid = 1, initproc = None, tfs = (\<lambda>_. tf0), ticks = 0,
     first = False, uart_tx_buf = (\<lambda>_. 0), uart_tx_w = 0, uart_tx_r = 0, uart_out = [], uart_in = [],
     uart_cfg = [], lsr_reads = 0, panicked = False, pr_locking = True, cons_buf = (\<lambda>_. 0), cons_r = 0,
     cons_w = 0, cons_e = 0, sleeplocks = (\<lambda>_. sleeplock0),
     pipes = (\<lambda>_. \<lparr>pi_data = (\<lambda>_. 0x61), nread = -1, nwrite = 1, readopen = 1, writeopen = 1\<rparr>)\<rparr>"

lemma pipe_st0_caller: "pipe_caller pi 0 pipe_st0"
  using one_page_space by (simp add: pipe_caller_def table_free_def pipe_st0_def)

lemma pipe_st0_simps [simp]:
  "mem pipe_st0 = one_page" "p_pagetable (procs pipe_st0 p) = demo_pt" "p_killed (procs pipe_st0 p) = 0"
  "readopen (pipes pipe_st0 pi) = 1" "pq.used (pipes pipe_st0 pi) = 2"
  by (simp_all add: pipe_st0_def proc0_def pq.used_def)

lemma pipe_st0_content [simp]: "pq.content (pipes pipe_st0 pi) = [0x61, 0x61]"
  by (simp add: pq.content_def) (simp add: pipe_st0_def upt_rec)

text \<open>
  C6. With an open reader, a caller that is not killed, and room for \<open>n\<close> bytes, \<^verbatim>\<open>pipewrite\<close> returns
  without sleeping. It appends to the queue of the pipe the bytes that it read from the caller's
  memory and returns their number, which is \<open>n\<close> unless an address in the range is not mapped; it
  wakes the sleeping readers and changes nothing else.
\<close>

theorem pipewrite_appends:
  assumes "pipe_caller pi pr s" and "readopen (pipes s pi) \<noteq> 0" and "p_killed (procs s pr) = 0"
    and "0 \<le> sint n" and "length (pq.content (pipes s pi)) + nat (sint n) \<le> PIPESIZE"
  shows "\<exists>bs t. pipewrite pi addr n e s = Ok (of_nat (length bs)) t \<and>
     uread (mem s) (p_pagetable (procs s pr)) addr bs \<and>
     pq.content (pipes t pi) = pq.content (pipes s pi) @ bs \<and>
     (length bs = nat (sint n) \<or>
      length bs < nat (sint n) \<and> upage (mem s) (p_pagetable (procs s pr)) (addr + of_nat (length bs)) = 0) \<and>
     t = s\<lparr>mach := settle (mach s), procs := wake_all (C_pipe_nread pi) (Some pr) (procs s),
       pipes := (pipes s)(pi := pipes t pi)\<rparr>"
proof -
  obtain bs t where bs: "pipewrite pi addr n e s = Ok (of_nat (length bs)) t" "length bs \<le> nat (sint n)"
    "t = wrote pi pr bs s" "uread (mem s) (p_pagetable (procs s pr)) addr bs"
    "length bs < nat (sint n) \<longrightarrow> upage (mem s) (p_pagetable (procs s pr)) (addr + of_nat (length bs)) = 0"
    using pipewrite_run [OF assms(1-4), of addr e] assms(5) by (auto simp: wpK_iff write_done_def)
  have "pq.content (fold pipe_push bs (pipes s pi)) = pq.content (pipes s pi) @ bs"
    using bs(2) assms(5) by (intro pq.pushes_content) simp
  then show ?thesis using bs by (intro exI [of _ bs] exI [of _ t]) (auto simp: wrote_def)
qed

theorem pipewrite_appends_witness:
  "\<exists>bs t. pipewrite 0x80104000 16 2 idle_env pipe_st0 = Ok 2 t \<and> length bs = 2 \<and>
     pq.content (pipes t 0x80104000) = [0x61, 0x61] @ bs"
proof -
  have "upage one_page demo_pt (16 + of_nat k) \<noteq> 0" if "k < 2" for k
    using that by (auto simp: one_page_upage less_2_cases_iff)
  moreover have "4 \<le> PIPESIZE" by (simp add: PIPESIZE_def)
  then obtain bs t where t: "pipewrite 0x80104000 16 2 idle_env pipe_st0 = Ok (of_nat (length bs)) t"
    "pq.content (pipes t 0x80104000) = [0x61, 0x61] @ bs"
    "length bs = 2 \<or> length bs < 2 \<and> upage one_page demo_pt (16 + of_nat (length bs)) = 0"
    using pipewrite_appends [OF pipe_st0_caller, of "0x80104000" 2 16 idle_env]
    by auto
  ultimately have "length bs = 2" by blast
  then show ?thesis using t by auto
qed

text \<open>
  C7. When the pipe holds bytes or has no writer left, \<^verbatim>\<open>piperead\<close> returns without sleeping. It
  copies the oldest bytes in order to the caller's memory, as many as were asked for or as there
  are, and takes exactly these from the queue --- unless it meets an address that is not mapped:
  then the byte meant for that address is taken from the queue as well and is lost.
\<close>

theorem piperead_takes:
  assumes "pipe_caller pi pr s" and "0 \<le> sint n"
    and "pq.content (pipes s pi) \<noteq> [] \<or> writeopen (pipes s pi) = 0"
  shows "\<exists>k t. let xs = pq.content (pipes s pi); pt = p_pagetable (procs s pr); want = min (nat (sint n)) (length xs) in
     piperead pi addr n e s = Ok (of_nat k) t \<and> ucopied pt addr xs k (mem s) (mem t) \<and>
     (k = want \<and> pq.content (pipes t pi) = drop k xs \<or>
      k < want \<and> upage (mem s) pt (addr + of_nat k) = 0 \<and> pq.content (pipes t pi) = drop (Suc k) xs) \<and>
     t = s\<lparr>mach := settle (mach s), mem := mem t, procs := wake_all (C_pipe_nwrite pi) (Some pr) (procs s),
       pipes := (pipes s)(pi := pipes t pi)\<rparr>"
proof -
  let ?xs = "pq.content (pipes s pi)" and ?pt = "p_pagetable (procs s pr)"
  let ?want = "min (nat (sint n)) (length ?xs)"
  obtain k j m t where t: "k \<le> ?want" "piperead pi addr n e s = Ok (of_nat k) t" "ucopied ?pt addr ?xs k (mem s) m"
    "t = s\<lparr>mach := settle (mach s), mem := m, procs := wake_all (C_pipe_nwrite pi) (Some pr) (procs s),
       pipes := (pipes s)(pi := (pipe_pop ^^ j) (pipes s pi))\<rparr>"
    "k = ?want \<and> j = k \<or> k < ?want \<and> j = Suc k \<and> upage (mem s) ?pt (addr + of_nat k) = 0"
    using piperead_run [OF assms, of addr e] by (auto simp only: wpK_iff)
  have "pq.content ((pipe_pop ^^ j) (pipes s pi)) = drop j ?xs"
    using t(5) by (intro pq.pops_content) auto
  then show ?thesis using t unfolding Let_def by (intro exI [of _ k] exI [of _ t]) auto
qed

theorem piperead_takes_witness:
  "\<exists>t. piperead 0x80104000 4095 2 idle_env pipe_st0 = Ok 1 t \<and> pq.content (pipes t 0x80104000) = []"
proof -
  let ?p = "pipes pipe_st0 0x80104000" and ?pt = "p_pagetable (procs pipe_st0 0)"
  have "0 \<le> sint (2 :: i32)" "pq.content ?p \<noteq> [] \<or> writeopen ?p = 0" by simp_all
  from piperead_takes [OF pipe_st0_caller this, of 4095 idle_env] obtain k t
    where t: "piperead 0x80104000 4095 2 idle_env pipe_st0 = Ok (of_nat k) t"
      "ucopied ?pt 4095 (pq.content ?p) k (mem pipe_st0) (mem t)"
      "k = min (nat (sint (2 :: i32))) (length (pq.content ?p)) \<or> k < min (nat (sint (2 :: i32))) (length (pq.content ?p)) \<and>
        upage (mem pipe_st0) ?pt (4095 + of_nat k) = 0 \<and> pq.content (pipes t 0x80104000) = drop (Suc k) (pq.content ?p)"
    unfolding Let_def by blast
  note t = t(1) t(2,3) [simplified]
  have "upage (mem t) demo_pt 4096 = 0" using t(2) by (simp add: ucopied_def one_page_upage)
  then have "ubyte (mem t) demo_pt 4096 = None" by (simp add: ubyte_def)
  then have "k \<noteq> 2" using t(2) by (auto simp: ucopied_def dest: spec [of _ 4096])
  moreover have "k \<noteq> 0" by (rule notI) (use t(3) in \<open>simp add: one_page_upage\<close>)
  ultimately have "k = 1" using t(3) by linarith
  then show ?thesis using t(1,3) by simp
qed

end
