(* ===== verification/Console_Ops.thy ===== *)
theory Console_Ops
  imports Console Proc_Ops Ring_Buffer
begin

text \<open>
  What the console code of \<^verbatim>\<open>kernel/uart.c\<close> and \<^verbatim>\<open>kernel/console.c\<close> does: the bytes that leave the
  UART, and the line editor as a function on the text that has been typed.
\<close>

interpretation uq: ring_buffer UART_TX_BUF_SIZE uart_tx_buf uart_tx_r uart_tx_w uart_push uart_pop
  by unfold_locales (simp_all add: uart_push_def uart_pop_def UART_TX_BUF_SIZE_def)

interpretation cq: ring_buffer_undo INPUT_BUF_SIZE cons_buf cons_r cons_e cons_push cons_pop cons_back
  by unfold_locales (simp_all add: cons_push_def cons_pop_def cons_back_def INPUT_BUF_SIZE_def)

lemma con_upd:
  fixes s :: "'z con_st_scheme"
  shows "mach_update f (uart_out_update g s) = uart_out_update g (mach_update f s)"
    and "mach_update f (lsr_reads_update h s) = lsr_reads_update h (mach_update f s)"
    and "mach_update f (uart_tx_buf_update a s) = uart_tx_buf_update a (mach_update f s)"
    and "mach_update f (uart_tx_w_update b s) = uart_tx_w_update b (mach_update f s)"
    and "mach_update f (uart_tx_r_update b s) = uart_tx_r_update b (mach_update f s)"
    and "mach_update f (cons_buf_update a s) = cons_buf_update a (mach_update f s)"
    and "mach_update f (cons_e_update c s) = cons_e_update c (mach_update f s)"
    and "mach_update f (cons_w_update c s) = cons_w_update c (mach_update f s)"
    and "mach_update f (cons_r_update c s) = cons_r_update c (mach_update f s)"
    and "procs_update k (uart_out_update g s) = uart_out_update g (procs_update k s)"
    and "procs_update k (lsr_reads_update h s) = lsr_reads_update h (procs_update k s)"
  by simp_all

section \<open>Output\<close>

text \<open>
  From \<open>s\<close> to \<open>t\<close> the bytes \<open>bs\<close> have been given to the UART; apart from that only the
  interrupt state of the machine and the number of looks at the status register may differ.
\<close>

definition printed :: "byte list \<Rightarrow> 'z con_st_scheme \<Rightarrow> 'z con_st_scheme \<Rightarrow> bool" where
  "printed bs s t \<longleftrightarrow> (\<exists>m n. settle m = settle (mach s) \<and>
     t = s\<lparr>mach := m, lsr_reads := n, uart_out := uart_out s @ bs\<rparr>)"

text \<open>The UART is ready for another byte again and again.\<close>

definition tx_live :: "'s env \<Rightarrow> bool" where
  "tx_live e \<longleftrightarrow> (\<forall>n. \<exists>k \<ge> n. tx_idle e k)"

lemma printed_refl [simp, intro]: "printed [] s s"
  by (auto simp: printed_def intro!: exI [of _ "mach s"] exI [of _ "lsr_reads s"])

lemma printed_trans: "printed a s t \<Longrightarrow> printed b t u \<Longrightarrow> printed (a @ b) s u"
  unfolding printed_def
proof (elim exE conjE)
  fix m n m' n'
  assume m: "settle m = settle (mach s)" "settle m' = settle (mach t)"
    and t: "t = s\<lparr>mach := m, lsr_reads := n, uart_out := uart_out s @ a\<rparr>"
    and u: "u = t\<lparr>mach := m', lsr_reads := n', uart_out := uart_out t @ b\<rparr>"
  have "settle m' = settle (mach s)" using m by (simp add: t)
  moreover have "u = s\<lparr>mach := m', lsr_reads := n', uart_out := uart_out s @ a @ b\<rparr>"
    by (simp add: t u)
  ultimately show "\<exists>m n. settle m = settle (mach s) \<and> u = s\<lparr>mach := m, lsr_reads := n, uart_out := uart_out s @ a @ b\<rparr>"
    by blast
qed

lemma printedD:
  assumes "printed bs s t"
  shows "settle (mach t) = settle (mach s)" "sane (mach t) = sane (mach s)" "panicked t = panicked s"
    "uart_out t = uart_out s @ bs" "procs t = procs s" "mem t = mem s" "cons_buf t = cons_buf s"
    "cons_r t = cons_r s" "cons_w t = cons_w s" "cons_e t = cons_e s"
    "uart_tx_buf t = uart_tx_buf s" "uart_tx_r t = uart_tx_r s" "uart_tx_w t = uart_tx_w s"
    "uart_in t = uart_in s" "pr_locking t = pr_locking s"
proof -
  obtain m n where m: "settle m = settle (mach s)"
    and t: "t = s\<lparr>mach := m, lsr_reads := n, uart_out := uart_out s @ bs\<rparr>"
    using assms unfolding printed_def by (elim exE conjE)
  have "sane (settle m) = sane (settle (mach s))" by (simp only: m)
  then show "sane (mach t) = sane (mach s)" by (simp add: t)
  show "settle (mach t) = settle (mach s)" by (simp add: t m)
qed (use assms in \<open>auto simp: printed_def\<close>)

lemma settle_inside:
  assumes "sane m" and "settle m' = settle (acq l m)"
  shows "m' = acq l m"
proof -
  have "depth m' = depth (acq l m)" by (rule settle_eqD(5) [OF assms(2)])
  then have "settle m' = m'" using assms(1) sane_depth [of m] by (simp add: settle_def)
  then show ?thesis using assms by simp
qed

lemma wait_tx:
  assumes "tx_live e"
  shows "wpK (loopK (\<lambda>_. bindK lsr_tx_idle (\<lambda>idle. returnK (if idle then Inr () else Inl ()))) ())
     (\<lambda>_ t. \<exists>n. t = s\<lparr>lsr_reads := n\<rparr>) e s"
proof -
  let ?wait = "\<lambda>n. (LEAST k. n \<le> k \<and> tx_idle e k) - n"
  have dec: "?wait (Suc n) < ?wait n" if "\<not> tx_idle e n" for n
  proof -
    obtain k where k: "n \<le> k" "tx_idle e k" using assms by (auto simp: tx_live_def)
    define l where "l = (LEAST k. n \<le> k \<and> tx_idle e k)"
    have l: "n \<le> l" "tx_idle e l" unfolding l_def using LeastI [of "\<lambda>k. n \<le> k \<and> tx_idle e k" k] k by auto
    then have "Suc n \<le> l" using that by (metis le_antisym not_less_eq_eq)
    moreover have "(LEAST k. Suc n \<le> k \<and> tx_idle e k) = l"
    proof (rule Least_equality)
      show "Suc n \<le> l \<and> tx_idle e l" using \<open>Suc n \<le> l\<close> l by simp
      show "l \<le> y" if "Suc n \<le> y \<and> tx_idle e y" for y
        unfolding l_def using that by (intro Least_le) simp
    qed
    ultimately show ?thesis by (simp add: l_def [symmetric])
  qed
  show ?thesis
  proof (rule wp_loop_measure [where I = "\<lambda>_ t. \<exists>n. t = s\<lparr>lsr_reads := n\<rparr>" and f = "\<lambda>_ t. ?wait (lsr_reads t)"])
    show "\<exists>n. s = s\<lparr>lsr_reads := n\<rparr>" by (rule exI [of _ "lsr_reads s"]) simp
  next
    fix j and t assume "\<exists>n. t = s\<lparr>lsr_reads := n\<rparr>"
    then show "wpK (bindK lsr_tx_idle (\<lambda>idle. returnK (if idle then Inr () else Inl ())))
       (\<lambda>r u. case r of Inl k \<Rightarrow> (\<exists>n. u = s\<lparr>lsr_reads := n\<rparr>) \<and> ?wait (lsr_reads u) < ?wait (lsr_reads t)
        | Inr a \<Rightarrow> \<exists>n. u = s\<lparr>lsr_reads := n\<rparr>) e t"
      using dec [of "lsr_reads t"] by (auto simp: wp lsr_tx_idle_def)
  qed
qed

lemma uartputc_sync_run:
  assumes "tx_live e" and "sane (mach s)" and "\<not> panicked s"
  shows "wpK (uartputc_sync c) (\<lambda>_ t. printed [c] s t) e s"
proof -
  have "wpK pop_off (\<lambda>_ t. printed [c] s t) e (s\<lparr>mach := pushoff (mach s), lsr_reads := n, uart_out := uart_out s @ [c]\<rparr>)" for n
    using assms(2) sane_depth [OF assms(2)]
    by (auto simp: wpK_def pop_off_run printed_def intro!: exI [of _ "settle (mach s)"] exI [of _ n])
  then show ?thesis
    using assms(3) wait_tx [OF assms(1), of "s\<lparr>mach := pushoff (mach s)\<rparr>"]
    by (auto simp: uartputc_sync_def wp write_thr_def wpK_def [of push_off] elim!: wpK_mono)
qed

lemma consputc_run:
  assumes "tx_live e" and "sane (mach s)" and "\<not> panicked s"
  shows "wpK (consputc c) (\<lambda>_ t. printed (case c of Some b \<Rightarrow> [b] | None \<Rightarrow> [8, 32, 8]) s t) e s"
proof (cases c)
  case None
  have step: "wpK (uartputc_sync b) (\<lambda>_ u. printed (bs @ [b]) s u) e t" if "printed bs s t" for b bs t
    using uartputc_sync_run [OF assms(1), of t b] printedD(2,3) [OF that] assms(2,3) printed_trans [OF that]
    by (auto elim!: wpK_mono)
  have sp: "ch CHR '' '' = 32" by (simp add: ch_def)
  have "wpK (uartputc_sync 8) (\<lambda>_ t. wpK (uartputc_sync 32) (\<lambda>_ u. wpK (uartputc_sync 8)
      (\<lambda>_ v. printed [8, 32, 8] s v) e u) e t) e s"
    by (rule wpK_mono [OF step [OF printed_refl]], rule wpK_mono [OF step], assumption)
      (use step [of "[8, 32]"] in simp)
  then show ?thesis using None by (simp add: consputc_def wp sp)
next
  case (Some b)
  then show ?thesis using uartputc_sync_run [OF assms] by (simp add: consputc_def)
qed

lemma foreach_printed:
  assumes "tx_live e" and "\<And>x t. P t \<Longrightarrow> wpK (f x) (\<lambda>_ u. printed (out x) t u) e t"
    and P: "\<And>bs t u. P t \<Longrightarrow> printed bs t u \<Longrightarrow> P u" and "P s"
  shows "wpK (foreachK xs f) (\<lambda>_ t. printed (concat (map out xs)) s t) e s"
  using assms(4)
proof (induction xs arbitrary: s)
  case Nil
  then show ?case by (simp add: wp)
next
  case (Cons x xs)
  have "wpK (foreachK xs f) (\<lambda>_ u. printed (concat (map out (x # xs))) s u) e t" if "printed (out x) s t" for t
    using Cons.IH [OF P [OF Cons.prems that]] by (rule wpK_mono) (use printed_trans [OF that] in simp)
  then show ?case
    unfolding wp_foreach_Cons by (rule wpK_mono [OF assms(2) [OF Cons.prems]])
qed

text \<open>A thread that may print: no panic, and the lock of \<^verbatim>\<open>printf\<close> is free.\<close>

definition may_print :: "'z con_st_scheme \<Rightarrow> bool" where
  "may_print s \<longleftrightarrow> sane (mach s) \<and> \<not> panicked s \<and> clean Pr_lock (mach s)"

lemma may_print_printed: "printed bs s t \<Longrightarrow> may_print t = may_print s"
proof -
  assume p: "printed bs s t"
  have "clean l (settle (mach t)) = clean l (settle (mach s))" for l by (simp only: printedD(1) [OF p])
  then show ?thesis using printedD(2,3) [OF p] by (simp add: may_print_def)
qed

lemma puts_run:
  assumes "tx_live e" and "sane (mach s)" and "\<not> panicked s"
  shows "wpK (foreachK bs (\<lambda>b. consputc (Some b))) (\<lambda>_ t. printed bs s t) e s"
proof -
  have "wpK (foreachK bs (\<lambda>b. consputc (Some b))) (\<lambda>_ t. printed (concat (map (\<lambda>b. [b]) bs)) s t) e s"
  proof (rule foreach_printed [where P = "\<lambda>t. sane (mach t) \<and> \<not> panicked t"])
    show "wpK (consputc (Some b)) (\<lambda>_ u. printed [b] t u) e t" if "sane (mach t) \<and> \<not> panicked t" for b t
      using consputc_run [OF assms(1), of t "Some b"] that by simp
    show "sane (mach u) \<and> \<not> panicked u" if "sane (mach t) \<and> \<not> panicked t" "printed bs t u" for bs t u
      using printedD(2,3) [OF that(2)] that(1) by simp
  qed (use assms in auto)
  then show ?thesis by simp
qed

lemma printf_run:
  assumes "tx_live e" and "may_print s" and "kformat (str fmt) args = Some bs"
  shows "wpK (printf fmt args) (\<lambda>_ t. printed bs s t) e s"
proof (cases "pr_locking s")
  case True
  let ?s = "s\<lparr>mach := acq Pr_lock (mach s)\<rparr>"
  have s: "sane (mach s)" "clean Pr_lock (mach s)" "\<not> panicked s" using assms(2) by (auto simp: may_print_def)
  have "wpK (release Pr_lock) (\<lambda>_ u. printed bs s u) e t" if "printed bs ?s t" for t
  proof -
    have "\<exists>m n. settle m = settle (acq Pr_lock (mach s)) \<and> t = s\<lparr>mach := m, lsr_reads := n, uart_out := uart_out s @ bs\<rparr>"
      using that by (simp add: printed_def)
    then obtain m n where m: "settle m = settle (acq Pr_lock (mach s))"
      and t: "t = s\<lparr>mach := m, lsr_reads := n, uart_out := uart_out s @ bs\<rparr>" by (elim exE conjE)
    have "m = acq Pr_lock (mach s)" using m by (rule settle_inside [OF s(1)])
    then show ?thesis using s sane_depth [OF s(1)]
      by (auto simp: t wpK_def release_run con_upd printed_def intro!: exI [of _ "settle (mach s)"] exI [of _ n])
  qed
  then show ?thesis
    using True assms(1,3) s puts_run [of e ?s bs] by (auto simp: printf_def wp elim!: wpK_mono)
next
  case False
  then show ?thesis
    using assms puts_run [of e s bs] by (auto simp: printf_def wp may_print_def elim!: wpK_mono)
qed

text \<open>What \<^verbatim>\<open>procdump\<close> prints.\<close>

definition dump_line :: "proc \<Rightarrow> byte list" where
  "dump_line r = (if p_state r = UNUSED then [] else
     printint (p_pid r) 10 True @ [32] @ str (state_name (p_state r)) @ [32] @ takeWhile (\<lambda>b. b \<noteq> 0) (p_name r) @ [10])"

definition dump :: "(nat \<Rightarrow> proc) \<Rightarrow> byte list" where
  "dump ps = 10 # concat (map (\<lambda>p. dump_line (ps p)) [0..<NPROC])"

lemma kformat_newline [simp]: "kformat (str [CHR 0x0A]) [] = Some [10]"
  by (simp add: str_def ch_def)

lemma kformat_dump:
  "kformat (str ''%d %s %s'') [Fint x, Fstr (Some (str (state_name st))), Fstr (Some n)] =
     Some (printint x 10 True @ [32] @ str (state_name st) @ [32] @ takeWhile (\<lambda>b. b \<noteq> 0) n)"
proof -
  have "takeWhile (\<lambda>b. b \<noteq> 0) (str (state_name st)) = str (state_name st)"
    by (cases st) (simp_all add: state_name_def str_def ch_def)
  then show ?thesis by (simp add: str_def [of "''%d %s %s''"] ch_def)
qed

lemma procdump_run:
  assumes "tx_live e" and "may_print s"
  shows "wpK procdump (\<lambda>_ t. printed (dump (procs s)) s t) e s"
proof -
  let ?P = "\<lambda>t. may_print t \<and> procs t = procs s"
  let ?line = "\<lambda>p. bindK (proc_get p id) (\<lambda>r.
       if p_state r = UNUSED then returnK ()
       else thenK (printf ''%d %s %s'' [Fint (p_pid r), Fstr (Some (str (state_name (p_state r)))), Fstr (Some (p_name r))])
                  (printf [CHR 0x0A] []))"
  have P: "?P t \<Longrightarrow> printed bs t u \<Longrightarrow> ?P u" for bs t u
    using may_print_printed printedD(5) by metis
  have pf: "wpK (printf fmt args) (\<lambda>_ u. printed (a @ bs) t u) e v"
    if "printed a t v" "may_print v" "kformat (str fmt) args = Some bs" for a bs t v fmt args
    using printf_run [OF assms(1) that(2,3)] by (rule wpK_mono) (rule printed_trans [OF that(1)])
  have line: "wpK (?line p) (\<lambda>_ u. printed (dump_line (procs s p)) t u) e t" if t: "?P t" for p t
  proof (cases "p_state (procs s p) = UNUSED")
    case True
    then show ?thesis using t by (simp add: wp proc_get_def dump_line_def)
  next
    case False
    let ?r = "procs s p"
    let ?bs = "printint (p_pid ?r) 10 True @ [32] @ str (state_name (p_state ?r)) @ [32] @ takeWhile (\<lambda>b. b \<noteq> 0) (p_name ?r)"
    have "wpK (printf ''%d %s %s'' [Fint (p_pid ?r), Fstr (Some (str (state_name (p_state ?r)))), Fstr (Some (p_name ?r))])
        (\<lambda>_ u. wpK (printf [CHR 0x0A] []) (\<lambda>_ v. printed (?bs @ [10]) t v) e u) e t"
      by (rule wpK_mono [OF printf_run [OF assms(1) conjunct1 [OF t] kformat_dump]])
         (rule pf, assumption, use P t in blast, simp)
    then show ?thesis using False t by (simp add: wp proc_get_def dump_line_def)
  qed
  have "wpK (printf [CHR 0x0A] []) (\<lambda>_ t. wpK (foreachK [0..<NPROC] ?line) (\<lambda>_ u. printed (dump (procs s)) s u) e t) e s"
  proof (rule wpK_mono [OF printf_run [OF assms kformat_newline]])
    fix t assume t: "printed [10] s t"
    have "wpK (foreachK [0..<NPROC] ?line) (\<lambda>_ u. printed (concat (map (\<lambda>p. dump_line (procs s p)) [0..<NPROC])) t u) e t"
      by (rule foreach_printed [OF assms(1), where P = ?P]) (use line P t assms(2) in blast)+
    then show "wpK (foreachK [0..<NPROC] ?line) (\<lambda>_ u. printed (dump (procs s)) s u) e t"
      by (rule wpK_mono) (use printed_trans [OF t] in \<open>simp add: dump_def\<close>)
  qed
  then show ?thesis by (simp only: procdump_def wp_then)
qed

section \<open>Input\<close>

text \<open>
  Inside a critical section the machine state does not change at all while bytes are printed:
  \<open>outs\<close> is what is left of \<open>printed\<close>.
\<close>

definition outs :: "nat \<Rightarrow> byte list \<Rightarrow> 'z con_st_scheme \<Rightarrow> 'z con_st_scheme" where
  "outs n bs s = s\<lparr>lsr_reads := n, uart_out := uart_out s @ bs\<rparr>"

lemma outs_simps [simp]:
  "mach (outs n bs s) = mach s" "procs (outs n bs s) = procs s" "panicked (outs n bs s) = panicked s"
  "cons_buf (outs n bs s) = cons_buf s" "cons_r (outs n bs s) = cons_r s" "cons_w (outs n bs s) = cons_w s"
  "cons_e (outs n bs s) = cons_e s" "uart_out (outs n bs s) = uart_out s @ bs"
  "outs n bs (outs k cs s) = outs n (cs @ bs) s" "uart_in (outs n bs s) = uart_in s"
  "cq.used (outs n bs s) = cq.used s" "cq.content (outs n bs s) = cq.content s"
  "table_free (outs n bs s) = table_free s"
  by (simp_all add: outs_def cq.content_def cq.used_def table_free_def)

lemma outs_upd:
  "cons_back (outs n bs s) = outs n bs (cons_back s)" "cons_push c (outs n bs s) = outs n bs (cons_push c s)"
  "(outs n bs s)\<lparr>cons_w := w\<rparr> = outs n bs (s\<lparr>cons_w := w\<rparr>)"
  "(outs n bs s)\<lparr>mach := m\<rparr> = outs n bs (s\<lparr>mach := m\<rparr>)"
  "(outs n bs s)\<lparr>procs := ps\<rparr> = outs n bs (s\<lparr>procs := ps\<rparr>)"
  by (simp_all add: outs_def cons_back_def cons_push_def)

lemma printed_inside:
  assumes "printed bs s t" and "0 < depth (mach s)"
  shows "\<exists>n. t = outs n bs s"
proof -
  obtain m n where m: "settle m = settle (mach s)"
    and t: "t = s\<lparr>mach := m, lsr_reads := n, uart_out := uart_out s @ bs\<rparr>"
    using assms(1) unfolding printed_def by (elim exE conjE)
  have "depth (settle m) = depth (settle (mach s))" by (simp only: m)
  then have "depth m = depth (mach s)" by simp
  then have "m = mach s" using m assms(2) by (simp add: settle_def)
  then show ?thesis by (auto simp: t outs_def)
qed

text \<open>The text typed so far: the bytes a reader may have, and the line that is still being edited.\<close>

definition committed :: "'z con_st_scheme \<Rightarrow> byte list" where
  "committed s = take (unat (cons_w s - cons_r s)) (cq.content s)"

definition pending :: "'z con_st_scheme \<Rightarrow> byte list" where
  "pending s = drop (unat (cons_w s - cons_r s)) (cq.content s)"

definition cons_ok :: "'z con_st_scheme \<Rightarrow> bool" where
  "cons_ok s \<longleftrightarrow> cq.bounded s \<and> unat (cons_w s - cons_r s) \<le> cq.used s \<and> 10 \<notin> set (pending s)"

lemma line_outs [simp]: "committed (outs n bs s) = committed s" "pending (outs n bs s) = pending s"
  "cons_ok (outs n bs s) = cons_ok s"
  by (simp_all add: committed_def pending_def cons_ok_def cq.bounded_def)

lemma line_upd [simp]:
  "committed (s\<lparr>mach := m\<rparr>) = committed s" "pending (s\<lparr>mach := m\<rparr>) = pending s" "cons_ok (s\<lparr>mach := m\<rparr>) = cons_ok s"
  "committed (s\<lparr>procs := ps\<rparr>) = committed s" "pending (s\<lparr>procs := ps\<rparr>) = pending s" "cons_ok (s\<lparr>procs := ps\<rparr>) = cons_ok s"
  by (simp_all add: committed_def pending_def cons_ok_def cq.bounded_def cq.content_def cq.used_def)

lemma pending_empty: "cons_ok s \<Longrightarrow> cons_e s = cons_w s \<longleftrightarrow> pending s = []"
proof
  assume "cons_ok s" "pending s = []"
  then have "cq.used s = unat (cons_w s - cons_r s)" by (simp add: cons_ok_def pending_def)
  then have "cons_e s - cons_r s = cons_w s - cons_r s" by (simp add: cq.used_def word_unat_eq_iff)
  then show "cons_e s = cons_w s" by simp
qed (simp add: pending_def cq.used_def)

lemma pending_content: "pending s \<noteq> [] \<Longrightarrow> cq.content s \<noteq> []"
  by (metis drop_Nil pending_def)

lemma pending_last: "pending s \<noteq> [] \<Longrightarrow> last (pending s) = cons_buf s (unat (cons_e s - 1) mod INPUT_BUF_SIZE)"
  using cq.last_content [OF pending_content, of s] by (simp add: pending_def)

lemma cons_back_line:
  assumes "cons_ok s" and "pending s \<noteq> []"
  shows "committed (cons_back s) = committed s" "pending (cons_back s) = butlast (pending s)" "cons_ok (cons_back s)"
proof -
  have c: "cq.content s \<noteq> []" by (rule pending_content [OF assms(2)])
  have u: "unat (cons_w s - cons_r s) < cq.used s" using assms(2) by (simp add: pending_def)
  have w: "cons_w (cons_back s) - cons_r (cons_back s) = cons_w s - cons_r s" by (simp add: cons_back_def)
  show "committed (cons_back s) = committed s"
    using u by (simp add: committed_def w cq.undo_content [OF c] butlast_conv_take)
  show p: "pending (cons_back s) = butlast (pending s)"
    by (simp add: pending_def w cq.undo_content [OF c] drop_butlast)
  show "cons_ok (cons_back s)"
    using assms u in_set_butlastD by (fastforce simp: cons_ok_def p w cq.used_undo [OF c] cq.bounded_def)
qed

text \<open>The line editor as a function of the text: the bytes readable, and the line being typed.\<close>

definition edit :: "byte \<Rightarrow> byte list \<times> byte list \<Rightarrow> byte list \<times> byte list" where
  "edit c = (\<lambda>(com, ln).
     if c = ctrl CHR ''P'' then (com, ln)
     else if c = ctrl CHR ''U'' then (com, [])
     else if c = ctrl CHR ''H'' \<or> c = 0x7f then (com, butlast ln)
     else if c = 0 \<or> length com + length ln \<ge> INPUT_BUF_SIZE then (com, ln)
     else let c = (if c = 13 then 10 else c); ln = ln @ [c] in
       if c = 10 \<or> c = ctrl CHR ''D'' \<or> length com + length ln = INPUT_BUF_SIZE
       then (com @ ln, []) else (com, ln))"

definition echo :: "byte \<Rightarrow> (nat \<Rightarrow> proc) \<Rightarrow> byte list \<times> byte list \<Rightarrow> byte list" where
  "echo c ps = (\<lambda>(com, ln).
     if c = ctrl CHR ''P'' then dump ps
     else if c = ctrl CHR ''U'' then concat (replicate (length ln) [8, 32, 8])
     else if c = ctrl CHR ''H'' \<or> c = 0x7f then (if ln = [] then [] else [8, 32, 8])
     else if c = 0 \<or> length com + length ln \<ge> INPUT_BUF_SIZE then []
     else [if c = 13 then 10 else c])"

definition line :: "'z con_st_scheme \<Rightarrow> byte list \<times> byte list" where
  "line s = (committed s, pending s)"

lemma line_length: "cons_ok s \<Longrightarrow> length (committed s) + length (pending s) = cq.used s"
  by (simp add: committed_def pending_def cons_ok_def)

lemma backspace_run:
  assumes "tx_live e" and "sane (mach s)" and "0 < depth (mach s)" and "\<not> panicked s"
  shows "wpK (consputc c) (\<lambda>_ t. \<exists>n. t = outs n (case c of Some b \<Rightarrow> [b] | None \<Rightarrow> [8, 32, 8]) s) e s"
  using consputc_run [OF assms(1,2,4)] by (rule wpK_mono) (rule printed_inside [OF _ assms(3)])

lemma kill_line_run:
  assumes "tx_live e" and "sane (mach s)" and "0 < depth (mach s)" and "\<not> panicked s" and ok: "cons_ok s"
  shows "wpK kill_line (\<lambda>_ t. \<exists>n. t = outs n (concat (replicate (length (pending s)) [8, 32, 8])) ((cons_back ^^ length (pending s)) s)
     \<and> cons_ok t \<and> line t = (committed s, [])) e s"
proof -
  let ?st = "\<lambda>k n. outs n (concat (replicate k [8, 32, 8])) ((cons_back ^^ k) s)"
  let ?I = "\<lambda>_ t. \<exists>k n. k + length (pending t) = length (pending s) \<and> t = ?st k n \<and> cons_ok t \<and> committed t = committed s"
  have keep: "mach ((cons_back ^^ k) s) = mach s" "panicked ((cons_back ^^ k) s) = panicked s" for k
    by (induction k) (simp_all add: cons_back_def)
  show ?thesis
    unfolding kill_line_def
  proof (rule wp_loop_measure [where I = ?I and f = "\<lambda>_ t. length (pending t)"])
    show "?I () s"
      by (rule exI [of _ 0], rule exI [of _ "lsr_reads s"]) (use ok in \<open>simp add: outs_def\<close>)
  next
    fix j t assume "?I j t"
    then obtain k n where k: "k + length (pending t) = length (pending s)" and t: "t = ?st k n"
      and okt: "cons_ok t" and com: "committed t = committed s" by blast
    show "wpK (bindK (getsK (\<lambda>s. cons_e s \<noteq> cons_w s \<and> cons_buf s (unat (cons_e s - 1) mod INPUT_BUF_SIZE) \<noteq> 10)) (\<lambda>more.
        if \<not> more then returnK (Inr ()) else thenK (modifyK cons_back) (thenK (consputc None) (returnK (Inl ())))))
      (\<lambda>r u. case r of Inl i \<Rightarrow> ?I i u \<and> length (pending u) < length (pending t)
        | Inr a \<Rightarrow> \<exists>n. u = ?st (length (pending s)) n \<and> cons_ok u \<and> line u = (committed s, [])) e t"
    proof (cases "pending t = []")
      case True
      then show ?thesis using okt k com t by (auto simp: wp pending_empty line_def)
    next
      case False
      have "10 \<notin> set (pending t)" using okt by (simp add: cons_ok_def)
      then have last: "last (pending t) \<noteq> 10" using False last_in_set by metis
      have b: "committed (cons_back t) = committed t" "pending (cons_back t) = butlast (pending t)" "cons_ok (cons_back t)"
        using cons_back_line [OF okt False] by simp_all
      have eq: "outs n' [8, 32, 8] (cons_back t) = ?st (Suc k) n'" for n'
      proof -
        have "concat (replicate k [8, 32, 8]) @ [8, 32, 8] = concat (replicate (Suc k) ([8, 32, 8] :: byte list))"
          by (simp only: replicate_Suc replicate_append_same [symmetric] concat_append concat.simps append_Nil2)
        then show ?thesis by (simp only: t outs_upd outs_simps funpow.simps o_apply)
      qed
      have inv: "?I () (outs n' [8, 32, 8] (cons_back t))" for n'
      proof (intro exI conjI)
        show "outs n' [8, 32, 8] (cons_back t) = ?st (Suc k) n'" by (rule eq)
        have "length (pending t) = Suc (length (butlast (pending t)))" using False by (cases "pending t") auto
        then show "Suc k + length (pending (outs n' [8, 32, 8] (cons_back t))) = length (pending s)"
          using b(2) k by simp
      qed (use b com in simp_all)
      have m: "mach (cons_back t) = mach s" "panicked (cons_back t) = panicked s"
        by (simp_all add: t outs_upd keep cons_back_def)
      have "wpK (consputc None) (\<lambda>_ u. \<exists>n. u = outs n [8, 32, 8] (cons_back t)) e (cons_back t)"
        using backspace_run [OF assms(1), of "cons_back t" None] assms(2-4) by (simp add: m)
      then have "wpK (consputc None) (\<lambda>_ u. ?I () u \<and> length (pending u) < length (pending t)) e (cons_back t)"
        by (rule wpK_mono) (use inv b(2) False in auto)
      moreover have "cons_e t \<noteq> cons_w t" using False pending_empty [OF okt] by simp
      ultimately show ?thesis using last pending_last [OF False] by (simp add: wp)
    qed
  qed
qed

text \<open>What one byte of input does inside the lock, up to the number of looks at the UART status.\<close>

definition typed :: "byte \<Rightarrow> 'z con_st_scheme \<Rightarrow> 'z con_st_scheme \<Rightarrow> bool" where
  "typed c s t \<longleftrightarrow> cons_ok t \<and> line t = edit c (line s) \<and> uart_out t = uart_out s @ echo c (procs s) (line s) \<and>
     procs t = (if fst (edit c (line s)) = committed s then procs s else wake_all C_cons_r (cur (mach s)) (procs s)) \<and>
     t = s\<lparr>procs := procs t, lsr_reads := lsr_reads t, uart_out := uart_out t, cons_buf := cons_buf t,
       cons_w := cons_w t, cons_e := cons_e t\<rparr>"

lemma cons_push_line:
  assumes "cons_ok s" and "cq.used s < INPUT_BUF_SIZE"
  shows "committed (cons_push c s) = committed s" "pending (cons_push c s) = pending s @ [c]"
    "cq.used (cons_push c s) = Suc (cq.used s)" "cq.bounded (cons_push c s)"
    "unat (cons_w (cons_push c s) - cons_r (cons_push c s)) \<le> cq.used (cons_push c s)"
  using assms cq.push_content [OF assms(2)] cq.used_push [OF assms(2)] cq.bounded_push [OF assms(2)]
  by (simp_all add: committed_def pending_def cons_ok_def)
     (simp_all add: cons_push_def)

lemma commit_line:
  "committed (s\<lparr>cons_w := cons_e s\<rparr>) = cq.content s" "pending (s\<lparr>cons_w := cons_e s\<rparr>) = []"
  "cq.bounded s \<Longrightarrow> cons_ok (s\<lparr>cons_w := cons_e s\<rparr>)"
  by (simp_all add: committed_def pending_def cons_ok_def cq.bounded_def cq.content_def cq.used_def)

lemma settle_deep: "0 < depth m \<Longrightarrow> settle m = m"
  by (simp add: settle_def)

lemma content_line: "cq.content s = committed s @ pending s"
  by (simp add: committed_def pending_def)

lemma typedI:
  assumes "cons_ok t" and "edit c (line s) = (committed t, pending t)"
    and "uart_out t = uart_out s @ echo c (procs s) (line s)"
    and "procs t = (if committed t = committed s then procs s else wake_all C_cons_r (cur (mach s)) (procs s))"
    and "t = s\<lparr>procs := procs t, lsr_reads := lsr_reads t, uart_out := uart_out t, cons_buf := cons_buf t,
       cons_w := cons_w t, cons_e := cons_e t\<rparr>"
  shows "typed c s t"
  unfolding typed_def using assms(5) by (simp add: assms(1-4) line_def [of t])

lemma cons_input_run:
  assumes "tx_live e" and tf: "table_free s" and deep: "0 < depth (mach s)" and "\<not> panicked s" and ok: "cons_ok s"
    and c: "c \<noteq> ctrl CHR ''P''" "c \<noteq> ctrl CHR ''U''" "\<not> (c = ctrl CHR ''H'' \<or> c = 0x7f)"
  shows "wpK (cons_input c) (\<lambda>_ t. typed c s t) e s"
proof (cases "c \<noteq> 0 \<and> cq.used s < INPUT_BUF_SIZE")
  case False
  then show ?thesis
    using line_length [OF ok] ok c by (auto simp: cons_input_def wp typed_def edit_def echo_def line_def cq.used_def [symmetric])
next
  case True
  define c' where "c' = (if c = 13 then 10 else c)"
  define p where "p = cons_push c' s"
  let ?full = "c' = 10 \<or> c' = ctrl CHR ''D'' \<or> cq.used p = INPUT_BUF_SIZE"
  have sane: "sane (mach s)" using tf by (simp add: table_free_def)
  have len: "length (committed s) + length (pending s) = cq.used s" by (rule line_length [OF ok])
  have push: "committed p = committed s" "pending p = pending s @ [c']" "cq.used p = Suc (cq.used s)" "cq.bounded p"
    "unat (cons_w p - cons_r p) \<le> cq.used p"
    using cons_push_line [OF ok, of c'] True by (simp_all add: p_def)
  have edit: "edit c (line s) = (if ?full then (committed s @ pending s @ [c'], []) else (committed s, pending s @ [c']))"
    using True len c push(3) by (auto simp: edit_def line_def Let_def c'_def)
  have echo: "echo c (procs s) (line s) = [c']" using True len c by (auto simp: echo_def line_def c'_def)
  have keep: "mach p = mach s" "procs p = procs s" "uart_out p = uart_out s" by (simp_all add: p_def cons_push_def)
  have stay: "typed c s (outs n [c'] p)" if "\<not> ?full" for n
  proof (rule typedI)
    show "cons_ok (outs n [c'] p)" using push ok that by (auto simp: cons_ok_def cq.bounded_def)
  qed (use that in \<open>simp_all add: edit echo keep push del: de_Morgan_disj\<close>, simp add: p_def outs_def cons_push_def)
  let ?w = "p\<lparr>cons_w := cons_e p, procs := wake_all C_cons_r (cur (mach s)) (procs s)\<rparr>"
  have go: "typed c s (outs n [c'] ?w)" if ?full for n
  proof (rule typedI)
    have p: "cq.content p = committed s @ pending s @ [c']" using push by (simp add: content_line)
    show "cons_ok (outs n [c'] ?w)" using commit_line(3) push by simp
    show "edit c (line s) = (committed (outs n [c'] ?w), pending (outs n [c'] ?w))"
      using that by (simp add: edit commit_line p)
    show "procs (outs n [c'] ?w) = (if committed (outs n [c'] ?w) = committed s then procs s
       else wake_all C_cons_r (cur (mach s)) (procs s))" by (simp add: commit_line p)
  qed (simp_all add: echo keep, simp add: p_def outs_def cons_push_def)
  have wake: "wakeup C_cons_r e (outs n [c'] (p\<lparr>cons_w := cons_e p\<rparr>)) = Ok () (outs n [c'] ?w)" for n
  proof -
    have "table_free (outs n [c'] (p\<lparr>cons_w := cons_e p\<rparr>))" using tf by (simp add: table_free_def keep)
    from wakeup_run [OF this] show ?thesis
      by (simp add: outs_upd settle_deep deep keep) (simp add: p_def cons_push_def)
  qed
  have "wpK (consputc (Some c')) (\<lambda>_ t. \<exists>n. t = outs n [c'] s) e s"
    using backspace_run [OF assms(1) sane deep assms(4), of "Some c'"] by simp
  then have "wpK (consputc (Some c')) (\<lambda>_ t. wpK (
       thenK (modifyK (cons_push c')) (
       bindK (getsK (\<lambda>s. unat (cons_e s - cons_r s) = INPUT_BUF_SIZE)) (\<lambda>full.
       whenK (c' = 10 \<or> c' = ctrl CHR ''D'' \<or> full) (
         thenK (modifyK (\<lambda>s. s\<lparr>cons_w := cons_e s\<rparr>)) (wakeup C_cons_r))))) (\<lambda>_ u. typed c s u) e t) e s"
  proof (rule wpK_mono)
    fix t assume "\<exists>n. t = outs n [c'] s"
    then obtain n where t: "t = outs n [c'] s" ..
    have p: "cons_push c' t = outs n [c'] p" by (simp add: t outs_upd p_def)
    show "wpK (thenK (modifyK (cons_push c')) (
       bindK (getsK (\<lambda>s. unat (cons_e s - cons_r s) = INPUT_BUF_SIZE)) (\<lambda>full.
       whenK (c' = 10 \<or> c' = ctrl CHR ''D'' \<or> full) (
         thenK (modifyK (\<lambda>s. s\<lparr>cons_w := cons_e s\<rparr>)) (wakeup C_cons_r))))) (\<lambda>_ u. typed c s u) e t"
      using stay go wake by (auto simp: wp p outs_upd wpK_def [of "wakeup _"] cq.used_def [symmetric])
  qed
  then show ?thesis using True by (simp add: cons_input_def wp Let_def cq.used_def [symmetric] c'_def)
qed

text \<open>
  A hart that takes a console interrupt: the locks that the handler needs are free, and nothing
  has panicked.
\<close>

definition intr_ready :: "'z con_st_scheme \<Rightarrow> bool" where
  "intr_ready s \<longleftrightarrow> table_free s \<and> may_print s \<and> clean Cons_lock (mach s) \<and> clean Uart_tx_lock (mach s)"

lemma consoleintr_inside:
  assumes "tx_live e" and "intr_ready s" and ok: "cons_ok s"
  defines "u \<equiv> s\<lparr>mach := acq Cons_lock (mach s)\<rparr>"
  shows "wpK (if c = ctrl CHR ''P'' then procdump
       else if c = ctrl CHR ''U'' then kill_line
       else if c = ctrl CHR ''H'' \<or> c = 0x7f then
         bindK (getsK (\<lambda>s. cons_e s \<noteq> cons_w s)) (\<lambda>b. whenK b (thenK (modifyK cons_back) (consputc None)))
       else cons_input c) (\<lambda>_ t. typed c u t) e u"
proof -
  have u: "table_free u" "0 < depth (mach u)" "\<not> panicked u" "cons_ok u" "may_print u" "sane (mach u)"
    using assms(2) ok sane_depth(1) [of "mach s"] by (auto simp: intr_ready_def u_def table_free_def may_print_def)
  consider (P) "c = ctrl CHR ''P''" | (U) "c = ctrl CHR ''U''" | (H) "c = ctrl CHR ''H'' \<or> c = 0x7f"
    | (other) "c \<noteq> ctrl CHR ''P''" "c \<noteq> ctrl CHR ''U''" "\<not> (c = ctrl CHR ''H'' \<or> c = 0x7f)" by blast
  then show ?thesis
  proof cases
    case P
    have "typed c u (outs n (dump (procs u)) u)" for n
      using u(4) P by (intro typedI) (simp_all add: edit_def echo_def line_def, simp add: outs_def)
    then have "wpK procdump (\<lambda>_ t. typed c u t) e u"
      using procdump_run [OF assms(1) u(5)] printed_inside [OF _ u(2)] by (fastforce elim!: wpK_mono)
    then show ?thesis using P by simp
  next
    case U
    let ?k = "length (pending u)"
    have same: "(cons_back ^^ k) u = u\<lparr>cons_e := cons_e u - of_nat k\<rparr>" for k
      by (induction k) (simp_all add: cons_back_def)
    have "typed c u (outs n (concat (replicate ?k [8, 32, 8])) ((cons_back ^^ ?k) u))"
      if "cons_ok (outs n (concat (replicate ?k [8, 32, 8])) ((cons_back ^^ ?k) u))"
        "line (outs n (concat (replicate ?k [8, 32, 8])) ((cons_back ^^ ?k) u)) = (committed u, [])" for n
      using that U by (intro typedI) (simp_all add: edit_def echo_def line_def ctrl_def ch_def same, simp add: outs_def)
    then have "wpK kill_line (\<lambda>_ t. typed c u t) e u"
      using kill_line_run [OF assms(1) u(6,2,3,4)] by (fastforce elim!: wpK_mono)
    then show ?thesis using U by (simp add: ctrl_def ch_def)
  next
    case H
    have c: "c \<noteq> ctrl CHR ''P''" "c \<noteq> ctrl CHR ''U''" using H by (auto simp: ctrl_def ch_def)
    show ?thesis
    proof (cases "pending u = []")
      case True
      then have "typed c u u"
        using u(4) H c by (intro typedI) (simp_all add: edit_def echo_def line_def)
      then show ?thesis using H c True u(4) by (simp add: wp pending_empty)
    next
      case False
      have b: "mach (cons_back u) = mach u" "panicked (cons_back u) = panicked u" by (simp_all add: cons_back_def)
      have "typed c u (outs n [8, 32, 8] (cons_back u))" for n
        using cons_back_line [OF u(4) False] H c False
        by (intro typedI) (simp_all add: edit_def echo_def line_def, simp_all add: outs_def cons_back_def)
      moreover have "wpK (consputc None) (\<lambda>_ t. \<exists>n. t = outs n [8, 32, 8] (cons_back u)) e (cons_back u)"
        using backspace_run [OF assms(1), of "cons_back u" None] u by (simp add: b)
      ultimately have "wpK (consputc None) (\<lambda>_ t. typed c u t) e (cons_back u)" by (auto elim!: wpK_mono)
      then show ?thesis using H c False u(4) by (simp add: wp pending_empty)
    qed
  next
    case other
    then show ?thesis using cons_input_run [OF assms(1) u(1-4)] by simp
  qed
qed

lemma consoleintr_run:
  assumes "tx_live e" and "intr_ready s" and "cons_ok s"
  shows "wpK (consoleintr c) (\<lambda>_ t. typed c (s\<lparr>mach := settle (mach s)\<rparr>) t) e s"
proof -
  let ?u = "s\<lparr>mach := acq Cons_lock (mach s)\<rparr>" and ?v = "s\<lparr>mach := settle (mach s)\<rparr>"
  have s: "sane (mach s)" "clean Cons_lock (mach s)" using assms(2) by (auto simp: intr_ready_def may_print_def)
  have "wpK (release Cons_lock) (\<lambda>_ t. typed c ?v t) e t" if t: "typed c ?u t" for t
  proof -
    have line: "line ?u = line ?v" by (simp add: line_def)
    obtain ps n out b w x where eq: "t = ?u\<lparr>procs := ps, lsr_reads := n, uart_out := out, cons_buf := b, cons_w := w, cons_e := x\<rparr>"
      using t unfolding typed_def by blast
    then have "mach t = acq Cons_lock (mach s)" by simp
    then have "release Cons_lock e t = Ok () (t\<lparr>mach := settle (mach s)\<rparr>)"
      using s sane_depth [OF s(1)] by (simp add: release_run)
    moreover have "typed c ?v (t\<lparr>mach := settle (mach s)\<rparr>)"
    proof (rule typedI)
      have "line t = edit c (line ?u)" using t by (simp add: typed_def)
      then show "edit c (line ?v) = (committed (t\<lparr>mach := settle (mach s)\<rparr>), pending (t\<lparr>mach := settle (mach s)\<rparr>))"
        by (simp add: line [symmetric] line_def [of t])
      then show "procs (t\<lparr>mach := settle (mach s)\<rparr>) = (if committed (t\<lparr>mach := settle (mach s)\<rparr>) = committed ?v
          then procs ?v else wake_all C_cons_r (cur (mach ?v)) (procs ?v))"
        using t by (simp add: typed_def line)
    qed (use t in \<open>simp_all add: typed_def line\<close>, simp add: eq)
    ultimately show ?thesis by (simp add: wpK_def)
  qed
  note rel = this
  show ?thesis
    unfolding consoleintr_def wp_then wp_acquire [OF clean_free [OF s(2)]]
    by (rule wpK_mono [OF consoleintr_inside [OF assms]]) (rule rel)
qed

lemma typed_frame:
  assumes "typed c s t"
  shows "intr_ready t = intr_ready s" "uart_in t = uart_in s"
proof -
  obtain ps n out b w x where
    eq: "t = s\<lparr>procs := ps, lsr_reads := n, uart_out := out, cons_buf := b, cons_w := w, cons_e := x\<rparr>"
    using assms unfolding typed_def by blast
  show "intr_ready t = intr_ready s" "uart_in t = uart_in s"
    by (simp_all add: eq intr_ready_def may_print_def table_free_def)
qed

lemma intr_ready_settle [simp]: "intr_ready (s\<lparr>mach := settle (mach s)\<rparr>) = intr_ready s"
  by (simp add: intr_ready_def may_print_def table_free_def)

subsection \<open>The transmit buffer\<close>

definition sent :: "nat \<Rightarrow> nat \<Rightarrow> 'z con_st_scheme \<Rightarrow> 'z con_st_scheme" where
  "sent k n s = s\<lparr>procs := (if k = 0 then procs s else wake_all C_uart_tx_r (cur (mach s)) (procs s)),
     uart_tx_r := uart_tx_r s + of_nat k, lsr_reads := n, uart_out := uart_out s @ take k (uq.content s)\<rparr>"

lemma wake_all_twice [simp]: "wake_all w me (wake_all w me ps) = wake_all w me ps"
  by (auto simp: wake_all_def woken_def fun_eq_iff)

lemma uart_pops: "(uart_pop ^^ k) s = s\<lparr>uart_tx_r := uart_tx_r s + of_nat k\<rparr>"
  by (induction k) (simp_all add: uart_pop_def algebra_simps)

lemma sent_simps [simp]:
  "mach (sent k n s) = mach s" "table_free (sent k n s) = table_free s" "uart_out (sent k n s) = uart_out s @ take k (uq.content s)"
  "procs (sent k n s) = (if k = 0 then procs s else wake_all C_uart_tx_r (cur (mach s)) (procs s))"
  by (simp_all add: sent_def table_free_def)

lemma content_sent: "k \<le> uq.used s \<Longrightarrow> uq.content (sent k n s) = drop k (uq.content s)"
  using uq.pops_content [of k s] by (simp add: uart_pops sent_def uq.content_def uq.used_def)

lemma uartstart_run:
  assumes tf: "table_free s" and deep: "0 < depth (mach s)"
  shows "wpK uartstart (\<lambda>_ t. \<exists>k n. k \<le> uq.used s \<and> t = sent k n s \<and>
     (k < uq.used s \<longrightarrow> (\<exists>j. \<not> tx_idle e j))) e s"
  unfolding uartstart_def
proof (rule wp_loop_measure [where I = "\<lambda>_ t. \<exists>k n. k \<le> uq.used s \<and> t = sent k n s" and f = "\<lambda>_ t. uq.used t"])
  show "\<exists>k n. k \<le> uq.used s \<and> s = sent k n s"
    by (rule exI [of _ 0], rule exI [of _ "lsr_reads s"]) (simp add: sent_def)
next
  fix j :: unit and t assume "\<exists>k n. k \<le> uq.used s \<and> t = sent k n s"
  then obtain k n where k: "k \<le> uq.used s" and t: "t = sent k n s" by blast
  have content: "uq.content t = drop k (uq.content s)" using content_sent [OF k] by (simp add: t)
  show "wpK (bindK (getsK (\<lambda>s. uart_tx_w s = uart_tx_r s)) (\<lambda>empty.
     if empty then returnK (Inr ()) else
     bindK lsr_tx_idle (\<lambda>idle.
     if \<not> idle then returnK (Inr ()) else
     bindK (getsK (\<lambda>s. uart_tx_buf s (unat (uart_tx_r s) mod UART_TX_BUF_SIZE))) (\<lambda>c.
     thenK (modifyK uart_pop) (
     thenK (wakeup C_uart_tx_r) (
     thenK (write_thr c)
       (returnK (Inl ())))))))) (\<lambda>r u. case r of
        Inl i \<Rightarrow> (\<exists>k n. k \<le> uq.used s \<and> u = sent k n s) \<and> uq.used u < uq.used t
      | Inr a \<Rightarrow> \<exists>k n. k \<le> uq.used s \<and> u = sent k n s \<and> (k < uq.used s \<longrightarrow> (\<exists>j. \<not> tx_idle e j))) e t"
  proof (cases "uq.content t = []")
    case True
    then have "k = uq.used s" using content k by simp
    then show ?thesis using True t by (auto simp: wp uq.empty_iff)
  next
    case False
    have lt: "k < uq.used s" using False content k by (simp flip: uq.length_content)
    let ?c = "uart_tx_buf t (unat (uart_tx_r t) mod UART_TX_BUF_SIZE)"
    have c: "?c = uq.content s ! k" using uq.pop_content [OF False] content lt
      by (metis uq.front_def Cons_nth_drop_Suc list.inject uq.length_content)
    define u where "u = sent (Suc k) (Suc (lsr_reads t)) s"
    have "table_free (uart_pop (t\<lparr>lsr_reads := Suc (lsr_reads t)\<rparr>))" using tf by (simp add: t table_free_def uart_pop_def sent_def)
    from wakeup_run [OF this, of C_uart_tx_r e]
    have wake: "wakeup C_uart_tx_r e (uart_pop (t\<lparr>lsr_reads := Suc (lsr_reads t)\<rparr>)) = Ok () (u\<lparr>uart_out := uart_out t\<rparr>)"
      using deep by (simp add: t u_def sent_def uart_pop_def settle_deep algebra_simps)
    have fin: "u\<lparr>uart_out := uart_out t @ [?c]\<rparr> = u"
      using lt by (simp add: u_def sent_def c take_Suc_conv_app_nth) (simp add: t take_Suc_conv_app_nth)
    have "uq.content u = drop (Suc k) (uq.content s)" using content_sent [of "Suc k" s] lt by (simp add: u_def)
    then have less: "uq.used u < uq.used t" using content lt by (metis diff_less_mono2 length_drop lessI uq.length_content)
    have stop: "t\<lparr>lsr_reads := Suc (lsr_reads t)\<rparr> = sent k (Suc (lsr_reads t)) s" by (simp add: t sent_def)
    have "\<exists>k' n. k' \<le> uq.used s \<and> u = sent k' n s" 
      using lt by (intro exI [of _ "Suc k"] exI [of _ "Suc (lsr_reads t)"]) (simp add: u_def)
    note more = this
    show ?thesis
    proof (cases "tx_idle e (lsr_reads t)")
      case True
      then show ?thesis using False less more
        by (simp add: wp uq.empty_iff lsr_tx_idle_def write_thr_def wpK_def [of "wakeup _"] wake fin)
    next
      case no: False
      then show ?thesis using False k by (auto simp: wp uq.empty_iff lsr_tx_idle_def stop)
    qed
  qed
qed

section \<open>Properties\<close>

definition con_st0 :: con_st where
  "con_st0 = \<lparr>mach = mach0, mem = (\<lambda>_. 0), freelist = 0, kernel_pagetable = 0, satp = 0,
     procs = (\<lambda>_. proc0), nextpid = 1, initproc = None, tfs = (\<lambda>_. tf0), ticks = 0, first = False,
     uart_tx_buf = (\<lambda>_. 0x61), uart_tx_w = 1, uart_tx_r = - 1, uart_out = [], uart_in = str ''ab'' @ [8, 0x63, 13, 0x64],
     uart_cfg = [], lsr_reads = 0, panicked = False, pr_locking = True, cons_buf = (\<lambda>_. 0x61), cons_r = - 1,
     cons_w = - 1, cons_e = 0\<rparr>"

lemma con_st0_fields [simp]:
  "mach con_st0 = mach0" "panicked con_st0 = False" "procs con_st0 = (\<lambda>_. proc0)" "uart_out con_st0 = []"
  "uart_in con_st0 = [0x61, 0x62, 8, 0x63, 13, 0x64]" "cons_buf con_st0 = (\<lambda>_. 0x61)" "cons_r con_st0 = - 1"
  "cons_w con_st0 = - 1" "cons_e con_st0 = 0" "uart_tx_buf con_st0 = (\<lambda>_. 0x61)" "uart_tx_r con_st0 = - 1" "uart_tx_w con_st0 = 1"
  by (simp_all add: con_st0_def str_def ch_def)

lemma con_st0_queues [simp]: "cq.content con_st0 = [0x61]" "uq.content con_st0 = [0x61, 0x61]"
  by (simp_all add: cq.content_def cq.used_def uq.content_def uq.used_def upt_rec)

lemma con_st0_simps [simp]:
  "intr_ready con_st0" "cons_ok con_st0" "line con_st0 = ([], [0x61])" "committed con_st0 = []"
  "tx_live idle_env"
proof -
  have "cq.used con_st0 = 1" using cq.length_content [of con_st0] by simp
  then show "cons_ok con_st0" by (simp add: cons_ok_def cq.bounded_def pending_def) (simp add: INPUT_BUF_SIZE_def)
qed (auto simp: intr_ready_def table_free_def may_print_def tx_live_def line_def pending_def committed_def)

text \<open>
  C8. The console interrupt handler is a line editor. For every byte it returns, and on the text
  typed so far it does what \<open>edit\<close> says: \<^verbatim>\<open>^U\<close> deletes the line, \<^verbatim>\<open>^H\<close> and \<^verbatim>\<open>DEL\<close> the last byte, a carriage
  return counts as a newline, a newline, \<^verbatim>\<open>^D\<close> or a full buffer gives the line to the readers, and
  a byte that does not fit is dropped. It prints the echo of the byte, wakes the readers exactly
  when a line has been given to them, and changes nothing else.
\<close>

theorem consoleintr_edits:
  assumes "tx_live e" and "intr_ready s" and "cons_ok s"
  shows "\<exists>t. consoleintr c e s = Ok () t \<and> cons_ok t \<and> line t = edit c (line s) \<and>
     uart_out t = uart_out s @ echo c (procs s) (line s) \<and>
     procs t = (if fst (edit c (line s)) = committed s then procs s else wake_all C_cons_r (cur (mach s)) (procs s)) \<and>
     t = s\<lparr>mach := settle (mach s), procs := procs t, lsr_reads := lsr_reads t, uart_out := uart_out t,
       cons_buf := cons_buf t, cons_w := cons_w t, cons_e := cons_e t\<rparr>"
proof -
  obtain t where t: "consoleintr c e s = Ok () t" "typed c (s\<lparr>mach := settle (mach s)\<rparr>) t"
    using consoleintr_run [OF assms, of c] by (auto simp: wpK_iff)
  have "line (s\<lparr>mach := settle (mach s)\<rparr>) = line s" by (simp add: line_def)
  then have ty: "cons_ok t" "line t = edit c (line s)" "uart_out t = uart_out s @ echo c (procs s) (line s)"
    "procs t = (if fst (edit c (line s)) = committed s then procs s else wake_all C_cons_r (cur (mach s)) (procs s))"
    using t(2) by (simp_all add: typed_def)
  have "t = s\<lparr>mach := settle (mach s), procs := procs t, lsr_reads := lsr_reads t, uart_out := uart_out t,
      cons_buf := cons_buf t, cons_w := cons_w t, cons_e := cons_e t\<rparr>"
    using t(2) unfolding typed_def by blast
  then show ?thesis using t(1) ty by blast
qed

theorem consoleintr_edits_witness:
  "\<exists>t. consoleintr 13 idle_env con_st0 = Ok () t \<and> line t = ([0x61, 10], []) \<and> uart_out t = [10]"
proof -
  obtain t where "consoleintr 13 idle_env con_st0 = Ok () t" "line t = edit 13 (line con_st0)"
    "uart_out t = uart_out con_st0 @ echo 13 (procs con_st0) (line con_st0)"
    using consoleintr_edits [of idle_env con_st0 13] by auto
  then show ?thesis by (intro exI [of _ t]) (simp add: edit_def echo_def ctrl_def ch_def INPUT_BUF_SIZE_def)
qed

text \<open>
  C9. A UART interrupt hands every byte that has arrived to the line editor, in order: afterwards
  no input is waiting, and the text is what the editor makes of the whole input.
\<close>

theorem uartintr_edits:
  fixes s :: "'z con_st_scheme"
  assumes "tx_live e" and "intr_ready s" and "cons_ok s"
  shows "\<exists>t. uartintr e s = Ok () t \<and> uart_in t = [] \<and> cons_ok t \<and> line t = fold edit (uart_in s) (line s)"
proof -
  let ?I = "\<lambda>_ t. intr_ready t \<and> cons_ok t \<and> fold edit (uart_in t) (line t) = fold edit (uart_in s) (line s)"
  have all: "wpK (loopK (\<lambda>_. bindK uartgetc (\<lambda>o'. case o' of None \<Rightarrow> returnK (Inr ())
      | Some c \<Rightarrow> thenK (consoleintr c) (returnK (Inl ())))) ())
    (\<lambda>_ t. ?I () t \<and> uart_in t = []) e s"
  proof (rule wp_loop_measure [where I = ?I and f = "\<lambda>_ t. length (uart_in t)"])
    show "?I () s" using assms by simp
  next
    fix j :: unit and t :: "'z con_st_scheme" assume t: "?I j t"
    show "wpK (bindK uartgetc (\<lambda>o'. case o' of None \<Rightarrow> returnK (Inr ())
      | Some c \<Rightarrow> thenK (consoleintr c) (returnK (Inl ())))) (\<lambda>r u. case r of
         Inl i \<Rightarrow> ?I i u \<and> length (uart_in u) < length (uart_in t) | Inr _ \<Rightarrow> ?I () u \<and> uart_in u = []) e t"
    proof (cases "uart_in t")
      case Nil
      then show ?thesis using t by (simp add: wp uartgetc_def)
    next
      case (Cons c cs)
      let ?u = "t\<lparr>uart_in := cs\<rparr>"
      have u: "intr_ready ?u" "cons_ok ?u" "line ?u = line t"
        using t by (simp_all add: intr_ready_def table_free_def may_print_def line_def cons_ok_def pending_def
          committed_def cq.bounded_def cq.used_def cq.content_def)
      have "?I () v \<and> uart_in v = cs" if v: "typed c (?u\<lparr>mach := settle (mach ?u)\<rparr>) v" for v
      proof -
        have "intr_ready v" using typed_frame(1) [OF v] u(1) by (simp only: intr_ready_settle)
        moreover have "uart_in v = cs" using typed_frame(2) [OF v] by simp
        moreover have "line (?u\<lparr>mach := settle (mach ?u)\<rparr>) = line t" using u(3) by (simp add: line_def)
        ultimately show ?thesis using v t Cons by (simp add: typed_def)
      qed
      then have "wpK (consoleintr c) (\<lambda>_ v. ?I () v \<and> uart_in v = cs) e ?u"
        by (rule wpK_mono [OF consoleintr_run [OF assms(1) u(1,2)]])
      then show ?thesis using Cons by (auto simp: wp uartgetc_def elim!: wpK_mono)
    qed
  qed
  have "wpK (seqK [acquire Uart_tx_lock, uartstart, release Uart_tx_lock])
      (\<lambda>_ u. uart_in u = [] \<and> cons_ok u \<and> line u = fold edit (uart_in s) (line s)) e t" if t: "?I () t" "uart_in t = []" for t
  proof -
    let ?t = "t\<lparr>mach := acq Uart_tx_lock (mach t)\<rparr>"
    have m: "sane (mach t)" "clean Uart_tx_lock (mach t)" "table_free ?t"
      using t(1) by (auto simp: intr_ready_def may_print_def table_free_def)
    have "cons_ok (sent k n ?t) \<and> line (sent k n ?t) = line t \<and> uart_in (sent k n ?t) = []" for k n
      using t by (simp add: sent_def line_def cons_ok_def pending_def committed_def cq.bounded_def cq.used_def cq.content_def)
    then have "wpK (release Uart_tx_lock) (\<lambda>_ u. uart_in u = [] \<and> cons_ok u \<and> line u = fold edit (uart_in s) (line s)) e (sent k n ?t)" for k n
      using t m sane_depth [OF m(1)] by (simp add: wp line_def)
    moreover have "0 < depth (mach ?t)" using sane_depth(2) [OF m(1)] by simp
    ultimately have "wpK uartstart (\<lambda>_ u. wpK (release Uart_tx_lock) (\<lambda>_ u. uart_in u = [] \<and> cons_ok u \<and> line u = fold edit (uart_in s) (line s)) e u) e ?t"
      using uartstart_run [OF m(3), of e] by (auto elim!: wpK_mono)
    then show ?thesis using m by (simp add: wp)
  qed
  then have "wpK uartintr (\<lambda>_ u. uart_in u = [] \<and> cons_ok u \<and> line u = fold edit (uart_in s) (line s)) e s"
    using all by (auto simp: uartintr_def wp_then elim!: wpK_mono)
  then show ?thesis by (auto simp: wpK_iff)
qed

theorem uartintr_edits_witness:
  "\<exists>t. uartintr idle_env con_st0 = Ok () t \<and> uart_in t = [] \<and> line t = ([0x61, 0x61, 0x63, 10], [0x64])"
proof -
  obtain t where t: "uartintr idle_env con_st0 = Ok () t" "uart_in t = []" "line t = fold edit (uart_in con_st0) (line con_st0)"
    using uartintr_edits [of idle_env con_st0] by auto
  then show ?thesis by (intro exI [of _ t]) (simp add: edit_def ctrl_def ch_def INPUT_BUF_SIZE_def)
qed

text \<open>
  C10. Bytes leave the UART in the order in which they were given to \<^verbatim>\<open>uartputc\<close>, and none is lost:
  with room in the transmit buffer, \<^verbatim>\<open>uartputc(c)\<close> returns without sleeping, and the bytes sent
  followed by the bytes still waiting have grown by \<open>c\<close>. If the UART never was busy, nothing is left waiting.
\<close>

theorem uartputc_stream:
  assumes "table_free s" and "clean Uart_tx_lock (mach s)" and "\<not> panicked s" and "uq.used s < UART_TX_BUF_SIZE"
  shows "\<exists>t. uartputc c e s = Ok () t \<and> uart_out t @ uq.content t = uart_out s @ uq.content s @ [c] \<and>
     uq.bounded t \<and> ((\<forall>n. tx_idle e n) \<longrightarrow> uq.content t = []) \<and>
     (procs t = procs s \<or> procs t = wake_all C_uart_tx_r (cur (mach s)) (procs s)) \<and> settle (mach t) = settle (mach s)"
proof -
  have m: "sane (mach s)" using assms(1) by (simp add: table_free_def)
  let ?u = "uart_push c (s\<lparr>mach := acq Uart_tx_lock (mach s)\<rparr>)"
  have full: "(uart_tx_w s = uart_tx_r s + of_nat UART_TX_BUF_SIZE) = False" using assms(4) uq.full_iff [of s] by simp
  have u: "table_free ?u" "mach ?u = acq Uart_tx_lock (mach s)" "0 < depth (mach ?u)" "uart_out ?u = uart_out s" "procs ?u = procs s"
    using assms(1) sane_depth(2) [OF m] by (simp_all add: table_free_def uart_push_def)
  have "uq.used (s\<lparr>mach := acq Uart_tx_lock (mach s)\<rparr>) = uq.used s" by (simp add: uq.used_def)
  then have c: "uq.content ?u = uq.content s @ [c]" "uq.bounded ?u"
    using assms(4) uq.push_content [of "s\<lparr>mach := acq Uart_tx_lock (mach s)\<rparr>" c]
      uq.bounded_push [of "s\<lparr>mach := acq Uart_tx_lock (mach s)\<rparr>" c] by (simp_all add: uq.content_def uq.used_def)
  obtain k n where k: "k \<le> uq.used ?u" "uartstart e ?u = Ok () (sent k n ?u)" "k < uq.used ?u \<longrightarrow> (\<exists>j. \<not> tx_idle e j)"
    using uartstart_run [OF u(1,3), of e] by (auto simp: wpK_iff)
  define t where "t = (sent k n ?u)\<lparr>mach := settle (mach s)\<rparr>"
  have run: "uartputc c e s = Ok () t"
    using assms(2,3) m full k(2) u(2) sane_depth [OF m]
    by (simp add: uartputc_def thenK_def bindK_def getsK_def modifyK_def returnK_def loopK_unfold release_run t_def)
  have t: "uq.content t = drop k (uq.content s @ [c])" "uart_out t = uart_out s @ take k (uq.content s @ [c])"
    using content_sent [OF k(1), of n] u(4) c(1) by (simp_all add: t_def uq.content_def uq.used_def)
  have "length (uq.content t) \<le> length (uq.content ?u)" by (simp only: t(1) c(1) length_drop diff_le_self)
  then have bounded: "uq.bounded t" using c(2) by (simp add: uq.bounded_def)
  have flushed: "uq.content t = []" if "\<forall>n. tx_idle e n"
  proof -
    have "\<not> k < uq.used ?u" using k(3) that by blast
    then have "length (uq.content ?u) \<le> k" by simp
    then show ?thesis by (simp only: t(1) c(1) drop_all)
  qed
  have "uart_out t @ uq.content t = uart_out s @ uq.content s @ [c]"
    unfolding t append_assoc append_take_drop_id by (rule refl)
  moreover have "procs t = procs s \<or> procs t = wake_all C_uart_tx_r (cur (mach s)) (procs s)"
    using u(2,5) by (simp add: t_def)
  moreover have "settle (mach t) = settle (mach s)" by (simp add: t_def)
  ultimately show ?thesis using run bounded flushed by blast
qed

theorem uartputc_stream_witness:
  "\<exists>t. uartputc 0x62 idle_env con_st0 = Ok () t \<and> uart_out t = [0x61, 0x61, 0x62]"
proof -
  have "uq.used con_st0 = 2" using uq.length_content [of con_st0] by simp
  then obtain t where "uartputc 0x62 idle_env con_st0 = Ok () t" "uart_out t @ uq.content t = uart_out con_st0 @ uq.content con_st0 @ [0x62]"
    "uq.content t = []"
    using uartputc_stream [of con_st0 "0x62" idle_env] by (auto simp: table_free_def UART_TX_BUF_SIZE_def)
  then show ?thesis by (intro exI [of _ t]) simp
qed

end
