(* ===== verification/Sleeplock_Ops.thy ===== *)
theory Sleeplock_Ops
  imports Sleeplock Proc_Ops
begin

text \<open>
  What the operations of \<^verbatim>\<open>kernel/sleeplock.c\<close> do when nobody else holds the lock, for a process that
  holds no spin lock.
\<close>

lemma slk_st_upd_order [simp]:
  fixes s :: "'z slk_st_scheme"
  shows "mach_update f (sleeplocks_update g s) = sleeplocks_update g (mach_update f s)"
    and "procs_update h (sleeplocks_update g s) = sleeplocks_update g (procs_update h s)"
  by simp_all

text \<open>Process \<open>p\<close> runs in the kernel, holds no spin lock, and no other hart holds one at the moment.\<close>

definition calm :: "nat \<Rightarrow> 'z proc_st_scheme \<Rightarrow> bool" where
  "calm p s \<longleftrightarrow> sane (mach s) \<and> (\<forall>l. clean l (mach s)) \<and> cur (mach s) = Some p"

lemma calmD:
  assumes "calm p s"
  shows "sane (mach s)" "clean l (mach s)" "cur (mach s) = Some p" "table_free s" "depth (mach s) \<ge> 0"
  using assms sane_depth(1) by (auto simp: calm_def table_free_def)

lemma calm_settle [simp]: "calm p (s\<lparr>mach := settle (mach s)\<rparr>) = calm p s"
  by (simp add: calm_def)

lemma acquiresleep_run:
  assumes "calm p s" and "sl_locked (sleeplocks s l) = 0"
  shows "acquiresleep l e s = Ok () (s\<lparr>mach := settle (mach s), sleeplocks := (sleeplocks s)(l :=
     (sleeplocks s l)\<lparr>sl_locked := 1, sl_pid := p_pid (procs s p)\<rparr>)\<rparr>)"
  using assms(2) calmD [OF assms(1)]
  by (simp add: acquiresleep_def run_simps upd_slk_def loopK_unfold curproc_run)

lemma holdingsleep_run:
  assumes "calm p s"
  shows "holdingsleep l e s =
     Ok (sl_locked (sleeplocks s l) \<noteq> 0 \<and> sl_pid (sleeplocks s l) = p_pid (procs s p)) (s\<lparr>mach := settle (mach s)\<rparr>)"
  using calmD [OF assms] by (simp add: holdingsleep_def run_simps curproc_run)

lemma releasesleep_run:
  assumes "calm p s"
  shows "releasesleep l e s = Ok () (s\<lparr>mach := settle (mach s), procs := wake_all (C_sleep l) (Some p) (procs s),
     sleeplocks := (sleeplocks s)(l := (sleeplocks s l)\<lparr>sl_locked := 0, sl_pid := 0\<rparr>)\<rparr>)"
proof -
  let ?s = "s\<lparr>mach := acq (Sleep_lock l) (mach s), sleeplocks := (sleeplocks s)(l := (sleeplocks s l)\<lparr>sl_locked := 0, sl_pid := 0\<rparr>)\<rparr>"
  have "table_free ?s" using calmD [OF assms] by (simp add: table_free_def)
  from wakeup_run [OF this] show ?thesis
    using calmD [OF assms] by (simp add: releasesleep_def run_simps upd_slk_def)
qed

end
