(* ===== verification/Bio_Ops.thy ===== *)
theory Bio_Ops
  imports Bio Sleeplock_Ops
begin

text \<open>
  What the buffer cache of \<^verbatim>\<open>kernel/bio.c\<close> does: its linked list is a list of buffers in the order
  of use, a buffer that is handed out holds the current content of its block, and no operation
  changes the content of another block.
\<close>

section \<open>The list of buffers\<close>

text \<open>From \<open>p\<close> the pointers \<open>f\<close> lead through the buffers \<open>xs\<close> to \<open>q\<close>.\<close>

primrec seg :: "(bref \<Rightarrow> bref) \<Rightarrow> bref \<Rightarrow> nat list \<Rightarrow> bref \<Rightarrow> bool" where
  "seg f p [] q \<longleftrightarrow> f p = q"
| "seg f p (i # is) q \<longleftrightarrow> f p = B i \<and> seg f (B i) is q"

definition end_ref :: "bref \<Rightarrow> nat list \<Rightarrow> bref" where
  "end_ref p xs = (if xs = [] then p else B (last xs))"

lemma end_ref_simps [simp]: "end_ref p [] = p" "end_ref p (xs @ [i]) = B i" "end_ref p (i # is) = end_ref (B i) is"
  by (simp_all add: end_ref_def)

lemma seg_append: "seg f p (xs @ i # ys) q \<longleftrightarrow> seg f p xs (B i) \<and> seg f (B i) ys q"
  by (induction xs arbitrary: p) auto

lemma seg_upd: "r \<notin> insert p (B ` set xs) \<Longrightarrow> seg (f(r := v)) p xs q = seg f p xs q"
  by (induction xs arbitrary: p) auto

lemma seg_end: "seg f p xs q \<Longrightarrow> f (end_ref p xs) = q"
  by (induction xs arbitrary: p) auto

lemma seg_retarget: "seg f p xs q \<Longrightarrow> distinct xs \<Longrightarrow> p \<notin> B ` set xs \<Longrightarrow> seg (f(end_ref p xs := r)) p xs r"
proof (induction xs arbitrary: p)
  case (Cons i xs)
  have "B i \<notin> B ` set xs" using Cons.prems by auto
  then have "seg (f(end_ref (B i) xs := r)) (B i) xs r" using Cons.prems by (intro Cons.IH) simp_all
  moreover have "end_ref (B i) xs \<noteq> p" using Cons.prems by (auto simp: end_ref_def)
  ultimately show ?case using Cons.prems by (simp add: fun_upd_def)
qed simp

lemma seg_cut:
  assumes "seg f p (xs @ b # ys) q" and "distinct (xs @ b # ys)" and "p \<notin> B ` set (xs @ b # ys)"
  shows "seg (f(end_ref p xs := f (B b))) p (xs @ ys) q"
proof (cases ys)
  case Nil
  then have "f (B b) = q" "seg f p xs (B b)" using assms(1) by (simp_all add: seg_append)
  then show ?thesis using seg_retarget [of f p xs "B b" q] assms Nil by auto
next
  case (Cons c cs)
  have s: "seg f p xs (B b)" "f (B b) = B c" "seg f (B c) cs q" using assms(1) Cons by (simp_all add: seg_append)
  have "end_ref p xs \<notin> insert (B c) (B ` set cs)" 
    using assms(2,3) Cons by (auto simp: end_ref_def disjoint_iff)
  then have "seg (f(end_ref p xs := B c)) (B c) cs q" using s(3) seg_upd by blast
  moreover have "seg (f(end_ref p xs := B c)) p xs (B c)" using s(1) assms by (intro seg_retarget) auto
  ultimately show ?thesis using Cons s(2) by (simp add: seg_append)
qed

text \<open>The buffers from the most to the least recently used.\<close>

definition order :: "'z bio_st_scheme \<Rightarrow> nat list \<Rightarrow> bool" where
  "order s bs \<longleftrightarrow> distinct bs \<and> set bs = {..<NBUF} \<and> seg (bnext s) Bhead bs Bhead \<and> seg (bprev s) Bhead (rev bs) Bhead"

lemma order_find:
  assumes "seg (link s) Bhead bs Bhead"
  shows "bsearch link test e s = Ok (List.find (\<lambda>i. test (bufs s i)) bs) s"
proof -
  let ?body = "\<lambda>b. case b of
       Bhead \<Rightarrow> returnK (Inr None)
     | B i \<Rightarrow> bindK (buf_get i test) (\<lambda>hit. if hit then returnK (Inr (Some i))
         else bindK (getsK (\<lambda>s. link s (B i))) (\<lambda>n. returnK (Inl n)))"
  have head: "loopK ?body Bhead e s = Ok None s" by (subst loopK_unfold) (simp add: returnK_def)
  have step: "loopK ?body (B i) e s = (if test (bufs s i) then Ok (Some i) s else loopK ?body (link s (B i)) e s)" for i
    by (subst loopK_unfold) (simp add: monad_defs buf_get_def)
  have "seg (link s) p xs Bhead \<Longrightarrow> loopK ?body (link s p) e s = Ok (List.find (\<lambda>i. test (bufs s i)) xs) s" for p xs
    by (induction xs arbitrary: p) (simp_all only: seg.simps head step List.find.simps if_True if_False split: if_split, auto)
  from this [OF assms] show ?thesis by (simp add: bsearch_def bindK_def getsK_def)
qed

lemma seg_push:
  assumes "seg f Bhead bs Bhead" and "b \<notin> set bs"
  shows "seg (f(B b := f Bhead, Bhead := B b)) Bhead (b # bs) Bhead"
proof (cases bs)
  case (Cons c cs)
  then have "seg (f(B b := f Bhead, Bhead := B b)) (B c) cs Bhead = seg f (B c) cs Bhead"
    using assms(2) by (subst seg_upd, fastforce, subst seg_upd) auto
  then show ?thesis using assms Cons by simp
qed (use assms in simp)

lemma seg_snoc:
  assumes "seg f Bhead bs Bhead" and "b \<notin> set bs" and "distinct bs"
  shows "seg (f(B b := Bhead, end_ref Bhead bs := B b)) Bhead (bs @ [b]) Bhead"
proof -
  have "seg (f(B b := Bhead)) Bhead bs Bhead" using assms by (subst seg_upd) auto
  then have "seg ((f(B b := Bhead))(end_ref Bhead bs := B b)) Bhead bs (B b)"
    using assms by (intro seg_retarget) auto
  moreover have "end_ref Bhead bs \<noteq> B b" using assms(2) by (auto simp: end_ref_def)
  ultimately show ?thesis by (simp add: seg_append)
qed

lemma bio_st_upd_order [simp]:
  fixes s :: "'z bio_st_scheme"
  shows "mach_update f (bufs_update g s) = bufs_update g (mach_update f s)"
    and "mach_update f (bnext_update h s) = bnext_update h (mach_update f s)"
    and "mach_update f (bprev_update h s) = bprev_update h (mach_update f s)"
    and "mach_update f (disk_update k s) = disk_update k (mach_update f s)"
    and "mach_update f (disk_writes_update l s) = disk_writes_update l (mach_update f s)"
    and "sleeplocks_update n (bufs_update g s) = bufs_update g (sleeplocks_update n s)"
    and "sleeplocks_update n (bnext_update h s) = bnext_update h (sleeplocks_update n s)"
    and "sleeplocks_update n (bprev_update h s) = bprev_update h (sleeplocks_update n s)"
    and "procs_update m (bufs_update g s) = bufs_update g (procs_update m s)"
  by simp_all

lemma link_front_run:
  "link_front (B b) e s = Ok () (s\<lparr>bprev := (bprev s)(B b := Bhead, bnext s Bhead := B b),
     bnext := (bnext s)(B b := bnext s Bhead, Bhead := B b)\<rparr>)"
  by (simp add: link_front_def monad_defs set_prev_def set_next_def)

lemma to_front_eq:
  assumes "bprev s (B b) = a" "bnext s (B b) = c" "B b \<noteq> a" "B b \<noteq> c"
  shows "to_front b e s = link_front (B b) e (s\<lparr>bprev := (bprev s)(c := a), bnext := (bnext s)(a := c)\<rparr>)"
  using assms by (simp add: to_front_def monad_defs set_prev_def set_next_def)

lemma to_front_run:
  assumes "order s bs" and "b \<in> set bs"
  shows "\<exists>t. to_front b e s = Ok () t \<and> order t (b # remove1 b bs) \<and> t = s\<lparr>bprev := bprev t, bnext := bnext t\<rparr>"
proof -
  obtain xs ys where bs: "bs = xs @ b # ys" using assms(2) split_list by metis
  have d: "distinct (xs @ b # ys)" and set: "set (xs @ b # ys) = {..<NBUF}"
    and nx: "seg (bnext s) Bhead (xs @ b # ys) Bhead" and pv: "seg (bprev s) Bhead (rev ys @ b # rev xs) Bhead"
    using assms(1) by (auto simp: order_def bs)
  define a where "a = end_ref Bhead xs"
  define c where "c = end_ref Bhead (rev ys)"
  have ends: "bprev s (B b) = a" "bnext s (B b) = c"
  proof -
    have "seg (bprev s) (B b) (rev xs) Bhead" using pv by (simp add: seg_append)
    then show "bprev s (B b) = a" by (cases xs rule: rev_cases) (auto simp: a_def)
    have "seg (bnext s) (B b) ys Bhead" using nx by (simp add: seg_append)
    then show "bnext s (B b) = c" by (cases ys) (auto simp: c_def)
  qed
  define nx1 where "nx1 = (bnext s)(a := c)"
  define pv1 where "pv1 = (bprev s)(c := a)"
  have nx1: "seg nx1 Bhead (xs @ ys) Bhead"
    using seg_cut [OF nx d] by (auto simp: nx1_def ends a_def)
  have "distinct (rev ys @ b # rev xs)" using d by auto
  then have pv1: "seg pv1 Bhead (rev ys @ rev xs) Bhead"
    using seg_cut [OF pv] by (auto simp: pv1_def ends c_def)
  have f: "nx1 Bhead = end_ref Bhead (rev (xs @ ys))" using nx1 by (cases "xs @ ys") auto
  have b: "B b \<noteq> a" "B b \<noteq> c" "Bhead \<noteq> B b" using d by (auto simp: a_def c_def end_ref_def last_rev)
  define t where "t = s\<lparr>bprev := pv1(B b := Bhead, nx1 Bhead := B b), bnext := nx1(B b := nx1 Bhead, Bhead := B b)\<rparr>"
  have "to_front b e s = Ok () t"
    unfolding to_front_eq [OF ends b(1,2)] link_front_run by (simp add: t_def nx1_def pv1_def)
  moreover have "order t (b # xs @ ys)"
  proof -
    have "seg (bprev t) Bhead (rev (xs @ ys) @ [b]) Bhead"
      unfolding t_def using seg_snoc [OF pv1 [unfolded rev_append [symmetric]], of b] d by (simp add: f Int_commute)
    moreover have "seg (bnext t) Bhead (b # xs @ ys) Bhead"
      unfolding t_def using seg_push [OF nx1, of b] d by (simp del: seg.simps)
    ultimately show ?thesis using d set by (auto simp: order_def simp del: seg.simps)
  qed
  moreover have "remove1 b bs = xs @ ys" using d by (simp add: bs remove1_append)
  ultimately show ?thesis by (auto simp: t_def)
qed

text \<open>\<^verbatim>\<open>binit\<close> makes the list of all buffers, the last one first.\<close>

lemma binit_run:
  "\<exists>t. binit e s = Ok () t \<and> order t (rev [0..<NBUF]) \<and> bufs t = bufs s \<and> disk t = disk s \<and>
     disk_writes t = disk_writes s \<and> (\<forall>b < NBUF. sl_locked (sleeplocks t (Buf_lock b)) = 0 \<and> clean (Sleep_lock (Buf_lock b)) (mach t)) \<and>
     clean Bcache_lock (mach t)"
proof -
  let ?body = "\<lambda>b. bindK (getsK (\<lambda>s. bnext s Bhead)) (\<lambda>fst'.
          seqK [set_next (B b) fst', set_prev (B b) Bhead, initsleeplock (Buf_lock b) ''buffer'',
            bindK (getsK (\<lambda>s. bnext s Bhead)) (\<lambda>f. set_prev f (B b)), set_next Bhead (B b)])"
  define I where "I k t \<longleftrightarrow> seg (bnext t) Bhead (rev [0..<k]) Bhead \<and> seg (bprev t) Bhead [0..<k] Bhead \<and>
     bufs t = bufs s \<and> disk t = disk s \<and> disk_writes t = disk_writes s \<and> clean Bcache_lock (mach t) \<and>
     (\<forall>b < k. sl_locked (sleeplocks t (Buf_lock b)) = 0 \<and> clean (Sleep_lock (Buf_lock b)) (mach t))" for k and t :: "'a bio_st_scheme"
  have step: "wpK (?body k) (\<lambda>_ u. I (Suc k) u) e t" if I: "I k t" for k t
  proof -
    have nx: "seg (bnext t) Bhead (rev [0..<k]) Bhead" and pv: "seg (bprev t) Bhead [0..<k] Bhead" using I by (auto simp: I_def)
    have f: "bnext t Bhead = end_ref Bhead [0..<k]" using nx by (cases k) auto
    have "seg ((bnext t)(B k := bnext t Bhead, Bhead := B k)) Bhead (rev [0..<Suc k]) Bhead"
      using seg_push [OF nx, of k] by simp
    moreover have "seg ((bprev t)(B k := Bhead, bnext t Bhead := B k)) Bhead [0..<Suc k] Bhead"
      using seg_snoc [OF pv, of k] by (simp add: f)
    ultimately show ?thesis
      using I by (simp add: wp I_def set_next_def set_prev_def initsleeplock_def initlock_def upd_lock_def upd_mach_def upd_slk_def
         clean_def less_Suc_eq fun_upd_twist del: upt_Suc seg.simps) 
  qed
  have "wpK (foreachK [0..<NBUF] ?body) (\<lambda>_ t. I (length [0..<NBUF]) t) e u" if "I 0 u" for u
    by (rule foreach_wp_inv [where I = I]) (use step that in \<open>auto simp del: upt_Suc\<close>)
  moreover have "I 0 (s\<lparr>mach := m, bprev := p(Bhead := Bhead), bnext := n(Bhead := Bhead)\<rparr>)" if "clean Bcache_lock m" for m p n
    using that by (simp add: I_def)
  ultimately have "wpK binit (\<lambda>_ t. I NBUF t) e s"
    by (simp add: binit_def wp set_prev_def set_next_def initlock_def upd_lock_def upd_mach_def clean_def del: upt_Suc)
  then obtain t where "binit e s = Ok () t" "I NBUF t" by (auto simp: wpK_iff)
  then show ?thesis by (intro exI [of _ t]) (simp add: I_def order_def atLeast0LessThan del: upt_Suc)
qed

section \<open>The content of the blocks\<close>

definition held :: "'z bio_st_scheme \<Rightarrow> nat \<Rightarrow> bool" where
  "held s b \<longleftrightarrow> sl_locked (sleeplocks s (Buf_lock b)) \<noteq> 0"

text \<open>The buffer that caches block \<open>n\<close> of the device.\<close>

definition caches :: "u32 \<Rightarrow> u32 \<Rightarrow> buf \<Rightarrow> bool" where
  "caches dev n r \<longleftrightarrow> b_dev r = dev \<and> b_blockno r = n"

definition slot_of :: "u32 \<Rightarrow> 'z bio_st_scheme \<Rightarrow> u32 \<Rightarrow> nat option" where
  "slot_of dev s n = List.find (\<lambda>i. caches dev n (bufs s i)) [0..<NBUF]"

text \<open>What a reader of block \<open>n\<close> gets.\<close>

definition view :: "u32 \<Rightarrow> 'z bio_st_scheme \<Rightarrow> u32 \<Rightarrow> byte list" where
  "view dev s n = (case slot_of dev s n of
     Some i \<Rightarrow> if b_valid (bufs s i) \<noteq> 0 then b_data (bufs s i) else disk s n
   | None \<Rightarrow> disk s n)"

text \<open>
  One buffer is in order: a buffer that holds data belongs to the device; only process
  \<open>pid\<close> has it locked, and then it is referenced; a referenced buffer is valid; an unreferenced buffer holds what is on the disk,
  so that it may be given to another block.
\<close>

definition buf_ok :: "u32 \<Rightarrow> i32 \<Rightarrow> (u32 \<Rightarrow> byte list) \<Rightarrow> sleeplock \<Rightarrow> buf \<Rightarrow> bool" where
  "buf_ok dev pid d lk r \<longleftrightarrow> (b_valid r = 0 \<or> b_valid r = 1 \<and> b_dev r = dev) \<and>
     (sl_locked lk \<noteq> 0 \<longrightarrow> sl_pid lk = pid \<and> b_valid r \<noteq> 0 \<and> b_refcnt r \<noteq> 0) \<and>
     (b_refcnt r \<noteq> 0 \<longrightarrow> b_valid r \<noteq> 0) \<and>
     (b_valid r \<noteq> 0 \<and> b_refcnt r = 0 \<longrightarrow> b_data r = d (b_blockno r))"

definition bio_ok :: "u32 \<Rightarrow> nat \<Rightarrow> 'z bio_st_scheme \<Rightarrow> bool" where
  "bio_ok dev p s \<longleftrightarrow> calm p s \<and> dev \<noteq> 0 \<and> (\<exists>bs. order s bs) \<and>
     (\<forall>i < NBUF. buf_ok dev (p_pid (procs s p)) (disk s) (sleeplocks s (Buf_lock i)) (bufs s i)) \<and>
     (\<forall>n. \<forall>i < NBUF. \<forall>j < NBUF. caches dev n (bufs s i) \<longrightarrow> caches dev n (bufs s j) \<longrightarrow> i = j)"

lemma bio_okD:
  assumes "bio_ok dev p s"
  shows "calm p s" "dev \<noteq> 0" "\<exists>bs. order s bs"
    "i < NBUF \<Longrightarrow> buf_ok dev (p_pid (procs s p)) (disk s) (sleeplocks s (Buf_lock i)) (bufs s i)"
    "i < NBUF \<Longrightarrow> j < NBUF \<Longrightarrow> caches dev n (bufs s i) \<Longrightarrow> caches dev n (bufs s j) \<Longrightarrow> i = j"
proof -
  have all: "\<forall>n. \<forall>i < NBUF. \<forall>j < NBUF. caches dev n (bufs s i) \<longrightarrow> caches dev n (bufs s j) \<longrightarrow> i = j"
    using assms unfolding bio_ok_def by (elim conjE)
  show "i < NBUF \<Longrightarrow> j < NBUF \<Longrightarrow> caches dev n (bufs s i) \<Longrightarrow> caches dev n (bufs s j) \<Longrightarrow> i = j"
    by (rule all [rule_format])
qed (use assms in \<open>simp_all only: bio_ok_def simp_thms\<close>)

lemma find_none_iff: "List.find P xs = None \<longleftrightarrow> (\<forall>i \<in> set xs. \<not> P i)"
  by (induction xs) auto

lemma find_someD: "List.find P xs = Some i \<Longrightarrow> i \<in> set xs \<and> P i"
  by (induction xs) (auto split: if_splits)

lemma find_unique:
  assumes "i \<in> set xs" and "P i" and "\<And>j. j \<in> set xs \<Longrightarrow> P j \<Longrightarrow> j = i"
  shows "List.find P xs = Some i"
proof (cases "List.find P xs")
  case None
  then show ?thesis using assms(1,2) by (simp add: find_none_iff)
next
  case (Some j)
  then show ?thesis using find_someD [OF Some] assms(3) [of j] by simp
qed

lemma slot_of_eq:
  assumes "bio_ok dev p s" and "i < NBUF" and "caches dev n (bufs s i)"
  shows "slot_of dev s n = Some i"
  unfolding slot_of_def
proof (rule find_unique)
  show "j = i" if "j \<in> set [0..<NBUF]" "caches dev n (bufs s j)" for j
    by (rule bio_okD(5) [OF assms(1) _ assms(2) that(2) assms(3)]) (use that(1) in simp)
qed (use assms in simp_all)

lemma slot_of_none: "slot_of dev s n = None \<longleftrightarrow> (\<forall>i < NBUF. \<not> caches dev n (bufs s i))"
  by (auto simp: slot_of_def find_none_iff simp del: upt_Suc)

lemma slot_of_some: "slot_of dev s n = Some i \<Longrightarrow> i < NBUF \<and> caches dev n (bufs s i)"
  using find_someD unfolding slot_of_def by (fastforce simp del: upt_Suc)

text \<open>The state in which \<^verbatim>\<open>bread(dev, n)\<close> returns with buffer \<open>b\<close>.\<close>

definition taken :: "u32 \<Rightarrow> nat \<Rightarrow> u32 \<Rightarrow> nat \<Rightarrow> 'z bio_st_scheme \<Rightarrow> 'z bio_st_scheme" where
  "taken dev p n b s = s\<lparr>mach := settle (mach s),
     sleeplocks := (sleeplocks s)(Buf_lock b := (sleeplocks s (Buf_lock b))\<lparr>sl_locked := 1, sl_pid := p_pid (procs s p)\<rparr>),
     bufs := (bufs s)(b := (bufs s b)\<lparr>b_valid := 1, b_dev := dev, b_blockno := n, b_refcnt := b_refcnt (bufs s b) + 1,
       b_data := view dev s n\<rparr>)\<rparr>"

text \<open>\<^verbatim>\<open>bread\<close> can go on without waiting: the block is cached and not locked, or some buffer is not referenced.\<close>

definition available :: "u32 \<Rightarrow> 'z bio_st_scheme \<Rightarrow> u32 \<Rightarrow> bool" where
  "available dev s n \<longleftrightarrow> (case slot_of dev s n of Some i \<Rightarrow> \<not> held s i \<and> b_refcnt (bufs s i) \<noteq> - 1 | None \<Rightarrow> \<exists>i < NBUF. b_refcnt (bufs s i) = 0)"

lemma bget_run:
  assumes ok: "bio_ok dev p s" and "available dev s n"
  shows "\<exists>b. b < NBUF \<and> \<not> held s b \<and>
     (slot_of dev s n = Some b \<and> bget dev n e s = Ok b (s\<lparr>mach := settle (mach s),
         sleeplocks := (sleeplocks s)(Buf_lock b := (sleeplocks s (Buf_lock b))\<lparr>sl_locked := 1, sl_pid := p_pid (procs s p)\<rparr>),
         bufs := (bufs s)(b := (bufs s b)\<lparr>b_refcnt := b_refcnt (bufs s b) + 1\<rparr>)\<rparr>) \<or>
      slot_of dev s n = None \<and> b_refcnt (bufs s b) = 0 \<and> bget dev n e s = Ok b (s\<lparr>mach := settle (mach s),
         sleeplocks := (sleeplocks s)(Buf_lock b := (sleeplocks s (Buf_lock b))\<lparr>sl_locked := 1, sl_pid := p_pid (procs s p)\<rparr>),
         bufs := (bufs s)(b := (bufs s b)\<lparr>b_dev := dev, b_blockno := n, b_valid := 0, b_refcnt := 1\<rparr>)\<rparr>))"
proof -
  note calm = bio_okD(1) [OF ok]
  obtain bs where bs: "order s bs" using bio_okD(3) [OF ok] by blast
  let ?s = "s\<lparr>mach := acq Bcache_lock (mach s)\<rparr>"
  have nx: "seg (bnext ?s) Bhead bs Bhead" "seg (bprev ?s) Bhead (rev bs) Bhead" "set bs = {..<NBUF}"
    using bs by (simp_all add: order_def)
  have hit: "bsearch bnext (\<lambda>b. b_dev b = dev \<and> b_blockno b = n) e ?s =
      Ok (List.find (\<lambda>i. caches dev n (bufs s i)) bs) ?s"
    using order_find [where link = bnext, OF nx(1)] by (simp add: caches_def)
  have free: "bsearch bprev (\<lambda>b. b_refcnt b = 0) e ?s = Ok (List.find (\<lambda>i. b_refcnt (bufs s i) = 0) (rev bs)) ?s"
    using order_find [where link = bprev, OF nx(2)] by simp
  have slp: "acquiresleep (Buf_lock b) e (s\<lparr>mach := settle (mach s), bufs := f\<rparr>) = Ok () (s\<lparr>mach := settle (mach s),
      sleeplocks := (sleeplocks s)(Buf_lock b := (sleeplocks s (Buf_lock b))\<lparr>sl_locked := 1, sl_pid := p_pid (procs s p)\<rparr>), bufs := f\<rparr>)"
    if "\<not> held s b" for b f
  proof -
    have "calm p (s\<lparr>mach := settle (mach s), bufs := f\<rparr>)" using calm by (simp add: calm_def)
    from acquiresleep_run [OF this] that show ?thesis by (simp add: held_def)
  qed
  have tail: "thenK (upd_buf b f) (thenK (release Bcache_lock) (thenK (acquiresleep (Buf_lock b)) (returnK b))) e ?s =
      Ok b (s\<lparr>mach := settle (mach s),
        sleeplocks := (sleeplocks s)(Buf_lock b := (sleeplocks s (Buf_lock b))\<lparr>sl_locked := 1, sl_pid := p_pid (procs s p)\<rparr>),
        bufs := (bufs s)(b := f (bufs s b))\<rparr>)" if "\<not> held s b" for b f
  proof -
    have "release Bcache_lock e (s\<lparr>mach := acq Bcache_lock (mach s), bufs := (bufs s)(b := f (bufs s b))\<rparr>) =
        Ok () (s\<lparr>mach := settle (mach s), bufs := (bufs s)(b := f (bufs s b))\<rparr>)"
      using calmD [OF calm] by (simp add: release_run)
    then show ?thesis
      using slp [OF that] by (simp add: thenK_def bindK_def upd_buf_def modifyK_def returnK_def)
  qed
  have enter: "acquire Bcache_lock e s = Ok () ?s" using calmD [OF calm] by simp
  show ?thesis
  proof (cases "slot_of dev s n")
    case (Some b)
    have b: "b < NBUF" "caches dev n (bufs s b)" using slot_of_some [OF Some] by auto
    have "\<not> held s b" using assms(2) Some by (simp add: available_def)
    moreover have "List.find (\<lambda>i. caches dev n (bufs s i)) bs = Some b"
    proof (rule find_unique)
      show "j = b" if "j \<in> set bs" "caches dev n (bufs s j)" for j
        by (rule bio_okD(5) [OF ok _ b(1) that(2) b(2)]) (use that(1) nx(3) in simp)
    qed (use b nx(3) in simp_all)
    ultimately show ?thesis
      using b(1) Some
      by (intro exI [of _ b]) (simp add: bget_def thenK_def [of "acquire _"] bindK_def [of "acquire _"] bindK_def [of "bsearch _ _"] enter hit tail)
  next
    case None
    then have miss: "List.find (\<lambda>i. caches dev n (bufs s i)) bs = None"
      using nx(3) by (simp add: find_none_iff slot_of_none)
    obtain i where "i < NBUF" "b_refcnt (bufs s i) = 0" using assms(2) None by (auto simp: available_def)
    then have "List.find (\<lambda>i. b_refcnt (bufs s i) = 0) (rev bs) \<noteq> None" using nx(3) by (auto simp: find_none_iff)
    then obtain b where b: "List.find (\<lambda>i. b_refcnt (bufs s i) = 0) (rev bs) = Some b" by blast
    then have r: "b < NBUF" "b_refcnt (bufs s b) = 0" using find_someD [OF b] nx(3) by auto
    then have "\<not> held s b" using bio_okD(4) [OF ok] by (auto simp: buf_ok_def held_def)
    then show ?thesis
      using r None
      by (intro exI [of _ b]) (simp add: bget_def thenK_def [of "acquire _"] bindK_def [of "acquire _"] bindK_def [of "bsearch _ _"]
          enter hit miss free b tail)
  qed
qed

definition fits :: "u32 \<Rightarrow> 'z bio_st_scheme \<Rightarrow> u32 \<Rightarrow> nat \<Rightarrow> bool" where
  "fits dev s n b \<longleftrightarrow> b < NBUF \<and> \<not> held s b \<and> b_refcnt (bufs s b) \<noteq> - 1 \<and>
     (slot_of dev s n = Some b \<or> slot_of dev s n = None \<and> b_refcnt (bufs s b) = 0)"

lemma bread_run:
  assumes ok: "bio_ok dev p s" and av: "available dev s n"
  shows "\<exists>b. fits dev s n b \<and> bread dev n e s = Ok b (taken dev p n b s)"
proof -
  obtain b where b: "b < NBUF" "\<not> held s b" and
    "slot_of dev s n = Some b \<and> bget dev n e s = Ok b (s\<lparr>mach := settle (mach s),
         sleeplocks := (sleeplocks s)(Buf_lock b := (sleeplocks s (Buf_lock b))\<lparr>sl_locked := 1, sl_pid := p_pid (procs s p)\<rparr>),
         bufs := (bufs s)(b := (bufs s b)\<lparr>b_refcnt := b_refcnt (bufs s b) + 1\<rparr>)\<rparr>) \<or>
      slot_of dev s n = None \<and> b_refcnt (bufs s b) = 0 \<and> bget dev n e s = Ok b (s\<lparr>mach := settle (mach s),
         sleeplocks := (sleeplocks s)(Buf_lock b := (sleeplocks s (Buf_lock b))\<lparr>sl_locked := 1, sl_pid := p_pid (procs s p)\<rparr>),
         bufs := (bufs s)(b := (bufs s b)\<lparr>b_dev := dev, b_blockno := n, b_valid := 0, b_refcnt := 1\<rparr>)\<rparr>)"
    (is "?hit \<or> ?miss")
    using bget_run [OF assms, of e] by blast
  then consider ?hit | ?miss by blast
  then show ?thesis
  proof cases
    case 1
    have r: "b_dev (bufs s b) = dev" "b_blockno (bufs s b) = n" using slot_of_some [OF conjunct1 [OF 1]] by (auto simp: caches_def)
    have v: "b_valid (bufs s b) = 0 \<or> b_valid (bufs s b) = 1" using bio_okD(4) [OF ok b(1)] by (auto simp: buf_ok_def)
    have new: "(bufs s b)\<lparr>b_valid := 1, b_dev := dev, b_blockno := n, b_refcnt := b_refcnt (bufs s b) + 1, b_data := view dev s n\<rparr>
      = (bufs s b)\<lparr>b_valid := 1, b_refcnt := b_refcnt (bufs s b) + 1, b_data := view dev s n\<rparr>"
      by (rule buf.equality) (simp_all add: r)
    have old: "b_valid (bufs s b) = 1 \<Longrightarrow> (bufs s b)\<lparr>b_valid := 1, b_refcnt := c, b_data := b_data (bufs s b)\<rparr> = (bufs s b)\<lparr>b_refcnt := c\<rparr>" for c
      by (rule buf.equality) simp_all
    have "bread dev n e s = Ok b (taken dev p n b s)"
      using 1 v by (auto simp: bread_def bindK_def thenK_def whenK_def returnK_def buf_get_def getsK_def disk_rw_def upd_buf_def
          modifyK_def taken_def new view_def r old intro!: buf.equality arg_cong [where f = "\<lambda>x. bufs_update (\<lambda>_. (bufs s)(b := x)) _"])
    then show ?thesis using b 1 av by (auto simp: fits_def available_def)
  next
    case 2
    have "bread dev n e s = Ok b (taken dev p n b s)"
      using 2 by (auto simp: bread_def bindK_def thenK_def whenK_def returnK_def buf_get_def getsK_def disk_rw_def upd_buf_def
          modifyK_def taken_def view_def intro!: buf.equality arg_cong [where f = "\<lambda>x. bufs_update (\<lambda>_. (bufs s)(b := x)) _"])
    then show ?thesis using b 2 by (auto simp: fits_def)
  qed
qed

section \<open>The operations on the content\<close>

text \<open>References to a block that outlive its lock: the pins of the log.\<close>

definition pinned :: "u32 \<Rightarrow> 'z bio_st_scheme \<Rightarrow> u32 \<Rightarrow> nat" where
  "pinned dev s n = (case slot_of dev s n of None \<Rightarrow> 0
     | Some i \<Rightarrow> unat (b_refcnt (bufs s i)) - (if held s i then 1 else 0))"

definition refs :: "'z bio_st_scheme \<Rightarrow> nat set" where
  "refs s = {i. i < NBUF \<and> b_refcnt (bufs s i) \<noteq> 0}"

text \<open>The cache operations change nothing but the cache, the disk and the sleepers they wake.\<close>

definition frame :: "'z bio_st_scheme \<Rightarrow> 'z bio_st_scheme \<Rightarrow> bool" where
  "frame s t \<longleftrightarrow> t = s\<lparr>mach := mach t, procs := procs t, sleeplocks := sleeplocks t, bufs := bufs t, bprev := bprev t,
     bnext := bnext t, disk := disk t, disk_writes := disk_writes t\<rparr>"

lemma frameI [simp]:
  "frame s s" "frame s (s\<lparr>mach := m\<rparr>)" "frame s (s\<lparr>procs := ps\<rparr>)" "frame s (s\<lparr>sleeplocks := sl\<rparr>)" "frame s (s\<lparr>bufs := bf\<rparr>)"
  "frame s (s\<lparr>bprev := bp\<rparr>)" "frame s (s\<lparr>bnext := bp\<rparr>)" "frame s (s\<lparr>disk := d\<rparr>)" "frame s (s\<lparr>disk_writes := w\<rparr>)"
  by (simp_all add: frame_def)

lemma frame_trans [trans]:
  assumes "frame s t" and "frame t u"
  shows "frame s u"
proof -
  let ?T = "\<lambda>t. t\<lparr>mach := mach u, procs := procs u, sleeplocks := sleeplocks u, bufs := bufs u, bprev := bprev u,
     bnext := bnext u, disk := disk u, disk_writes := disk_writes u\<rparr>"
  let ?S = "s\<lparr>mach := mach t, procs := procs t, sleeplocks := sleeplocks t, bufs := bufs t, bprev := bprev t,
     bnext := bnext t, disk := disk t, disk_writes := disk_writes t\<rparr>"
  have "u = ?T t" using assms(2) unfolding frame_def .
  also have "?T t = ?T ?S" using assms(1) unfolding frame_def by (rule arg_cong [where f = ?T])
  also have "?T ?S = ?T s" by simp
  finally show ?thesis unfolding frame_def .
qed

text \<open>Two states of the cache in which the same buffers are bound to the same blocks.\<close>

lemma slot_of_cong: "(\<And>i. i < NBUF \<Longrightarrow> b_dev (bufs t i) = b_dev (bufs s i) \<and> b_blockno (bufs t i) = b_blockno (bufs s i)) \<Longrightarrow>
    slot_of dev t n = slot_of dev s n"
  unfolding slot_of_def caches_def by (rule find_cong) auto

lemma order_cong: "bnext t = bnext s \<Longrightarrow> bprev t = bprev s \<Longrightarrow> order t bs = order s bs"
  by (simp add: order_def)

lemma taken_simps [simp]:
  "mach (taken dev p n b s) = settle (mach s)" "procs (taken dev p n b s) = procs s" "disk (taken dev p n b s) = disk s"
  "disk_writes (taken dev p n b s) = disk_writes s" "bnext (taken dev p n b s) = bnext s" "bprev (taken dev p n b s) = bprev s"
  "i \<noteq> b \<Longrightarrow> bufs (taken dev p n b s) i = bufs s i" "held (taken dev p n b s) i \<longleftrightarrow> held s i \<or> i = b"
  "b_data (bufs (taken dev p n b s) b) = view dev s n" "b_valid (bufs (taken dev p n b s) b) = 1"
  "b_refcnt (bufs (taken dev p n b s) b) = b_refcnt (bufs s b) + 1"
  "caches dev' m (bufs (taken dev p n b s) b) \<longleftrightarrow> dev' = dev \<and> m = n" "frame s (taken dev p n b s)"
  by (auto simp: taken_def held_def caches_def frame_def)

lemma taken_slot_of:
  assumes "bio_ok dev p s" and "fits dev s n b"
  shows "slot_of dev (taken dev p n b s) m = (if m = n then Some b else if slot_of dev s m = Some b then None else slot_of dev s m)"
proof -
  let ?t = "taken dev p n b s"
  have b: "b < NBUF" "\<not> caches dev n (bufs s i)" if "i < NBUF" "i \<noteq> b" for i
    using that assms slot_of_eq [OF assms(1) that(1)] slot_of_none [of dev s n] by (auto simp: fits_def)
  have c: "caches dev m (bufs ?t i) \<longleftrightarrow> (if i = b then m = n else caches dev m (bufs s i))" for i m by simp
  show ?thesis
  proof (cases "m = n")
    case True
    have "List.find (\<lambda>i. caches dev m (bufs ?t i)) [0..<NBUF] = Some b"
    proof (rule find_unique)
      show "b \<in> set [0..<NBUF]" using assms(2) by (simp add: fits_def)
      show "j = b" if "j \<in> set [0..<NBUF]" "caches dev m (bufs ?t j)" for j
        using that b [of j] True by (auto simp: c split: if_splits)
    qed (use True in simp)
    then show ?thesis using True by (simp add: slot_of_def)
  next
    case False
    show ?thesis
    proof (cases "slot_of dev s m")
      case None
      then have "slot_of dev ?t m = None" unfolding slot_of_none using False by (auto simp: c)
      then show ?thesis using False None by simp
    next
      case (Some i)
      note i = slot_of_some [OF Some]
      show ?thesis
      proof (cases "i = b")
        case True
        have "slot_of dev ?t m = None" unfolding slot_of_none
        proof (intro allI impI notI)
          fix j assume j: "j < NBUF" "caches dev m (bufs ?t j)"
          then have "j \<noteq> b" "caches dev m (bufs s j)" using False by (auto simp: c split: if_splits)
          then show False using slot_of_eq [OF assms(1) j(1)] Some True by simp
        qed
        then show ?thesis using False Some True by simp
      next
        case other: False
        have "slot_of dev ?t m = Some i" unfolding slot_of_def
        proof (rule find_unique)
          show "j = i" if "j \<in> set [0..<NBUF]" "caches dev m (bufs ?t j)" for j
            using that False slot_of_eq [OF assms(1), of j m] Some by (auto simp: c split: if_splits)
        qed (use i other in \<open>auto simp: c\<close>)
        then show ?thesis using False Some other by simp
      qed
    qed
  qed
qed

lemma taken_ok:
  assumes ok: "bio_ok dev p s" and b: "fits dev s n b"
  shows "bio_ok dev p (taken dev p n b s)"
proof -
  let ?t = "taken dev p n b s"
  have calm: "calm p ?t" using bio_okD(1) [OF ok] by (simp add: calm_def)
  have lock: "sleeplocks ?t (Buf_lock i) = (if i = b then (sleeplocks s (Buf_lock b))\<lparr>sl_locked := 1, sl_pid := p_pid (procs s p)\<rparr>
      else sleeplocks s (Buf_lock i))" for i by (simp add: taken_def)
  have "b_dev (bufs ?t b) = dev" by (simp add: taken_def)
  moreover have "b_refcnt (bufs s b) + 1 \<noteq> 0" using b unfolding eq_neg_iff_add_eq_0 [symmetric] by (simp add: fits_def)
  ultimately have each: "buf_ok dev (p_pid (procs ?t p)) (disk ?t) (sleeplocks ?t (Buf_lock i)) (bufs ?t i)" if "i < NBUF" for i
    using bio_okD(4) [OF ok that] by (cases "i = b") (simp_all add: buf_ok_def lock)
  have uniq: "i = j" if "i < NBUF" "j < NBUF" "caches dev m (bufs ?t i)" "caches dev m (bufs ?t j)" for i j m
  proof -
    have "slot_of dev ?t m = Some b" if "m = n" using that taken_slot_of [OF ok b] by simp
    have one: "k = b" if "k < NBUF" "caches dev n (bufs ?t k)" for k
    proof (rule ccontr)
      assume "k \<noteq> b"
      then have "slot_of dev s n = Some k" using that slot_of_eq [OF ok] by simp
      then show False using b \<open>k \<noteq> b\<close> by (auto simp: fits_def)
    qed
    show ?thesis
    proof (cases "m = n")
      case True
      then show ?thesis using one that by blast
    next
      case False
      then have "i \<noteq> b" "j \<noteq> b" using that by auto
      then show ?thesis using bio_okD(5) [OF ok that(1,2)] that(3,4) by simp
    qed
  qed
  have "\<exists>bs. order ?t bs" using bio_okD(3) [OF ok] by (simp add: order_def)
  then show ?thesis unfolding bio_ok_def using calm bio_okD(2) [OF ok] each uniq by blast
qed

lemma taken_view:
  assumes ok: "bio_ok dev p s" and b: "fits dev s n b"
  shows "view dev (taken dev p n b s) = view dev s"
proof
  fix m
  show "view dev (taken dev p n b s) m = view dev s m"
  proof (cases "m \<noteq> n \<and> slot_of dev s m = Some b")
    case True
    then have c: "caches dev m (bufs s b)" "b < NBUF" using slot_of_some by auto
    have "slot_of dev s n \<noteq> Some b" using True slot_of_some [of dev s n b] c by (auto simp: caches_def)
    then have "b_refcnt (bufs s b) = 0" using b by (simp add: fits_def)
    then have "view dev s m = disk s m" using True c bio_okD(4) [OF ok c(2)] by (auto simp: view_def buf_ok_def caches_def)
    then show ?thesis using True by (simp add: view_def taken_slot_of [OF assms])
  next
    case False
    show ?thesis
    proof (cases "m = n")
      case True
      then show ?thesis by (simp add: view_def [of dev "taken dev p n b s"] taken_slot_of [OF assms])
    next
      case other: False
      then show ?thesis using False by (cases "slot_of dev s m") (simp_all add: view_def taken_slot_of [OF assms])
    qed
  qed
qed

lemma taken_pinned:
  assumes ok: "bio_ok dev p s" and b: "fits dev s n b"
  shows "pinned dev (taken dev p n b s) = pinned dev s"
proof
  fix m
  have "b_refcnt (bufs s b) + 1 \<noteq> 0" using b unfolding eq_neg_iff_add_eq_0 [symmetric] by (simp add: fits_def)
  then have rc: "unat (b_refcnt (bufs s b) + 1) - 1 = unat (b_refcnt (bufs s b))"
    using unat_minus_one [of "b_refcnt (bufs s b) + 1"] by simp
  show "pinned dev (taken dev p n b s) m = pinned dev s m"
  proof (cases "m = n")
    case True
    then show ?thesis using b rc by (auto simp: pinned_def taken_slot_of [OF assms] fits_def split: option.split)
  next
    case False
    show ?thesis
    proof (cases "slot_of dev s m = Some b")
      case True
      then have c: "caches dev m (bufs s b)" using slot_of_some by auto
      have "slot_of dev s n \<noteq> Some b" using False slot_of_some [of dev s n b] c by (auto simp: caches_def)
      then show ?thesis using b True False by (simp add: fits_def pinned_def taken_slot_of [OF assms])
    next
      case other: False
      then show ?thesis using False by (cases "slot_of dev s m") (auto simp: pinned_def taken_slot_of [OF assms])
    qed
  qed
qed

text \<open>
  \<^verbatim>\<open>bread\<close> returns a locked buffer with the content of the block, and changes the content of
  no block, no pin, and nothing on the disk.
\<close>

definition read_ok :: "u32 \<Rightarrow> nat \<Rightarrow> u32 \<Rightarrow> 'z bio_st_scheme \<Rightarrow> nat \<Rightarrow> 'z bio_st_scheme \<Rightarrow> bool" where
  "read_ok dev p n s b t \<longleftrightarrow> bio_ok dev p t \<and> frame s t \<and> b < NBUF \<and> \<not> held s b \<and> (\<forall>i. held t i \<longleftrightarrow> held s i \<or> i = b) \<and>
     b_dev (bufs t b) = dev \<and> b_blockno (bufs t b) = n \<and> b_data (bufs t b) = view dev s n \<and> (\<forall>i. i \<noteq> b \<longrightarrow> bufs t i = bufs s i) \<and>
     view dev t = view dev s \<and> pinned dev t = pinned dev s \<and> disk t = disk s \<and> disk_writes t = disk_writes s \<and>
     refs t = insert b (refs s) \<and> (b \<in> refs s \<longleftrightarrow> pinned dev s n \<noteq> 0) \<and> p_pid (procs t p) = p_pid (procs s p)"

lemma bread_spec:
  assumes ok: "bio_ok dev p s" and "available dev s n"
  shows "wpK (bread dev n) (read_ok dev p n s) e s"
proof -
  obtain b where b: "fits dev s n b" "bread dev n e s = Ok b (taken dev p n b s)" using bread_run [OF assms] by blast
  let ?t = "taken dev p n b s"
  have "b_refcnt (bufs s b) + 1 \<noteq> 0" using b(1) unfolding eq_neg_iff_add_eq_0 [symmetric] by (simp add: fits_def)
  then have "i \<in> refs ?t \<longleftrightarrow> i \<in> insert b (refs s)" for i
    using b(1) by (cases "i = b") (simp_all add: refs_def fits_def)
  then have refs: "refs ?t = insert b (refs s)" by blast
  have pin: "b \<in> refs s \<longleftrightarrow> pinned dev s n \<noteq> 0"
    using b(1) by (auto simp: refs_def pinned_def fits_def unat_eq_zero unat_gt_0)
  have "b_dev (bufs ?t b) = dev" "b_blockno (bufs ?t b) = n" by (simp_all add: taken_def)
  then have "read_ok dev p n s b ?t"
    using b(1) refs pin taken_ok [OF ok b(1)] taken_view [OF ok b(1)] taken_pinned [OF ok b(1)]
    by (simp add: read_ok_def fits_def)
  then show ?thesis using b(2) by (simp add: wpK_def)
qed

text \<open>No buffer left: \<^verbatim>\<open>bget\<close> panics.\<close>

lemma bread_full:
  assumes ok: "bio_ok dev p s" and "slot_of dev s n = None" and "refs s = {..<NBUF}"
  shows "bread dev n e s = Panic ''bget: no buffers''"
proof -
  obtain bs where bs: "order s bs" using bio_okD(3) [OF ok] by blast
  let ?s = "s\<lparr>mach := acq Bcache_lock (mach s)\<rparr>"
  have nx: "seg (bnext ?s) Bhead bs Bhead" "seg (bprev ?s) Bhead (rev bs) Bhead" "set bs = {..<NBUF}"
    using bs by (simp_all add: order_def)
  have "List.find (\<lambda>i. caches dev n (bufs s i)) bs = None" using assms(2) nx(3) by (auto simp: find_none_iff slot_of_none)
  then have hit: "bsearch bnext (\<lambda>b. b_dev b = dev \<and> b_blockno b = n) e ?s = Ok None ?s"
    using order_find [where link = bnext, OF nx(1)] by (simp add: caches_def)
  have "List.find (\<lambda>i. b_refcnt (bufs s i) = 0) (rev bs) = None"
    using assms(3) nx(3) by (auto simp: find_none_iff refs_def)
  then have "bsearch bprev (\<lambda>b. b_refcnt b = 0) e ?s = Ok None ?s"
    using order_find [where link = bprev, OF nx(2)] by simp
  then show ?thesis
    using hit calmD [OF bio_okD(1) [OF ok]] by (simp add: bread_def bget_def thenK_def bindK_def panic_def)
qed

lemma bio_ok_update:
  assumes ok: "bio_ok dev p s" and "calm p t" and "\<exists>bs. order t bs"
    and "\<And>i. i < NBUF \<Longrightarrow> b_dev (bufs t i) = b_dev (bufs s i) \<and> b_blockno (bufs t i) = b_blockno (bufs s i)"
    and "\<And>i. i < NBUF \<Longrightarrow> buf_ok dev (p_pid (procs t p)) (disk t) (sleeplocks t (Buf_lock i)) (bufs t i)"
  shows "bio_ok dev p t"
proof -
  have c: "caches dev n (bufs t i) \<longleftrightarrow> caches dev n (bufs s i)" if "i < NBUF" for i n
    using assms(4) [OF that] by (simp add: caches_def)
  have "i = j" if "i < NBUF" "j < NBUF" "caches dev n (bufs t i)" "caches dev n (bufs t j)" for i j n
    using bio_okD(5) [OF ok that(1,2), of n] that(3,4) c that(1,2) by blast
  then show ?thesis unfolding bio_ok_def using assms(2,3,5) bio_okD(2) [OF ok] by blast
qed

lemma view_held:
  assumes "bio_ok dev p s" and "b < NBUF" and "held s b"
  shows "slot_of dev s (b_blockno (bufs s b)) = Some b" "view dev s (b_blockno (bufs s b)) = b_data (bufs s b)"
    "b_dev (bufs s b) = dev" "b_valid (bufs s b) = 1" "b_refcnt (bufs s b) \<noteq> 0"
proof -
  have "buf_ok dev (p_pid (procs s p)) (disk s) (sleeplocks s (Buf_lock b)) (bufs s b)" by (rule bio_okD(4) [OF assms(1,2)])
  then show r: "b_dev (bufs s b) = dev" "b_valid (bufs s b) = 1" "b_refcnt (bufs s b) \<noteq> 0"
    using assms(3) by (auto simp: buf_ok_def held_def)
  then show slot: "slot_of dev s (b_blockno (bufs s b)) = Some b"
    using slot_of_eq [OF assms(1,2)] by (simp add: caches_def)
  show "view dev s (b_blockno (bufs s b)) = b_data (bufs s b)" using r by (simp add: view_def slot)
qed

text \<open>Storing into a locked buffer.\<close>

lemma set_data:
  fixes d :: "byte list"
  assumes ok: "bio_ok dev p s" and b: "b < NBUF" "held s b"
  defines "t \<equiv> s\<lparr>bufs := (bufs s)(b := (bufs s b)\<lparr>b_data := d\<rparr>)\<rparr>"
  shows "bio_ok dev p t" "view dev t = (view dev s)(b_blockno (bufs s b) := d)" "pinned dev t = pinned dev s"
    "held t = held s" "refs t = refs s" "frame s t"
proof -
  have eq: "b_dev (bufs t i) = b_dev (bufs s i) \<and> b_blockno (bufs t i) = b_blockno (bufs s i) \<and>
      b_refcnt (bufs t i) = b_refcnt (bufs s i) \<and> b_valid (bufs t i) = b_valid (bufs s i)" for i by (simp add: t_def)
  have slot: "slot_of dev t n = slot_of dev s n" for n by (rule slot_of_cong) (simp add: eq)
  show held: "held t = held s" by (simp add: t_def held_def fun_eq_iff)
  show "bio_ok dev p t"
  proof (rule bio_ok_update [OF ok])
    show "calm p t" using bio_okD(1) [OF ok] by (simp add: t_def calm_def)
    show "\<exists>bs. order t bs" using bio_okD(3) [OF ok] by (simp add: t_def order_def)
    show "buf_ok dev (p_pid (procs t p)) (disk t) (sleeplocks t (Buf_lock i)) (bufs t i)" if "i < NBUF" for i
      using bio_okD(4) [OF ok that] b view_held(5) [OF ok b] by (auto simp: t_def buf_ok_def)
  qed (use eq in blast)
  show "view dev t = (view dev s)(b_blockno (bufs s b) := d)"
  proof
    fix n
    show "view dev t n = ((view dev s)(b_blockno (bufs s b) := d)) n"
    proof (cases "n = b_blockno (bufs s b)")
      case True
      then show ?thesis using view_held(1,4) [OF ok b] by (simp add: view_def slot) (simp add: t_def)
    next
      case False
      then have "slot_of dev s n \<noteq> Some b" using slot_of_some [of dev s n b] by (auto simp: caches_def)
      then show ?thesis using False by (cases "slot_of dev s n") (simp_all add: view_def slot eq, simp_all add: t_def)
    qed
  qed
  show "pinned dev t = pinned dev s" by (simp add: fun_eq_iff pinned_def slot held eq split: option.split)
  show "refs t = refs s" by (simp add: refs_def eq)
  show "frame s t" by (simp add: t_def)
qed

lemma bwrite_run:
  assumes ok: "bio_ok dev p s" and b: "b < NBUF" "held s b"
  shows "bwrite b e s = Ok () (s\<lparr>mach := settle (mach s), disk := (disk s)(b_blockno (bufs s b) := b_data (bufs s b)),
     disk_writes := (b_blockno (bufs s b), b_data (bufs s b)) # disk_writes s\<rparr>)"
proof -
  have "sl_pid (sleeplocks s (Buf_lock b)) = p_pid (procs s p)" using bio_okD(4) [OF ok b(1)] b(2) by (auto simp: buf_ok_def held_def)
  then show ?thesis
    using b(2) holdingsleep_run [OF bio_okD(1) [OF ok], of "Buf_lock b" e]
    by (simp add: bwrite_def bindK_def disk_rw_def modifyK_def Let_def held_def)
qed

lemma written:
  assumes ok: "bio_ok dev p s" and b: "b < NBUF" "held s b"
  defines "n \<equiv> b_blockno (bufs s b)"
  defines "t \<equiv> s\<lparr>mach := settle (mach s), disk := (disk s)(n := b_data (bufs s b)), disk_writes := (n, b_data (bufs s b)) # disk_writes s\<rparr>"
  shows "bio_ok dev p t" "view dev t = view dev s" "pinned dev t = pinned dev s" "held t = held s" "refs t = refs s" "frame s t"
proof -
  have slot: "slot_of dev t m = slot_of dev s m" for m by (rule slot_of_cong) (simp add: t_def)
  show held: "held t = held s" by (simp add: t_def held_def fun_eq_iff)
  have other: "b_blockno (bufs s i) \<noteq> n" if "i < NBUF" "i \<noteq> b" "b_valid (bufs s i) \<noteq> 0" for i
  proof
    assume "b_blockno (bufs s i) = n"
    moreover have "b_dev (bufs s i) = dev" using bio_okD(4) [OF ok that(1)] that(3) by (auto simp: buf_ok_def)
    ultimately have "slot_of dev s n = Some i" using slot_of_eq [OF ok that(1)] by (simp add: caches_def)
    then show False using view_held(1) [OF ok b] that(2) by (simp add: n_def)
  qed
  show "bio_ok dev p t"
  proof (rule bio_ok_update [OF ok])
    show "calm p t" using bio_okD(1) [OF ok] by (simp add: t_def calm_def)
    show "\<exists>bs. order t bs" using bio_okD(3) [OF ok] by (simp add: t_def order_def)
    show "buf_ok dev (p_pid (procs t p)) (disk t) (sleeplocks t (Buf_lock i)) (bufs t i)" if "i < NBUF" for i
      using bio_okD(4) [OF ok that] other [OF that] by (cases "i = b") (auto simp: t_def buf_ok_def n_def)
  qed (simp add: t_def)
  have "view dev t m = view dev s m" for m
  proof (cases "m = n")
    case True
    then show ?thesis using view_held(1,4) [OF ok b] by (simp add: view_def slot n_def) (simp add: t_def)
  next
    case False
    then show ?thesis by (cases "slot_of dev s m") (simp_all add: view_def slot, simp_all add: t_def)
  qed
  then show "view dev t = view dev s" by blast
  show "pinned dev t = pinned dev s" by (simp add: fun_eq_iff pinned_def slot held split: option.split) (simp add: t_def)
  show "refs t = refs s" by (simp add: refs_def t_def)
  show "frame s t" by (simp add: t_def frame_def)
qed

lemma wake_all_pid [simp]: "p_pid (wake_all c me ps q) = p_pid (ps q)"
  by (simp add: wake_all_def woken_def)

text \<open>The state after the reference count of a buffer has been changed and its lock given up or kept.\<close>

definition recounted :: "(u32 \<Rightarrow> u32) \<Rightarrow> nat \<Rightarrow> (sleeplock \<Rightarrow> sleeplock) \<Rightarrow> 'z bio_st_scheme \<Rightarrow> 'z bio_st_scheme \<Rightarrow> bool" where
  "recounted f b g s t \<longleftrightarrow> mach t = settle (mach s) \<and> (\<forall>q. p_pid (procs t q) = p_pid (procs s q)) \<and>
     sleeplocks t = (sleeplocks s)(Buf_lock b := g (sleeplocks s (Buf_lock b))) \<and>
     bufs t = (bufs s)(b := (bufs s b)\<lparr>b_refcnt := f (b_refcnt (bufs s b))\<rparr>) \<and> (\<exists>bs. order t bs) \<and>
     disk t = disk s \<and> disk_writes t = disk_writes s \<and> frame s t"

lemma recounted_slot: "recounted f b g s t \<Longrightarrow> slot_of dev t n = slot_of dev s n"
  by (rule slot_of_cong) (simp add: recounted_def)

lemma recounted_view: "recounted f b g s t \<Longrightarrow> view dev t = view dev s"
  by (rule ext, unfold view_def recounted_slot) (simp add: recounted_def split: option.split)

lemma recounted_ok:
  assumes "recounted f b g s t" and ok: "bio_ok dev p s"
    and "buf_ok dev (p_pid (procs s p)) (disk s) (g (sleeplocks s (Buf_lock b))) ((bufs s b)\<lparr>b_refcnt := f (b_refcnt (bufs s b))\<rparr>)"
  shows "bio_ok dev p t"
proof (rule bio_ok_update [OF ok])
  show "calm p t" using assms(1) bio_okD(1) [OF ok] by (simp add: recounted_def calm_def)
  show "\<exists>bs. order t bs" using assms(1) by (simp add: recounted_def)
  show "buf_ok dev (p_pid (procs t p)) (disk t) (sleeplocks t (Buf_lock i)) (bufs t i)" if "i < NBUF" for i
    using assms(1,3) bio_okD(4) [OF ok that] by (auto simp: recounted_def)
qed (use assms(1) in \<open>simp add: recounted_def\<close>)

lemma recount_run:
  assumes "bio_ok dev p s"
  shows "\<exists>t. seqK [acquire Bcache_lock, upd_buf b (\<lambda>r. r\<lparr>b_refcnt := f (b_refcnt r)\<rparr>), release Bcache_lock] e s = Ok () t \<and>
     recounted f b id s t"
  using calmD [OF bio_okD(1) [OF assms]] bio_okD(3) [OF assms]
  by (intro exI [of _ "s\<lparr>mach := settle (mach s), bufs := (bufs s)(b := (bufs s b)\<lparr>b_refcnt := f (b_refcnt (bufs s b))\<rparr>)\<rparr>"])
     (simp add: run_simps upd_buf_def recounted_def order_def frame_def)

lemma brelse_run:
  assumes ok: "bio_ok dev p s" and b: "b < NBUF" "held s b"
  shows "\<exists>t. brelse b e s = Ok () t \<and> recounted (\<lambda>c. c - 1) b (\<lambda>l. l\<lparr>sl_locked := 0, sl_pid := 0\<rparr>) s t"
proof -
  note calm = bio_okD(1) [OF ok]
  obtain bs where bs: "order s bs" using bio_okD(3) [OF ok] by blast
  define l where "l = (sleeplocks s (Buf_lock b))\<lparr>sl_locked := 0, sl_pid := 0\<rparr>"
  define r where "r = (bufs s b)\<lparr>b_refcnt := b_refcnt (bufs s b) - 1\<rparr>"
  define u where "u = s\<lparr>mach := acq Bcache_lock (mach s), procs := wake_all (C_sleep (Buf_lock b)) (Some p) (procs s),
     sleeplocks := (sleeplocks s)(Buf_lock b := l), bufs := (bufs s)(b := r)\<rparr>"
  have pid: "sl_pid (sleeplocks s (Buf_lock b)) = p_pid (procs s p)" using bio_okD(4) [OF ok b(1)] b(2) by (auto simp: buf_ok_def held_def)
  have "calm p (s\<lparr>mach := settle (mach s)\<rparr>)" using calm by simp
  from releasesleep_run [OF this, of "Buf_lock b" e]
  have "brelse b e s = bindK (buf_get b b_refcnt) (\<lambda>n. thenK (whenK (n = 0) (to_front b)) (release Bcache_lock)) e u"
    using b(2) pid holdingsleep_run [OF calm, of "Buf_lock b" e] calmD [OF calm]
    by (simp add: brelse_def bindK_def thenK_def held_def upd_buf_def modifyK_def u_def l_def r_def)
  also have "\<dots> = (if b_refcnt r = 0 then thenK (to_front b) (release Bcache_lock) e u else release Bcache_lock e u)"
    by (simp add: bindK_def buf_get_def getsK_def whenK_def thenK_def returnK_def u_def)
  finally have run: "brelse b e s = \<dots>" .
  have u: "order u bs" "b \<in> set bs" using bs b(1) by (auto simp: u_def order_def)
  obtain v where v: "to_front b e u = Ok () v" "order v (b # remove1 b bs)" "v = u\<lparr>bprev := bprev v, bnext := bnext v\<rparr>"
    using to_front_run [OF u] by blast
  have rel: "release Bcache_lock e w = Ok () (w\<lparr>mach := settle (mach s)\<rparr>) \<and>
      recounted (\<lambda>c. c - 1) b (\<lambda>l. l\<lparr>sl_locked := 0, sl_pid := 0\<rparr>) s (w\<lparr>mach := settle (mach s)\<rparr>)"
    if "w = u\<lparr>bprev := pv, bnext := nx\<rparr>" "order w cs" for w pv nx cs
  proof -
    have "order (w\<lparr>mach := settle (mach s)\<rparr>) cs" using that(2) by (simp add: order_def)
    then have "\<exists>cs. order (w\<lparr>mach := settle (mach s)\<rparr>) cs" ..
    moreover have "frame s (w\<lparr>mach := settle (mach s)\<rparr>)" by (simp add: that(1) u_def frame_def)
    ultimately have "recounted (\<lambda>c. c - 1) b (\<lambda>l. l\<lparr>sl_locked := 0, sl_pid := 0\<rparr>) s (w\<lparr>mach := settle (mach s)\<rparr>)"
      unfolding recounted_def by (simp add: that(1) u_def l_def r_def)
    moreover have "mach w = acq Bcache_lock (mach s)" by (simp add: that(1) u_def)
    ultimately show ?thesis using calmD [OF calm] by (simp add: release_run)
  qed
  show ?thesis
  proof (cases "b_refcnt r = 0")
    case True
    then show ?thesis using run v(1) rel [OF v(3,2)] by (auto simp: thenK_def bindK_def)
  next
    case False
    then have eq: "brelse b e s = release Bcache_lock e u" unfolding run by (rule if_not_P)
    have "release Bcache_lock e u = Ok () (u\<lparr>mach := settle (mach s)\<rparr>) \<and>
      recounted (\<lambda>c. c - 1) b (\<lambda>l. l\<lparr>sl_locked := 0, sl_pid := 0\<rparr>) s (u\<lparr>mach := settle (mach s)\<rparr>)"
      by (rule rel [where w = u and pv = "bprev u" and nx = "bnext u" and cs = bs]) (simp, rule u(1))
    then show ?thesis unfolding eq by blast
  qed
qed

definition release_ok :: "u32 \<Rightarrow> nat \<Rightarrow> 'z bio_st_scheme \<Rightarrow> nat \<Rightarrow> 'z bio_st_scheme \<Rightarrow> bool" where
  "release_ok dev p s b t \<longleftrightarrow> bio_ok dev p t \<and> frame s t \<and> (\<forall>i. held t i \<longleftrightarrow> held s i \<and> i \<noteq> b) \<and>
     (\<forall>i. i \<noteq> b \<longrightarrow> bufs t i = bufs s i) \<and> view dev t = view dev s \<and> pinned dev t = pinned dev s \<and>
     disk t = disk s \<and> disk_writes t = disk_writes s \<and> p_pid (procs t p) = p_pid (procs s p) \<and>
     refs t = (if pinned dev s (b_blockno (bufs s b)) = 0 then refs s - {b} else refs s)"

lemma brelse_spec:
  assumes ok: "bio_ok dev p s" and b: "b < NBUF" "held s b"
    and data: "pinned dev s (b_blockno (bufs s b)) = 0 \<Longrightarrow> b_data (bufs s b) = disk s (b_blockno (bufs s b))"
  shows "wpK (brelse b) (\<lambda>_ t. release_ok dev p s b t) e s"
proof -
  obtain t where run: "brelse b e s = Ok () t" and t: "recounted (\<lambda>c. c - 1) b (\<lambda>l. l\<lparr>sl_locked := 0, sl_pid := 0\<rparr>) s t"
    using brelse_run [OF ok b] by blast
  note h = view_held [OF ok b]
  have rc: "unat (b_refcnt (bufs s b) - 1) = unat (b_refcnt (bufs s b)) - 1" using h(5) by (rule unat_minus_one)
  have held: "held t i \<longleftrightarrow> held s i \<and> i \<noteq> b" for i using t by (auto simp: recounted_def held_def)
  have pin_b: "pinned dev s (b_blockno (bufs s b)) = unat (b_refcnt (bufs s b)) - 1" using b(2) h(1) by (simp add: pinned_def)
  have bufs: "bufs t = (bufs s)(b := (bufs s b)\<lparr>b_refcnt := b_refcnt (bufs s b) - 1\<rparr>)" using t by (simp add: recounted_def)
  have pin: "pinned dev t n = pinned dev s n" for n
  proof (cases "slot_of dev s n")
    case (Some i)
    then show ?thesis using rc b(2) by (cases "i = b") (simp_all add: pinned_def recounted_slot [OF t] held bufs)
  qed (simp add: pinned_def recounted_slot [OF t])
  have zero: "b_refcnt (bufs s b) - 1 = 0 \<longleftrightarrow> pinned dev s (b_blockno (bufs s b)) = 0"
    unfolding pin_b rc [symmetric] by (rule unat_eq_zero [symmetric])
  have "buf_ok dev (p_pid (procs s p)) (disk s) ((sleeplocks s (Buf_lock b))\<lparr>sl_locked := 0, sl_pid := 0\<rparr>)
      ((bufs s b)\<lparr>b_refcnt := b_refcnt (bufs s b) - 1\<rparr>)"
    using h(3,4) data zero by (auto simp: buf_ok_def)
  then have "bio_ok dev p t" by (rule recounted_ok [OF t ok])
  moreover have "refs t = (if pinned dev s (b_blockno (bufs s b)) = 0 then refs s - {b} else refs s)"
  proof -
    have "i \<in> refs t \<longleftrightarrow> i \<in> (if pinned dev s (b_blockno (bufs s b)) = 0 then refs s - {b} else refs s)" for i
      using zero h(5) b(1) by (cases "i = b") (auto simp: refs_def bufs)
    then show ?thesis by blast
  qed
  ultimately have "release_ok dev p s b t"
    using t held pin recounted_view [OF t] by (auto simp: release_ok_def recounted_def)
  then show ?thesis using run by (simp add: wpK_def)
qed

text \<open>Pins: \<^verbatim>\<open>bpin\<close> and \<^verbatim>\<open>bunpin\<close> on a locked buffer.\<close>

lemma bpin_eq: "bpin b = seqK [acquire Bcache_lock, upd_buf b (\<lambda>r. r\<lparr>b_refcnt := (\<lambda>c. c + 1) (b_refcnt r)\<rparr>), release Bcache_lock]"
  by (simp add: bpin_def)

lemma bunpin_eq: "bunpin b = seqK [acquire Bcache_lock, upd_buf b (\<lambda>r. r\<lparr>b_refcnt := (\<lambda>c. c - 1) (b_refcnt r)\<rparr>), release Bcache_lock]"
  by (simp add: bunpin_def)

definition repin_ok :: "u32 \<Rightarrow> nat \<Rightarrow> (nat \<Rightarrow> nat) \<Rightarrow> 'z bio_st_scheme \<Rightarrow> nat \<Rightarrow> 'z bio_st_scheme \<Rightarrow> bool" where
  "repin_ok dev p f s b t \<longleftrightarrow> bio_ok dev p t \<and> frame s t \<and> held t = held s \<and> (\<forall>i. i \<noteq> b \<longrightarrow> bufs t i = bufs s i) \<and>
     b_blockno (bufs t b) = b_blockno (bufs s b) \<and> b_data (bufs t b) = b_data (bufs s b) \<and>
     view dev t = view dev s \<and> pinned dev t = (pinned dev s)(b_blockno (bufs s b) := f (pinned dev s (b_blockno (bufs s b)))) \<and>
     disk t = disk s \<and> disk_writes t = disk_writes s \<and> p_pid (procs t p) = p_pid (procs s p) \<and> refs t = refs s"

lemma recounted_held:
  assumes ok: "bio_ok dev p s" and b: "b < NBUF" "held s b" and t: "recounted f b id s t"
    and f: "f (b_refcnt (bufs s b)) \<noteq> 0" "unat (f (b_refcnt (bufs s b))) - 1 = g (unat (b_refcnt (bufs s b)) - 1)"
  shows "repin_ok dev p g s b t"
proof -
  note h = view_held [OF ok b]
  have held: "held t = held s" using t by (auto simp: recounted_def held_def)
  have bufs: "bufs t = (bufs s)(b := (bufs s b)\<lparr>b_refcnt := f (b_refcnt (bufs s b))\<rparr>)" using t by (simp add: recounted_def)
  have pin: "pinned dev t n = ((pinned dev s)(b_blockno (bufs s b) := g (pinned dev s (b_blockno (bufs s b))))) n" for n
  proof (cases "n = b_blockno (bufs s b)")
    case True
    then show ?thesis using h(1) b(2) f(2) by (simp add: pinned_def recounted_slot [OF t] held bufs)
  next
    case False
    then have "slot_of dev s n \<noteq> Some b" using slot_of_some [of dev s n b] by (auto simp: caches_def)
    then show ?thesis using False by (cases "slot_of dev s n") (auto simp: pinned_def recounted_slot [OF t] held bufs)
  qed
  have "buf_ok dev (p_pid (procs s p)) (disk s) (id (sleeplocks s (Buf_lock b))) ((bufs s b)\<lparr>b_refcnt := f (b_refcnt (bufs s b))\<rparr>)"
    using bio_okD(4) [OF ok b(1)] h f(1) b(2) by (auto simp: buf_ok_def)
  then have "bio_ok dev p t" by (rule recounted_ok [OF t ok])
  moreover have "refs t = refs s" using f(1) h(5) by (auto simp: refs_def bufs)
  ultimately show ?thesis
    using t held pin recounted_view [OF t] by (auto simp: repin_ok_def recounted_def)
qed

lemma bunpin_spec:
  assumes ok: "bio_ok dev p s" and b: "b < NBUF" "held s b" and "0 < pinned dev s (b_blockno (bufs s b))"
  shows "wpK (bunpin b) (\<lambda>_ t. repin_ok dev p (\<lambda>k. k - 1) s b t) e s"
proof -
  obtain t where t: "bunpin b e s = Ok () t" "recounted (\<lambda>c. c - 1) b id s t"
    unfolding bunpin_eq using recount_run [OF ok, of b "\<lambda>c. c - 1" e] by blast
  note h = view_held [OF ok b]
  have rc: "unat (b_refcnt (bufs s b) - 1) = unat (b_refcnt (bufs s b)) - 1" using h(5) by (rule unat_minus_one)
  have "1 < unat (b_refcnt (bufs s b))" using assms(4) b(2) h(1) by (simp add: pinned_def)
  then have "b_refcnt (bufs s b) - 1 \<noteq> 0" using rc by auto
  then have "repin_ok dev p (\<lambda>k. k - 1) s b t" by (rule recounted_held [OF ok b t(2)]) (simp add: rc)
  then show ?thesis using t(1) by (simp add: wpK_def)
qed

lemma repin_up:
  assumes ok: "bio_ok dev p s" and b: "b < NBUF" "held s b" and "b_refcnt (bufs s b) \<noteq> - 1"
    and t: "recounted (\<lambda>c. c + 1) b id s t"
  shows "repin_ok dev p Suc s b t"
proof -
  note h = view_held [OF ok b]
  have nz: "b_refcnt (bufs s b) + 1 \<noteq> 0" using assms(4) unfolding eq_neg_iff_add_eq_0 [symmetric] .
  have "unat (b_refcnt (bufs s b) + 1) - 1 = unat (b_refcnt (bufs s b))"
    using unat_minus_one [OF nz] by simp
  moreover have "0 < unat (b_refcnt (bufs s b))" using h(5) by (simp add: unat_gt_0)
  ultimately show ?thesis using nz by (intro recounted_held [OF ok b t]) simp_all
qed

lemma bpin_spec:
  assumes ok: "bio_ok dev p s" and b: "b < NBUF" "held s b" and "b_refcnt (bufs s b) \<noteq> - 1"
  shows "wpK (bpin b) (\<lambda>_ t. repin_ok dev p Suc s b t) e s"
proof -
  obtain t where t: "bpin b e s = Ok () t" "recounted (\<lambda>c. c + 1) b id s t"
    unfolding bpin_eq using recount_run [OF ok, of b "\<lambda>c. c + 1" e] by blast
  then show ?thesis using repin_up [OF assms t(2)] by (simp add: wpK_def)
qed

end
