(* ===== verification/Log_Ops.thy ===== *)
theory Log_Ops
  imports Log Bio_Ops
begin

text \<open>
  What the redo log of \<^verbatim>\<open>kernel/log.c\<close> does to the disk: the writes of a commit in their order, the
  effect of recovery, and that a crash at any moment leaves either none or all of the writes of
  a transaction.
\<close>

lemma log_st_upd_order [simp]:
  fixes s :: "'z log_st_scheme"
  shows "mach_update f (log_update g s) = log_update g (mach_update f s)"
    and "procs_update h (log_update g s) = log_update g (procs_update h s)"
  by simp_all

section \<open>The header block\<close>

lemma fold_put_length:
  "4 + 4 * k \<le> length bs \<Longrightarrow> length (fold (\<lambda>i bs. put32 bs (4 + 4 * i) (block i)) [0..<k] bs) = length bs"
  by (induction k) simp_all

lemma lh_put_length: "4 + 4 * nat (sint n) \<le> length bs \<Longrightarrow> length (lh_put bs n block) = length bs"
  by (simp add: lh_put_def fold_put_length)

lemma lh_get_put:
  assumes "4 + 4 * nat (sint n) \<le> length bs"
  shows "fst (lh_get (lh_put bs n block)) = n" "i < nat (sint n) \<Longrightarrow> snd (lh_get (lh_put bs n block)) i = block i"
proof -
  let ?f = "\<lambda>k bs. fold (\<lambda>i bs. put32 bs (4 + 4 * i) (block i)) [0..<k] bs"
  have low: "4 + 4 * k \<le> length bs \<Longrightarrow> get32 (?f k bs) 0 = get32 bs 0" for k bs
    by (induction k) (simp_all add: get32_put32_other fold_put_length)
  have mid: "i < k \<Longrightarrow> 4 + 4 * k \<le> length bs \<Longrightarrow> get32 (?f k bs) (4 + 4 * i) = block i" for k i bs
  proof (induction k)
    case (Suc k)
    then show ?case by (cases "i = k") (simp_all add: get32_put32_other fold_put_length)
  qed simp
  show "fst (lh_get (lh_put bs n block)) = n" using assms by (simp add: lh_get_def lh_put_def low)
  show "i < nat (sint n) \<Longrightarrow> snd (lh_get (lh_put bs n block)) i = block i"
    using assms by (simp add: lh_get_def lh_put_def mid)
qed

section \<open>Copying one block\<close>

lemma frame_log: "frame s t \<Longrightarrow> log t = log s"
  unfolding frame_def by (drule arg_cong [where f = log]) simp

text \<open>Between operations the process holds no buffer.\<close>

definition quiet :: "u32 \<Rightarrow> nat \<Rightarrow> 'z bio_st_scheme \<Rightarrow> bool" where
  "quiet dev p s \<longleftrightarrow> bio_ok dev p s \<and> (\<forall>i. \<not> held s i)"

lemma wp_bread:
  assumes "bio_ok dev p s" and "available dev s n" and "\<And>b t. read_ok dev p n s b t \<Longrightarrow> Q b t"
  shows "wpK (bread dev n) Q e s"
  using bread_spec [OF assms(1,2)] by (rule wpK_mono) (rule assms(3))

lemma wp_brelse:
  assumes "bio_ok dev p s" and "b < NBUF" and "held s b"
    and "pinned dev s (b_blockno (bufs s b)) = 0 \<Longrightarrow> b_data (bufs s b) = disk s (b_blockno (bufs s b))"
    and "\<And>x t. release_ok dev p s b t \<Longrightarrow> Q x t"
  shows "wpK (brelse b) Q e s"
  by (rule wpK_mono [OF brelse_spec [OF assms(1-3)]]) (erule assms(4), rule assms(5))

lemma pinned_available:
  assumes "bio_ok dev p s" and "0 < pinned dev s n" and "pinned dev s n < 2 ^ 32 - 1"
    and "\<And>i. held s i \<Longrightarrow> b_blockno (bufs s i) \<noteq> n"
  shows "available dev s n"
proof -
  obtain i where i: "slot_of dev s n = Some i" using assms(2) by (auto simp: pinned_def split: option.splits)
  have "b_blockno (bufs s i) = n" using slot_of_some [OF i] by (simp add: caches_def)
  then have "\<not> held s i" using assms(4) by blast
  moreover from this have "unat (b_refcnt (bufs s i)) < 2 ^ 32 - 1" using assms(3) i by (simp add: pinned_def)
  then have "b_refcnt (bufs s i) \<noteq> - 1" by (auto simp: unsigned_minus_1_eq_mask mask_eq_exp_minus_1)
  ultimately show ?thesis using i by (simp add: available_def)
qed

lemma unpinned_available:
  assumes "bio_ok dev p s" and "pinned dev s n = 0" and "\<not> {..<NBUF} \<subseteq> refs s"
    and "\<And>i. held s i \<Longrightarrow> b_blockno (bufs s i) \<noteq> n"
  shows "available dev s n"
proof (cases "slot_of dev s n")
  case None
  then show ?thesis using assms(3) by (auto simp: available_def refs_def)
next
  case (Some i)
  have "b_blockno (bufs s i) = n" using slot_of_some [OF Some] by (simp add: caches_def)
  then have "\<not> held s i" using assms(4) by blast
  then have "b_refcnt (bufs s i) = 0" using assms(2) Some by (simp add: pinned_def unat_eq_zero)
  then show ?thesis using Some \<open>\<not> held s i\<close> by (simp add: available_def)
qed

lemma unpinned_clean:
  assumes "bio_ok dev p s" and "pinned dev s n = 0" and "\<And>i. held s i \<Longrightarrow> b_blockno (bufs s i) \<noteq> n"
  shows "view dev s n = disk s n"
proof (cases "slot_of dev s n")
  case (Some i)
  have i: "b_blockno (bufs s i) = n" "i < NBUF" using slot_of_some [OF Some] by (auto simp: caches_def)
  then have "\<not> held s i" using assms(3) by blast
  then have "b_refcnt (bufs s i) = 0" using assms(2) Some by (simp add: pinned_def unat_eq_zero)
  then show ?thesis using bio_okD(4) [OF assms(1) i(2)] Some i(1) by (auto simp: view_def buf_ok_def)
qed (simp add: view_def)

text \<open>The writes \<open>ws\<close> of whole blocks, the first one first, on a disk.\<close>

definition write_all :: "(u32 \<times> byte list) list \<Rightarrow> (u32 \<Rightarrow> byte list) \<Rightarrow> u32 \<Rightarrow> byte list" where
  "write_all ws = fold (\<lambda>(n, d) f. f(n := d)) ws"

lemma write_all_simps [simp]:
  "write_all [] f = f" "write_all ((n, d) # ws) f = write_all ws (f(n := d))" "write_all (ws @ vs) f = write_all vs (write_all ws f)"
  by (simp_all add: write_all_def)

lemma write_all_other: "n \<notin> fst ` set ws \<Longrightarrow> write_all ws f n = f n"
  by (induction ws arbitrary: f) auto

lemma write_all_map:
  "write_all (map (\<lambda>i. (b i, d i)) [0..<k]) f n = (if \<exists>i<k. b i = n then d (GREATEST i. i < k \<and> b i = n) else f n)"
proof (induction k)
  case (Suc k)
  show ?case
  proof (cases "b k = n")
    case True
    then have "(GREATEST i. i < Suc k \<and> b i = n) = k" by (intro Greatest_equality) auto
    then show ?thesis using True by auto
  next
    case False
    then have "(\<lambda>i. i < Suc k \<and> b i = n) = (\<lambda>i. i < k \<and> b i = n)" by (auto simp: fun_eq_iff less_Suc_eq)
    then show ?thesis using False Suc by (auto simp: less_Suc_eq)
  qed
qed simp

lemma write_all_inj:
  assumes "inj_on b {..<k}" and "i < k"
  shows "write_all (map (\<lambda>i. (b i, d i)) [0..<k]) f (b i) = d i"
proof -
  have "(GREATEST j. j < k \<and> b j = b i) = i" using assms by (intro Greatest_equality) (auto dest: inj_onD)
  then show ?thesis using assms(2) by (auto simp: write_all_map)
qed

text \<open>The blocks \<open>ws\<close> have been written, to the cache and to the disk; no buffer stays locked or becomes referenced.\<close>

definition stored :: "u32 \<Rightarrow> nat \<Rightarrow> (u32 \<times> byte list) list \<Rightarrow> 'z bio_st_scheme \<Rightarrow> 'z bio_st_scheme \<Rightarrow> bool" where
  "stored dev p ws s t \<longleftrightarrow> quiet dev p t \<and> frame s t \<and> view dev t = write_all ws (view dev s) \<and> disk t = write_all ws (disk s) \<and>
     disk_writes t = rev ws @ disk_writes s \<and> refs t \<subseteq> refs s"

lemma storedD:
  assumes "stored dev p ws s t"
  shows "quiet dev p t" and "frame s t" and "view dev t = write_all ws (view dev s)" and "disk t = write_all ws (disk s)"
    and "disk_writes t = rev ws @ disk_writes s" and "refs t \<subseteq> refs s"
  using assms by (simp_all add: stored_def)

lemma stored_refl: "quiet dev p s \<Longrightarrow> stored dev p [] s s"
  by (simp add: stored_def)

lemma stored_trans:
  assumes "stored dev p ws s t" and "stored dev p vs t u"
  shows "stored dev p (ws @ vs) s u"
  using storedD [OF assms(1)] storedD [OF assms(2)] frame_trans [of s t u] by (auto simp: stored_def)

definition logblk :: "logstate \<Rightarrow> nat \<Rightarrow> u32" where
  "logblk lg i = lg_start lg + of_nat i + 1"

lemma wp_set_data:
  assumes "bio_ok dev p s" and "b < NBUF" and "held s b"
    and "\<And>t. bio_ok dev p t \<Longrightarrow> view dev t = (view dev s)(b_blockno (bufs s b) := d) \<Longrightarrow> pinned dev t = pinned dev s \<Longrightarrow>
      held t = held s \<Longrightarrow> refs t = refs s \<Longrightarrow> frame s t \<Longrightarrow> bufs t = (bufs s)(b := (bufs s b)\<lparr>b_data := d\<rparr>) \<Longrightarrow>
      disk t = disk s \<Longrightarrow> disk_writes t = disk_writes s \<Longrightarrow> Q () t"
  shows "wpK (upd_buf b (\<lambda>r. r\<lparr>b_data := d\<rparr>)) Q e s"
  unfolding upd_buf_def wp_modify by (rule assms(4)) (simp_all add: set_data [OF assms(1-3)])

lemma wp_bwrite:
  assumes "bio_ok dev p s" and "b < NBUF" and "held s b"
    and "\<And>t. bio_ok dev p t \<Longrightarrow> view dev t = view dev s \<Longrightarrow> pinned dev t = pinned dev s \<Longrightarrow> held t = held s \<Longrightarrow> refs t = refs s \<Longrightarrow>
      frame s t \<Longrightarrow> bufs t = bufs s \<Longrightarrow> disk t = (disk s)(b_blockno (bufs s b) := b_data (bufs s b)) \<Longrightarrow>
      disk_writes t = (b_blockno (bufs s b), b_data (bufs s b)) # disk_writes s \<Longrightarrow> Q () t"
  shows "wpK (bwrite b) Q e s"
  unfolding wpK_def bwrite_run [OF assms(1-3)] outcome.case
  by (rule assms(4)) (simp_all add: written [OF assms(1-3)])

text \<open>
  What \<^verbatim>\<open>write_log\<close> and \<^verbatim>\<open>install_trans\<close> do with the two buffers they have locked: \<open>w\<close> gets the
  data of the other one and is written to the disk, then both are released.
\<close>

definition unpin :: "bool \<Rightarrow> u32 \<Rightarrow> (u32 \<Rightarrow> nat) \<Rightarrow> u32 \<Rightarrow> nat" where
  "unpin c n f = (if c then f(n := f n - 1) else f)"

lemma wp_unpin:
  assumes "bio_ok dev p s" and "b < NBUF" and "held s b" and "c \<Longrightarrow> 0 < pinned dev s (b_blockno (bufs s b))"
    and "\<And>t. bio_ok dev p t \<Longrightarrow> frame s t \<Longrightarrow> held t = held s \<Longrightarrow> (\<forall>i. i \<noteq> b \<longrightarrow> bufs t i = bufs s i) \<Longrightarrow>
       b_blockno (bufs t b) = b_blockno (bufs s b) \<Longrightarrow> b_data (bufs t b) = b_data (bufs s b) \<Longrightarrow> view dev t = view dev s \<Longrightarrow>
       pinned dev t = unpin c (b_blockno (bufs s b)) (pinned dev s) \<Longrightarrow> disk t = disk s \<Longrightarrow> disk_writes t = disk_writes s \<Longrightarrow>
       refs t = refs s \<Longrightarrow> Q () t"
  shows "wpK (whenK c (bunpin b)) Q e s"
proof (cases c)
  case True
  then have "wpK (bunpin b) Q e s"
    by (intro wpK_mono [OF bunpin_spec [OF assms(1-3)]]) (use assms(4,5) in \<open>auto simp: repin_ok_def unpin_def\<close>)
  then show ?thesis using True by (simp add: wp)
next
  case False
  then show ?thesis using assms(5) [OF assms(1)] by (simp add: wp unpin_def)
qed

lemma release_okD:
  assumes "release_ok dev p s b t"
  shows "bio_ok dev p t" and "frame s t" and "\<And>i. held t i \<longleftrightarrow> held s i \<and> i \<noteq> b" and "\<And>i. i \<noteq> b \<Longrightarrow> bufs t i = bufs s i"
    and "view dev t = view dev s" and "pinned dev t = pinned dev s" and "disk t = disk s" and "disk_writes t = disk_writes s"
    and "refs t = (if pinned dev s (b_blockno (bufs s b)) = 0 then refs s - {b} else refs s)"
  using assms by (simp_all add: release_ok_def)

lemma finish_copy:
  assumes ok: "bio_ok dev p s" and buf: "w \<noteq> x" "w < NBUF" "x < NBUF" "\<And>i. held s i \<longleftrightarrow> i = w \<or> i = x"
    and x: "b_data (bufs s x) = disk s (b_blockno (bufs s x)) \<or> 0 < pinned dev s (b_blockno (bufs s x))"
    and c: "c \<Longrightarrow> 0 < pinned dev s (b_blockno (bufs s w))" and n: "b_blockno (bufs s w) = n" "b_blockno (bufs s x) \<noteq> n"
  shows "wpK (seqK [upd_buf w (\<lambda>r. r\<lparr>b_data := d\<rparr>), bwrite w, whenK c (bunpin w), brelse x, brelse w])
     (\<lambda>_ t. quiet dev p t \<and> frame s t \<and> view dev t = (view dev s)(n := d) \<and> disk t = (disk s)(n := d) \<and>
       disk_writes t = (n, d) # disk_writes s \<and> pinned dev t = unpin c n (pinned dev s) \<and> refs t \<subseteq> refs s \<and>
       (pinned dev s (b_blockno (bufs s x)) = 0 \<longrightarrow> x \<notin> refs t) \<and> (pinned dev t n = 0 \<longrightarrow> w \<notin> refs t)) e s"
    (is "wpK _ (\<lambda>_ t. ?Q t) e s")
  unfolding wp_seq_Cons wp_seq_Nil
proof (rule wp_set_data [OF ok buf(2)])
  show "held s w" using buf by simp
  fix t3 assume t3: "bio_ok dev p t3" "view dev t3 = (view dev s)(b_blockno (bufs s w) := d)" "pinned dev t3 = pinned dev s"
    "held t3 = held s" "refs t3 = refs s" "frame s t3" "bufs t3 = (bufs s)(w := (bufs s w)\<lparr>b_data := d\<rparr>)"
    "disk t3 = disk s" "disk_writes t3 = disk_writes s"
  show "wpK (bwrite w) (\<lambda>_ t. wpK (whenK c (bunpin w)) (\<lambda>_ t. wpK (brelse x) (\<lambda>_ t. wpK (brelse w) (\<lambda>_ t. ?Q t) e t) e t) e t) e t3"
  proof (rule wp_bwrite [OF t3(1) buf(2)])
    show "held t3 w" using t3 buf by simp
    fix t4 assume t4: "bio_ok dev p t4" "view dev t4 = view dev t3" "pinned dev t4 = pinned dev t3" "held t4 = held t3"
      "refs t4 = refs t3" "frame t3 t4" "bufs t4 = bufs t3" "disk t4 = (disk t3)(b_blockno (bufs t3 w) := b_data (bufs t3 w))"
      "disk_writes t4 = (b_blockno (bufs t3 w), b_data (bufs t3 w)) # disk_writes t3"
    note t4 = t4 [simplified t3 n]
    show "wpK (whenK c (bunpin w)) (\<lambda>_ t. wpK (brelse x) (\<lambda>_ t. wpK (brelse w) (\<lambda>_ t. ?Q t) e t) e t) e t4"
    proof (rule wp_unpin [OF t4(1) buf(2)])
      show "held t4 w" using t4 buf by simp
      show "0 < pinned dev t4 (b_blockno (bufs t4 w))" if c using c [OF that] t4 n by simp
      fix t5 assume t5: "bio_ok dev p t5" "frame t4 t5" "held t5 = held t4" "\<forall>i. i \<noteq> w \<longrightarrow> bufs t5 i = bufs t4 i"
        "b_blockno (bufs t5 w) = b_blockno (bufs t4 w)" "b_data (bufs t5 w) = b_data (bufs t4 w)" "view dev t5 = view dev t4"
        "pinned dev t5 = unpin c (b_blockno (bufs t4 w)) (pinned dev t4)" "disk t5 = disk t4" "disk_writes t5 = disk_writes t4" "refs t5 = refs t4"
      have eq5: "bufs t5 x = bufs s x" "b_blockno (bufs t5 w) = n" "b_data (bufs t5 w) = d" "pinned dev t5 = unpin c n (pinned dev s)"
        "disk t5 = (disk s)(n := d)" "disk_writes t5 = (n, d) # disk_writes s" "refs t5 = refs s" "view dev t5 = (view dev s)(n := d)"
        "\<And>i. held t5 i \<longleftrightarrow> i = w \<or> i = x" using t4 t5 buf(1,4) t3(2,4,5) n by simp_all
      have f5: "frame s t5" using frame_trans [OF frame_trans [OF t3(6)]] t4 t5 by blast
      have px: "pinned dev t5 (b_blockno (bufs t5 x)) = pinned dev s (b_blockno (bufs s x))" using n by (simp add: eq5 unpin_def)
      show "wpK (brelse x) (\<lambda>_ t. wpK (brelse w) (\<lambda>_ t. ?Q t) e t) e t5"
      proof (rule wp_brelse [OF t5(1) buf(3)])
        show "held t5 x" by (simp add: eq5)
        show "b_data (bufs t5 x) = disk t5 (b_blockno (bufs t5 x))" if "pinned dev t5 (b_blockno (bufs t5 x)) = 0"
          using that x n by (simp add: px) (simp add: eq5)
        fix u t6 assume "release_ok dev p t5 x t6"
        note t6 = release_okD [OF this, unfolded px]
        show "wpK (brelse w) (\<lambda>_ t. ?Q t) e t6"
        proof (rule wp_brelse [OF _ buf(2)])
          show "bio_ok dev p t6" "held t6 w" using t6(1) buf(1) by (simp_all add: t6(3) eq5)
          have w6: "bufs t6 w = bufs t5 w" using t6(4) buf(1) by simp
          show "b_data (bufs t6 w) = disk t6 (b_blockno (bufs t6 w))" by (simp add: w6 t6(7) eq5)
          fix u t7 assume "release_ok dev p t6 w t7"
          note t7 = release_okD [OF this]
          have "frame s t7" by (rule frame_trans [OF f5 frame_trans [OF t6(2) t7(2)]])
          moreover have "quiet dev p t7" using t7(1) by (auto simp: quiet_def t7(3) t6(3) eq5)
          ultimately show "?Q t7" by (auto simp: t7(5-9) t6(5-9) w6 eq5)
        qed
      qed
    qed
  qed
qed


section \<open>Reading two blocks\<close>

definition spare :: "'z bio_st_scheme \<Rightarrow> nat" where
  "spare s = card ({..<NBUF} - refs s)"

lemma spare_mono: "refs t \<subseteq> refs s \<Longrightarrow> spare s \<le> spare t"
  unfolding spare_def by (rule card_mono) auto

lemma spare_pos: "0 < spare s \<longleftrightarrow> \<not> {..<NBUF} \<subseteq> refs s"
  by (auto simp: spare_def card_gt_0_iff)

lemma spare_insert: "1 < spare s \<Longrightarrow> refs t = insert a (refs s) \<Longrightarrow> 0 < spare t"
proof -
  assume s: "1 < spare s" "refs t = insert a (refs s)"
  let ?F = "{..<NBUF} - refs s"
  have "card ?F - card {a} \<le> card (?F - {a})" by (rule diff_card_le_card_Diff) simp
  moreover have "{..<NBUF} - refs t = ?F - {a}" using s(2) by blast
  ultimately show ?thesis using s(1) unfolding spare_def by simp
qed

definition ready :: "u32 \<Rightarrow> nat \<Rightarrow> u32 \<Rightarrow> 'z bio_st_scheme \<Rightarrow> bool" where
  "ready dev k n s \<longleftrightarrow> (if pinned dev s n = 0 then k < spare s else pinned dev s n < 2 ^ 32 - 1)"

lemma ready_available:
  assumes "bio_ok dev p s" and "ready dev 0 n s" and "\<And>i. held s i \<Longrightarrow> b_blockno (bufs s i) \<noteq> n"
  shows "available dev s n"
  using pinned_available [OF assms(1) _ _ assms(3)] unpinned_available [OF assms(1) _ _ assms(3)] assms(2)
  by (auto simp: ready_def spare_pos split: if_splits)

lemma wp_two_reads:
  assumes q: "quiet dev p s" and mn: "m \<noteq> n" and m: "pinned dev s m = 0" "0 < spare s" and n: "ready dev 1 n s"
    and post: "\<And>a b t. bio_ok dev p t \<Longrightarrow> frame s t \<Longrightarrow> a < NBUF \<Longrightarrow> b < NBUF \<Longrightarrow> a \<noteq> b \<Longrightarrow> (\<And>i. held t i \<longleftrightarrow> i = a \<or> i = b) \<Longrightarrow>
       b_blockno (bufs t a) = m \<Longrightarrow> b_blockno (bufs t b) = n \<Longrightarrow> b_data (bufs t a) = disk s m \<Longrightarrow> b_data (bufs t b) = view dev s n \<Longrightarrow>
       view dev t = view dev s \<Longrightarrow> pinned dev t = pinned dev s \<Longrightarrow> disk t = disk s \<Longrightarrow> disk_writes t = disk_writes s \<Longrightarrow>
       refs t = insert a (insert b (refs s)) \<Longrightarrow> a \<notin> refs s \<Longrightarrow> (b \<in> refs s \<longleftrightarrow> pinned dev s n \<noteq> 0) \<Longrightarrow> Q a b t"
  shows "wpK (bread dev m) (\<lambda>a t. wpK (bread dev n) (Q a) e t) e s"
proof -
  have ok: "bio_ok dev p s" and none: "\<And>i. \<not> held s i" using q by (simp_all add: quiet_def)
  have clean: "view dev s m = disk s m" using unpinned_clean [OF ok m(1)] none by blast
  show ?thesis
  proof (rule wp_bread [OF ok])
    show "available dev s m" using m none by (intro ready_available [OF ok]) (auto simp: ready_def)
    fix a t1 assume "read_ok dev p m s a t1"
    note r1 = this [unfolded read_ok_def clean]
    have ok1: "bio_ok dev p t1" using r1 by simp
    show "wpK (bread dev n) (Q a) e t1"
    proof (rule wp_bread [OF ok1])
      have "ready dev 0 n t1" using n r1 spare_insert [of s t1 a] by (auto simp: ready_def)
      then show "available dev t1 n" using r1 none mn by (intro ready_available [OF ok1]) auto
      fix b t assume "read_ok dev p n t1 b t"
      note r2 = this [unfolded read_ok_def]
      have ab: "a \<noteq> b" using r1 r2 by metis
      show "Q a b t"
      proof (rule post)
        show "frame s t" using r1 r2 frame_trans by blast
        show "held t i \<longleftrightarrow> i = a \<or> i = b" for i using r1 r2 none by simp
        show "a \<notin> refs s" using r1 m(1) by simp
        show "b \<in> refs s \<longleftrightarrow> pinned dev s n \<noteq> 0" using r1 r2 ab by simp
      qed (use r1 r2 ab in auto)
    qed
  qed
qed

section \<open>Copying one block\<close>

lemma write_block_spec:
  fixes s :: "'z log_st_scheme"
  assumes lg: "log s = lg" "lg_dev lg = dev" and q: "quiet dev p s" and ne: "logblk lg i \<noteq> lh_block lg i"
    and m: "pinned dev s (logblk lg i) = 0" "0 < spare s" and n: "0 < pinned dev s (lh_block lg i)" "pinned dev s (lh_block lg i) < 2 ^ 32 - 1"
  shows "wpK (write_block i) (\<lambda>_ t. stored dev p [(logblk lg i, view dev s (lh_block lg i))] s t \<and> pinned dev t = pinned dev s) e s"
    (is "wpK _ (\<lambda>_ t. ?Q t) e s")
proof -
  have "wpK (bread dev (logblk lg i)) (\<lambda>a t. wpK (bread dev (lh_block lg i))
    (\<lambda>b t. wpK (seqK [upd_buf a (\<lambda>r. r\<lparr>b_data := b_data (bufs t b)\<rparr>), bwrite a, whenK False (bunpin a), brelse b, brelse a]) (\<lambda>_. ?Q) e t) e t) e s"
  proof (rule wp_two_reads [OF q ne m])
    show "ready dev 1 (lh_block lg i) s" using n by (simp add: ready_def)
    fix a b t assume t: "bio_ok dev p t" "frame s t" "a < NBUF" "b < NBUF" "a \<noteq> b" "\<And>j. held t j \<longleftrightarrow> j = a \<or> j = b"
      "b_blockno (bufs t a) = logblk lg i" "b_blockno (bufs t b) = lh_block lg i" "b_data (bufs t a) = disk s (logblk lg i)"
      "b_data (bufs t b) = view dev s (lh_block lg i)" "view dev t = view dev s" "pinned dev t = pinned dev s" "disk t = disk s"
      "disk_writes t = disk_writes s" "refs t = insert a (insert b (refs s))" "a \<notin> refs s" "(b \<in> refs s) = (pinned dev s (lh_block lg i) \<noteq> 0)"
    show "wpK (seqK [upd_buf a (\<lambda>r. r\<lparr>b_data := b_data (bufs t b)\<rparr>), bwrite a, whenK False (bunpin a), brelse b, brelse a]) (\<lambda>_. ?Q) e t"
    proof (rule wpK_mono [OF finish_copy [OF t(1,5,3,4,6)]])
      show "b_data (bufs t b) = disk t (b_blockno (bufs t b)) \<or> 0 < pinned dev t (b_blockno (bufs t b))" using t(8,12) n by simp
      show "b_blockno (bufs t b) \<noteq> logblk lg i" using t(8) ne by simp
      fix u v assume v: "quiet dev p v \<and> frame t v \<and> view dev v = (view dev t)(logblk lg i := b_data (bufs t b)) \<and>
        disk v = (disk t)(logblk lg i := b_data (bufs t b)) \<and> disk_writes v = (logblk lg i, b_data (bufs t b)) # disk_writes t \<and>
        pinned dev v = unpin False (logblk lg i) (pinned dev t) \<and> refs v \<subseteq> refs t \<and>
        (pinned dev t (b_blockno (bufs t b)) = 0 \<longrightarrow> b \<notin> refs v) \<and> (pinned dev v (logblk lg i) = 0 \<longrightarrow> a \<notin> refs v)"
      have "refs v \<subseteq> refs s" using v t(12,15,17) m(1) n(1) by (auto simp: unpin_def)
      then show "?Q v" using v t(10-14) frame_trans [OF t(2)] by (simp add: stored_def unpin_def)
    qed (use t(7) in simp_all)
  qed
  then show ?thesis by (simp add: write_block_def log_get_def buf_get_def wp lg logblk_def)
qed

lemma install_block_spec:
  fixes s :: "'z log_st_scheme"
  assumes lg: "log s = lg" "lg_dev lg = dev" and q: "quiet dev p s" and ne: "logblk lg i \<noteq> lh_block lg i"
    and m: "pinned dev s (logblk lg i) = 0" "0 < spare s" and n: "ready dev 1 (lh_block lg i) s"
    and r: "if r then pinned dev s (lh_block lg i) = 0 else 0 < pinned dev s (lh_block lg i)"
  shows "wpK (install_block r i) (\<lambda>_ t. stored dev p [(lh_block lg i, disk s (logblk lg i))] s t \<and>
     pinned dev t = unpin (\<not> r) (lh_block lg i) (pinned dev s)) e s" (is "wpK _ (\<lambda>_ t. ?Q t) e s")
proof -
  have "wpK (bread dev (logblk lg i)) (\<lambda>b t. wpK (bread dev (lh_block lg i))
    (\<lambda>a t. wpK (seqK [upd_buf a (\<lambda>r. r\<lparr>b_data := b_data (bufs t b)\<rparr>), bwrite a, whenK (\<not> r) (bunpin a), brelse b, brelse a]) (\<lambda>_. ?Q) e t) e t) e s"
  proof (rule wp_two_reads [OF q ne m n])
    fix b a t assume t: "bio_ok dev p t" "frame s t" "b < NBUF" "a < NBUF" "b \<noteq> a" "\<And>j. held t j \<longleftrightarrow> j = b \<or> j = a"
      "b_blockno (bufs t b) = logblk lg i" "b_blockno (bufs t a) = lh_block lg i" "b_data (bufs t b) = disk s (logblk lg i)"
      "b_data (bufs t a) = view dev s (lh_block lg i)" "view dev t = view dev s" "pinned dev t = pinned dev s" "disk t = disk s"
      "disk_writes t = disk_writes s" "refs t = insert b (insert a (refs s))" "b \<notin> refs s" "(a \<in> refs s) = (pinned dev s (lh_block lg i) \<noteq> 0)"
    show "wpK (seqK [upd_buf a (\<lambda>r. r\<lparr>b_data := b_data (bufs t b)\<rparr>), bwrite a, whenK (\<not> r) (bunpin a), brelse b, brelse a]) (\<lambda>_. ?Q) e t"
    proof (rule wpK_mono [OF finish_copy [OF t(1) t(5) [symmetric] t(4,3)]])
      show "b_data (bufs t b) = disk t (b_blockno (bufs t b)) \<or> 0 < pinned dev t (b_blockno (bufs t b))" using t(7,9,13) by simp
      show "b_blockno (bufs t b) \<noteq> lh_block lg i" using t(7) ne by simp
      show "0 < pinned dev t (b_blockno (bufs t a))" if "\<not> r" using that r t(8,12) by simp
      fix u v assume v: "quiet dev p v \<and> frame t v \<and> view dev v = (view dev t)(lh_block lg i := b_data (bufs t b)) \<and>
        disk v = (disk t)(lh_block lg i := b_data (bufs t b)) \<and> disk_writes v = (lh_block lg i, b_data (bufs t b)) # disk_writes t \<and>
        pinned dev v = unpin (\<not> r) (lh_block lg i) (pinned dev t) \<and> refs v \<subseteq> refs t \<and>
        (pinned dev t (b_blockno (bufs t b)) = 0 \<longrightarrow> b \<notin> refs v) \<and> (pinned dev v (lh_block lg i) = 0 \<longrightarrow> a \<notin> refs v)"
      have "b \<notin> refs v" using v t(7,12) m(1) by simp
      moreover have "a \<in> refs s" if "a \<in> refs v" using v t(12,17) that by (auto simp: unpin_def split: if_splits)
      ultimately have "refs v \<subseteq> refs s" using v t(15) by auto
      then show "?Q v" using v t(9-14) frame_trans [OF t(2)] by (simp add: stored_def)
    qed (use t(6,8) in auto)
  qed
  then show ?thesis by (simp add: install_block_def log_get_def buf_get_def wp lg logblk_def)
qed

section \<open>The header\<close>

lemma wp_one_read:
  assumes q: "quiet dev p s" and m: "pinned dev s m = 0" "0 < spare s"
    and post: "\<And>a t. bio_ok dev p t \<Longrightarrow> frame s t \<Longrightarrow> a < NBUF \<Longrightarrow> (\<And>i. held t i \<longleftrightarrow> i = a) \<Longrightarrow>
       b_blockno (bufs t a) = m \<Longrightarrow> b_data (bufs t a) = disk s m \<Longrightarrow> view dev t = view dev s \<Longrightarrow> pinned dev t = pinned dev s \<Longrightarrow>
       disk t = disk s \<Longrightarrow> disk_writes t = disk_writes s \<Longrightarrow> refs t = insert a (refs s) \<Longrightarrow> a \<notin> refs s \<Longrightarrow> Q a t"
  shows "wpK (bread dev m) Q e s"
proof -
  have ok: "bio_ok dev p s" and none: "\<And>i. \<not> held s i" using q by (simp_all add: quiet_def)
  have clean: "view dev s m = disk s m" using unpinned_clean [OF ok m(1)] none by blast
  show ?thesis
  proof (rule wp_bread [OF ok])
    show "available dev s m" using m none by (intro ready_available [OF ok]) (auto simp: ready_def)
    fix a t assume "read_ok dev p m s a t"
    note r1 = this [unfolded read_ok_def clean]
    show "Q a t" by (rule post) (use r1 none m(1) in auto)
  qed
qed

lemma write_head_spec:
  fixes s :: "'z log_st_scheme"
  assumes lg: "log s = lg" "lg_dev lg = dev" and q: "quiet dev p s" and m: "pinned dev s (lg_start lg) = 0" "0 < spare s"
  shows "wpK write_head (\<lambda>_ t. stored dev p [(lg_start lg, lh_put (disk s (lg_start lg)) (lh_n lg) (lh_block lg))] s t \<and>
     pinned dev t = pinned dev s) e s" (is "wpK _ (\<lambda>_ t. ?Q t) e s")
proof -
  let ?n = "lg_start lg"
  let ?d = "lh_put (disk s ?n) (lh_n lg) (lh_block lg)"
  have "wpK (bread dev ?n) (\<lambda>a t. wpK (upd_buf a (\<lambda>r. r\<lparr>b_data := lh_put (b_data (bufs t a)) (lh_n lg) (lh_block lg)\<rparr>))
      (\<lambda>_ t. wpK (bwrite a) (\<lambda>_ t. wpK (brelse a) (\<lambda>_. ?Q) e t) e t) e t) e s"
  proof (rule wp_one_read [OF q m])
    fix a t assume t: "bio_ok dev p t" "frame s t" "a < NBUF" "\<And>i. held t i \<longleftrightarrow> i = a" "b_blockno (bufs t a) = ?n"
      "b_data (bufs t a) = disk s ?n" "view dev t = view dev s" "pinned dev t = pinned dev s" "disk t = disk s" "disk_writes t = disk_writes s"
      "refs t = insert a (refs s)" "a \<notin> refs s"
    show "wpK (upd_buf a (\<lambda>r. r\<lparr>b_data := lh_put (b_data (bufs t a)) (lh_n lg) (lh_block lg)\<rparr>))
      (\<lambda>_ t. wpK (bwrite a) (\<lambda>_ t. wpK (brelse a) (\<lambda>_. ?Q) e t) e t) e t"
      unfolding t(6)
    proof (rule wp_set_data [OF t(1,3)])
      show "held t a" using t by simp
      fix t3 assume t3: "bio_ok dev p t3" "view dev t3 = (view dev t)(b_blockno (bufs t a) := ?d)" "pinned dev t3 = pinned dev t"
        "held t3 = held t" "refs t3 = refs t" "frame t t3" "bufs t3 = (bufs t)(a := (bufs t a)\<lparr>b_data := ?d\<rparr>)"
        "disk t3 = disk t" "disk_writes t3 = disk_writes t"
      show "wpK (bwrite a) (\<lambda>_ t. wpK (brelse a) (\<lambda>_. ?Q) e t) e t3"
      proof (rule wp_bwrite [OF t3(1) t(3)])
        show "held t3 a" using t3 t by simp
        fix t4 assume t4: "bio_ok dev p t4" "view dev t4 = view dev t3" "pinned dev t4 = pinned dev t3" "held t4 = held t3"
          "refs t4 = refs t3" "frame t3 t4" "bufs t4 = bufs t3" "disk t4 = (disk t3)(b_blockno (bufs t3 a) := b_data (bufs t3 a))"
          "disk_writes t4 = (b_blockno (bufs t3 a), b_data (bufs t3 a)) # disk_writes t3"
        note t4 = t4 [simplified t3 t]
        have f: "frame s t4" by (rule frame_trans [OF frame_trans [OF t(2) t3(6)] t4(6)])
        show "wpK (brelse a) (\<lambda>_. ?Q) e t4"
        proof (rule wp_brelse [OF t4(1) t(3)])
          show "held t4 a" "b_data (bufs t4 a) = disk t4 (b_blockno (bufs t4 a))" using t4 t by simp_all
          fix u t5 assume "release_ok dev p t4 a t5"
          note t5 = release_okD [OF this]
          have "quiet dev p t5" using t5(1) by (auto simp: quiet_def t5(3) t4(4) t(4))
          moreover have "refs t5 = refs s" using m(1) t(12) by (simp add: t5(9) t4 t)
          ultimately show "?Q t5" using frame_trans [OF f t5(2)] by (simp add: stored_def t5(5-8) t4 t(5))
        qed
      qed
    qed
  qed
  then show ?thesis by (simp add: write_head_def log_get_def upd_buf_def wp lg)
qed

lemma bio_ok_log [simp]:
  "bio_ok dev p (s\<lparr>log := l\<rparr>) = bio_ok dev p s" "held (s\<lparr>log := l\<rparr>) = held s" "view dev (s\<lparr>log := l\<rparr>) = view dev s"
  "pinned dev (s\<lparr>log := l\<rparr>) = pinned dev s" "refs (s\<lparr>log := l\<rparr>) = refs s" "spare (s\<lparr>log := l\<rparr>) = spare s"
  by (simp_all add: bio_ok_def calm_def order_def held_def view_def pinned_def refs_def spare_def slot_of_def fun_eq_iff
    split: option.split)

lemma quiet_log [simp]: "quiet dev p (s\<lparr>log := l\<rparr>) = quiet dev p s"
  by (simp add: quiet_def)

lemma frame_log_upd: "frame s t \<Longrightarrow> frame (s\<lparr>log := l\<rparr>) (t\<lparr>log := l\<rparr>)"
  unfolding frame_def by (drule arg_cong [where f = "\<lambda>t. t\<lparr>log := l\<rparr>"]) simp

definition loaded :: "logstate \<Rightarrow> byte list \<Rightarrow> logstate" where
  "loaded lg d = lg\<lparr>lh_n := fst (lh_get d), lh_block := (\<lambda>i. if i < nat (sint (fst (lh_get d))) then snd (lh_get d) i else lh_block lg i)\<rparr>"

lemma read_head_spec:
  fixes s :: "'z log_st_scheme"
  assumes lg: "log s = lg" "lg_dev lg = dev" and q: "quiet dev p s" and m: "pinned dev s (lg_start lg) = 0" "0 < spare s"
  shows "wpK read_head (\<lambda>_ t. stored dev p [] (s\<lparr>log := loaded lg (disk s (lg_start lg))\<rparr>) t \<and> pinned dev t = pinned dev s) e s"
    (is "wpK _ (\<lambda>_ t. ?Q t) e s")
proof -
  let ?n = "lg_start lg"
  let ?l = "loaded lg (disk s ?n)"
  have "wpK (bread dev ?n) (\<lambda>a t. wpK (brelse a) (\<lambda>_. ?Q) e (t\<lparr>log := loaded (log t) (b_data (bufs t a))\<rparr>)) e s"
  proof (rule wp_one_read [OF q m])
    fix a t assume t: "bio_ok dev p t" "frame s t" "a < NBUF" "\<And>i. held t i \<longleftrightarrow> i = a" "b_blockno (bufs t a) = ?n"
      "b_data (bufs t a) = disk s ?n" "view dev t = view dev s" "pinned dev t = pinned dev s" "disk t = disk s" "disk_writes t = disk_writes s"
      "refs t = insert a (refs s)" "a \<notin> refs s"
    have log: "loaded (log t) (b_data (bufs t a)) = ?l" by (simp add: frame_log [OF t(2)] lg t(6))
    show "wpK (brelse a) (\<lambda>_. ?Q) e (t\<lparr>log := loaded (log t) (b_data (bufs t a))\<rparr>)"
      unfolding log
    proof (rule wp_brelse [OF _ t(3)])
      show "bio_ok dev p (t\<lparr>log := ?l\<rparr>)" "held (t\<lparr>log := ?l\<rparr>) a" using t by simp_all
      show "b_data (bufs (t\<lparr>log := ?l\<rparr>) a) = disk (t\<lparr>log := ?l\<rparr>) (b_blockno (bufs (t\<lparr>log := ?l\<rparr>) a))" using t by simp
      fix u v assume "release_ok dev p (t\<lparr>log := ?l\<rparr>) a v"
      note v = release_okD [OF this]
      have "quiet dev p v" using v(1) by (auto simp: quiet_def v(3) t(4))
      moreover have "refs v = refs s" using m(1) t(12) by (simp add: v(9) t)
      ultimately show "?Q v" using frame_trans [OF frame_log_upd [OF t(2)] v(2)] by (simp add: stored_def v(5-8) t)
    qed
  qed
  then show ?thesis
    by (simp add: read_head_def log_get_def buf_get_def upd_log_def wp lg loaded_def split_beta Let_def)
qed

section \<open>Commit\<close>

abbreviation entries :: "logstate \<Rightarrow> nat" where
  "entries lg \<equiv> nat (sint (lh_n lg))"

text \<open>The blocks of the transaction are distinct and lie outside the log.\<close>

definition log_sep :: "logstate \<Rightarrow> bool" where
  "log_sep lg \<longleftrightarrow> entries lg \<le> LOGSIZE \<and> inj_on (lh_block lg) {..<entries lg} \<and>
     (\<forall>i < entries lg. lh_block lg i \<noteq> lg_start lg \<and> (\<forall>j < entries lg. lh_block lg i \<noteq> logblk lg j))"

definition to_log :: "logstate \<Rightarrow> (u32 \<Rightarrow> byte list) \<Rightarrow> nat \<Rightarrow> (u32 \<times> byte list) list" where
  "to_log lg f k = map (\<lambda>i. (logblk lg i, f (lh_block lg i))) [0..<k]"

definition to_home :: "logstate \<Rightarrow> (u32 \<Rightarrow> byte list) \<Rightarrow> nat \<Rightarrow> (u32 \<times> byte list) list" where
  "to_home lg f k = map (\<lambda>i. (lh_block lg i, f (logblk lg i))) [0..<k]"

lemma to_log_Suc [simp]:
  "to_log lg f 0 = []" "to_log lg f (Suc k) = to_log lg f k @ [(logblk lg k, f (lh_block lg k))]" "length (to_log lg f k) = k"
  by (simp_all add: to_log_def)

lemma to_home_Suc [simp]:
  "to_home lg f 0 = []" "to_home lg f (Suc k) = to_home lg f k @ [(lh_block lg k, f (logblk lg k))]" "length (to_home lg f k) = k"
  by (simp_all add: to_home_def)

lemma fst_to_log: "fst ` set (to_log lg f k) = logblk lg ` {..<k}" "fst ` set (to_home lg f k) = lh_block lg ` {..<k}"
  by (simp_all add: to_log_def to_home_def image_image lessThan_atLeast0)

lemma log_sepD:
  assumes "log_sep lg" and "i < entries lg"
  shows "lh_block lg i \<noteq> lg_start lg" and "j < entries lg \<Longrightarrow> logblk lg j \<noteq> lh_block lg i" and "lh_block lg i \<notin> logblk lg ` {..<entries lg}"
    and "k \<le> i \<Longrightarrow> lh_block lg i \<notin> lh_block lg ` {..<k}"
proof -
  have d: "\<forall>i < entries lg. lh_block lg i \<noteq> lg_start lg \<and> (\<forall>j < entries lg. lh_block lg i \<noteq> logblk lg j)"
    and inj: "inj_on (lh_block lg) {..<entries lg}" using assms(1) by (simp_all add: log_sep_def)
  show "lh_block lg i \<noteq> lg_start lg" "lh_block lg i \<notin> logblk lg ` {..<entries lg}" using d assms(2) by auto
  show "logblk lg j \<noteq> lh_block lg i" if "j < entries lg" using d assms(2) that by metis
  show "lh_block lg i \<notin> lh_block lg ` {..<k}" if "k \<le> i" using inj that assms(2) by (auto dest: inj_onD)
qed

lemma write_log_spec:
  fixes s :: "'z log_st_scheme"
  assumes lg: "log s = lg" "lg_dev lg = dev" and q: "quiet dev p s" and sep: "log_sep lg" and room: "0 < spare s"
    and m: "\<And>i. i < entries lg \<Longrightarrow> pinned dev s (logblk lg i) = 0"
    and n: "\<And>i. i < entries lg \<Longrightarrow> 0 < pinned dev s (lh_block lg i) \<and> pinned dev s (lh_block lg i) < 2 ^ 32 - 1"
  shows "wpK write_log (\<lambda>_ t. stored dev p (to_log lg (view dev s) (entries lg)) s t \<and> pinned dev t = pinned dev s) e s"
proof -
  have "wpK (foreachK [0..<entries lg] write_block)
    (\<lambda>_ t. stored dev p (to_log lg (view dev s) (length [0..<entries lg])) s t \<and> pinned dev t = pinned dev s) e s"
  proof (rule foreach_wp_inv)
    fix k t assume k: "k < length [0..<entries lg]" and t: "stored dev p (to_log lg (view dev s) k) s t \<and> pinned dev t = pinned dev s"
    then have k: "k < entries lg" and st: "stored dev p (to_log lg (view dev s) k) s t" and pin: "pinned dev t = pinned dev s" by simp_all
    have "lh_block lg k \<notin> fst ` set (to_log lg (view dev s) k)" using log_sepD(3) [OF sep k] k by (auto simp: fst_to_log)
    then have v: "view dev t (lh_block lg k) = view dev s (lh_block lg k)" by (simp add: storedD(3) [OF st] write_all_other)
    have "wpK (write_block k) (\<lambda>_ u. stored dev p [(logblk lg k, view dev t (lh_block lg k))] t u \<and> pinned dev u = pinned dev t) e t"
      using log_sepD(2) [OF sep k k] m [OF k] n [OF k] room spare_mono [OF storedD(6) [OF st]] pin
      by (intro write_block_spec storedD(1) [OF st] lg(2)) (auto simp: frame_log [OF storedD(2) [OF st]] lg)
    then show "wpK (write_block ([0..<entries lg] ! k)) (\<lambda>_ u. stored dev p (to_log lg (view dev s) (Suc k)) s u \<and> pinned dev u = pinned dev s) e t"
      unfolding v pin using k by (auto intro: wpK_mono stored_trans [OF st])
  qed (simp add: stored_refl q)
  then show ?thesis by (simp add: write_log_def log_get_def wp lg)
qed

lemma unpin_other: "n \<notin> set bs \<Longrightarrow> fold (unpin c) bs f n = f n"
  by (induction bs arbitrary: f) (auto simp: unpin_def)

lemma install_trans_spec:
  fixes s :: "'z log_st_scheme"
  assumes lg: "log s = lg" "lg_dev lg = dev" and q: "quiet dev p s" and sep: "log_sep lg" and room: "(if r then 1 else 0) < spare s"
    and m: "\<And>i. i < entries lg \<Longrightarrow> pinned dev s (logblk lg i) = 0"
    and n: "\<And>i. i < entries lg \<Longrightarrow> if r then pinned dev s (lh_block lg i) = 0
       else 0 < pinned dev s (lh_block lg i) \<and> pinned dev s (lh_block lg i) < 2 ^ 32 - 1"
  shows "wpK (install_trans r) (\<lambda>_ t. stored dev p (to_home lg (disk s) (entries lg)) s t \<and>
    pinned dev t = fold (unpin (\<not> r)) (map (lh_block lg) [0..<entries lg]) (pinned dev s)) e s"
proof -
  let ?P = "\<lambda>k. fold (unpin (\<not> r)) (map (lh_block lg) [0..<k]) (pinned dev s)"
  have "wpK (foreachK [0..<entries lg] (install_block r))
    (\<lambda>_ t. stored dev p (to_home lg (disk s) (length [0..<entries lg])) s t \<and> pinned dev t = ?P (length [0..<entries lg])) e s"
  proof (rule foreach_wp_inv)
    fix k t assume "k < length [0..<entries lg]" and "stored dev p (to_home lg (disk s) k) s t \<and> pinned dev t = ?P k"
    then have k: "k < entries lg" and st: "stored dev p (to_home lg (disk s) k) s t" and pin: "pinned dev t = ?P k" by simp_all
    have mk: "logblk lg k \<notin> lh_block lg ` {..<k}" 
    proof
      assume "logblk lg k \<in> lh_block lg ` {..<k}"
      then obtain i where "i < k" "logblk lg k = lh_block lg i" by auto
      then show False using log_sepD(2) [OF sep _ k, of i] k by simp
    qed
    have nk: "lh_block lg k \<notin> lh_block lg ` {..<k}" by (rule log_sepD(4) [OF sep k]) simp
    have d: "disk t (logblk lg k) = disk s (logblk lg k)" using mk by (simp add: storedD(4) [OF st] write_all_other fst_to_log)
    have pm: "pinned dev t (logblk lg k) = 0" "pinned dev t (lh_block lg k) = pinned dev s (lh_block lg k)"
      using mk nk m [OF k] by (simp_all add: pin unpin_other lessThan_atLeast0)
    have "wpK (install_block r k) (\<lambda>_ u. stored dev p [(lh_block lg k, disk t (logblk lg k))] t u \<and>
        pinned dev u = unpin (\<not> r) (lh_block lg k) (pinned dev t)) e t"
      using log_sepD(2) [OF sep k k] n [OF k] room spare_mono [OF storedD(6) [OF st]] pm
      by (intro install_block_spec storedD(1) [OF st] lg(2)) (auto simp: ready_def frame_log [OF storedD(2) [OF st]] lg split: if_splits)
    then show "wpK (install_block r ([0..<entries lg] ! k)) (\<lambda>_ u. stored dev p (to_home lg (disk s) (Suc k)) s u \<and> pinned dev u = ?P (Suc k)) e t"
      unfolding d pin using k by (auto intro: wpK_mono stored_trans [OF st])
  qed (simp add: stored_refl q)
  then show ?thesis by (simp add: install_trans_def log_get_def wp lg)
qed

lemma logblk_word: "logblk lg i = lg_start lg + word_of_nat (Suc i)"
  by (simp add: logblk_def algebra_simps)

lemma logblk_start: "i < LOGSIZE \<Longrightarrow> logblk lg i \<noteq> lg_start lg"
  unfolding logblk_word add_cancel_left_right word_of_nat_eq_0_iff by (auto dest: dvd_imp_le)

lemma logblk_inj: "k \<le> LOGSIZE \<Longrightarrow> inj_on (logblk lg) {..<k}"
proof (rule inj_onI)
  fix i j assume "k \<le> LOGSIZE" "i \<in> {..<k}" "j \<in> {..<k}" "logblk lg i = logblk lg j"
  then have "(word_of_nat i :: u32) = word_of_nat j" "i < 2 ^ 32" "j < 2 ^ 32" by (simp_all add: logblk_def)
  then show "i = j" by (simp add: word_of_nat_eq_iff take_bit_nat_eq_self)
qed

text \<open>
  The disk writes of a commit, in their order: the blocks to the log, the header, the blocks
  to their home locations, and the empty header.
\<close>

abbreviation header :: "logstate \<Rightarrow> byte list \<Rightarrow> byte list" where
  "header lg d \<equiv> lh_put d (lh_n lg) (lh_block lg)"

definition home_writes :: "logstate \<Rightarrow> (u32 \<Rightarrow> byte list) \<Rightarrow> (u32 \<times> byte list) list" where
  "home_writes lg f = map (\<lambda>i. (lh_block lg i, f (lh_block lg i))) [0..<entries lg]"

definition commit_writes :: "logstate \<Rightarrow> (u32 \<Rightarrow> byte list) \<Rightarrow> byte list \<Rightarrow> (u32 \<times> byte list) list" where
  "commit_writes lg f d = to_log lg f (entries lg) @ [(lg_start lg, header lg d)] @ home_writes lg f @
     [(lg_start lg, header (lg\<lparr>lh_n := 0\<rparr>) (header lg d))]"

text \<open>
  The state \<^verbatim>\<open>end_op\<close> starts a commit in: the blocks of the transaction are pinned, the log
  is not, and a buffer is left for it.
\<close>

definition committable :: "u32 \<Rightarrow> nat \<Rightarrow> 'z log_st_scheme \<Rightarrow> bool" where
  "committable dev p s \<longleftrightarrow> quiet dev p s \<and> lg_dev (log s) = dev \<and> log_sep (log s) \<and> 0 < spare s \<and>
     pinned dev s (lg_start (log s)) = 0 \<and> (\<forall>i < entries (log s). pinned dev s (logblk (log s) i) = 0 \<and>
       0 < pinned dev s (lh_block (log s) i) \<and> pinned dev s (lh_block (log s) i) < 2 ^ 32 - 1)"

lemma start_not_log:
  assumes "log_sep lg"
  shows "lg_start lg \<notin> logblk lg ` {..<entries lg}" "lg_start lg \<notin> lh_block lg ` {..<entries lg}"
proof -
  have "logblk lg i \<noteq> lg_start lg" if "i < entries lg" for i using logblk_start [of i lg] that assms by (simp add: log_sep_def)
  then show "lg_start lg \<notin> logblk lg ` {..<entries lg}" by fastforce
  show "lg_start lg \<notin> lh_block lg ` {..<entries lg}" using log_sepD(1) [OF assms] by fastforce
qed

lemma logged:
  assumes "log_sep lg" and "i < entries lg"
  shows "write_all (to_log lg f (entries lg)) g (logblk lg i) = f (lh_block lg i)"
  using write_all_inj [OF logblk_inj assms(2), of lg "\<lambda>i. f (lh_block lg i)"] assms(1) by (simp add: to_log_def log_sep_def)

lemma commit_spec:
  fixes s :: "'z log_st_scheme"
  assumes c: "committable dev p s" and lg: "log s = lg" and n: "0 < entries lg"
  defines "ws \<equiv> commit_writes lg (view dev s) (disk s (lg_start lg))"
  shows "wpK commit (\<lambda>_ t. quiet dev p t \<and> log t = lg\<lparr>lh_n := 0\<rparr> \<and> disk t = write_all ws (disk s) \<and> disk_writes t = rev ws @ disk_writes s \<and>
     view dev t = write_all ws (view dev s) \<and> refs t \<subseteq> refs s \<and>
     pinned dev t = fold (unpin True) (map (lh_block lg) [0..<entries lg]) (pinned dev s)) e s" (is "wpK _ (\<lambda>_ t. ?Q t) e s")
proof -
  let ?f = "view dev s" and ?d = "disk s (lg_start lg)"
  have q: "quiet dev p s" "lg_dev lg = dev" and sep: "log_sep lg" and room: "0 < spare s" and p0: "pinned dev s (lg_start lg) = 0"
    and pl: "\<And>i. i < entries lg \<Longrightarrow> pinned dev s (logblk lg i) = 0"
    and ph: "\<And>i. i < entries lg \<Longrightarrow> 0 < pinned dev s (lh_block lg i) \<and> pinned dev s (lh_block lg i) < 2 ^ 32 - 1"
    using c lg by (simp_all add: committable_def)
  have "wpK write_log (\<lambda>_ t. wpK write_head (\<lambda>_ t. wpK (install_trans False) (\<lambda>_ t. wpK write_head (\<lambda>_. ?Q) e (t\<lparr>log := (log t)\<lparr>lh_n := 0\<rparr>\<rparr>)) e t) e t) e s"
  proof (rule wpK_mono [OF write_log_spec [OF lg q(2,1) sep room pl ph]], assumption, assumption)
    fix u t1 assume "stored dev p (to_log lg ?f (entries lg)) s t1 \<and> pinned dev t1 = pinned dev s"
    then have t1: "stored dev p (to_log lg ?f (entries lg)) s t1" "pinned dev t1 = pinned dev s" by simp_all
    have l1: "log t1 = lg" using frame_log [OF storedD(2) [OF t1(1)]] lg by simp
    have d1: "disk t1 (lg_start lg) = ?d"
      unfolding storedD(4) [OF t1(1)] by (rule write_all_other) (simp add: fst_to_log start_not_log [OF sep])
    have r1: "0 < spare t1" using spare_mono [OF storedD(6) [OF t1(1)]] room by simp
    show "wpK write_head (\<lambda>_ t. wpK (install_trans False) (\<lambda>_ t. wpK write_head (\<lambda>_. ?Q) e (t\<lparr>log := (log t)\<lparr>lh_n := 0\<rparr>\<rparr>)) e t) e t1"
    proof (rule wpK_mono [OF write_head_spec [OF l1 q(2) storedD(1) [OF t1(1)] _ r1, unfolded d1 t1(2)]], rule p0)
      fix u t2 assume "stored dev p [(lg_start lg, header lg ?d)] t1 t2 \<and> pinned dev t2 = pinned dev s"
      then have t2: "stored dev p (to_log lg ?f (entries lg) @ [(lg_start lg, header lg ?d)]) s t2" "pinned dev t2 = pinned dev s"
        using stored_trans [OF t1(1)] by blast+
      have l2: "log t2 = lg" using frame_log [OF storedD(2) [OF t2(1)]] lg by simp
      have r2: "0 < spare t2" using spare_mono [OF storedD(6) [OF t2(1)]] room by simp
      have "disk t2 (logblk lg i) = ?f (lh_block lg i)" if "i < entries lg" for i
        using logged [OF sep that] logblk_start [of i lg] that sep by (simp add: storedD(4) [OF t2(1)] log_sep_def)
      then have home: "to_home lg (disk t2) (entries lg) = home_writes lg ?f" by (simp add: to_home_def home_writes_def)
      show "wpK (install_trans False) (\<lambda>_ t. wpK write_head (\<lambda>_. ?Q) e (t\<lparr>log := (log t)\<lparr>lh_n := 0\<rparr>\<rparr>)) e t2"
      proof (rule wpK_mono [OF install_trans_spec [OF l2 q(2) storedD(1) [OF t2(1)] sep, unfolded home t2(2)]])
        show "(if False then 1 else 0) < spare t2" using r2 by simp
        fix u t3 assume t3': "stored dev p (home_writes lg ?f) t2 t3 \<and>
          pinned dev t3 = fold (unpin (\<not> False)) (map (lh_block lg) [0..<entries lg]) (pinned dev s)"
        let ?ws = "to_log lg ?f (entries lg) @ [(lg_start lg, header lg ?d)] @ home_writes lg ?f"
        from t3' have t3: "stored dev p ?ws s t3" "pinned dev t3 = fold (unpin True) (map (lh_block lg) [0..<entries lg]) (pinned dev s)"
          using stored_trans [OF t2(1), of "home_writes lg ?f" t3] by simp_all
        have l3: "log t3 = lg" using frame_log [OF storedD(2) [OF t3(1)]] lg by simp
        have r3: "0 < spare t3" using spare_mono [OF storedD(6) [OF t3(1)]] room by simp
        have ns: "lg_start lg \<notin> fst ` set (home_writes lg ?f)"
          using start_not_log(2) [OF sep] by (simp add: home_writes_def image_image lessThan_atLeast0)
        have d3: "disk t3 (lg_start lg) = header lg ?d" by (simp add: storedD(4) [OF t3(1)] write_all_other [OF ns])
        have p3: "pinned dev t3 (lg_start lg) = 0" using start_not_log(2) [OF sep] p0 by (simp add: t3(2) unpin_other lessThan_atLeast0)
        let ?l = "lg\<lparr>lh_n := 0\<rparr>"
        have "wpK write_head (\<lambda>_. ?Q) e (t3\<lparr>log := ?l\<rparr>)"
        proof (rule wpK_mono [OF write_head_spec [of "t3\<lparr>log := ?l\<rparr>" ?l dev p]])
          fix u t assume "stored dev p [(lg_start ?l, header ?l (disk (t3\<lparr>log := ?l\<rparr>) (lg_start ?l)))] (t3\<lparr>log := ?l\<rparr>) t \<and>
            pinned dev t = pinned dev (t3\<lparr>log := ?l\<rparr>)"
          then have t: "stored dev p [(lg_start lg, header ?l (header lg ?d))] (t3\<lparr>log := ?l\<rparr>) t" "pinned dev t = pinned dev t3"
            by (simp_all add: d3)
          show "?Q t" using storedD [OF t(1)] frame_log [OF storedD(2) [OF t(1)]] storedD(6) [OF t3(1)] t(2) t3(2)
            by (simp add: ws_def commit_writes_def storedD(3-5) [OF t3(1)])
        qed (use storedD(1) [OF t3(1)] q(2) p3 r3 in simp_all)
        then show "wpK write_head (\<lambda>_. ?Q) e (t3\<lparr>log := (log t3)\<lparr>lh_n := 0\<rparr>\<rparr>)" by (simp add: l3)
      qed (use pl ph in simp_all)
    qed
  qed
  moreover have "sint (lh_n lg) > 0" using n by simp
  ultimately show ?thesis by (simp add: commit_def log_get_def upd_log_def wp lg)
qed

section \<open>Recovery\<close>

text \<open>After a reset no buffer is referenced, so every block is read from the disk.\<close>

definition fresh :: "u32 \<Rightarrow> nat \<Rightarrow> 'z bio_st_scheme \<Rightarrow> bool" where
  "fresh dev p s \<longleftrightarrow> quiet dev p s \<and> refs s = {}"

lemma fresh_pinned:
  assumes "refs s = {}"
  shows "pinned dev s n = 0" "1 < spare s"
proof -
  have "b_refcnt (bufs s i) = 0" if "i < NBUF" for i using assms that by (auto simp: refs_def)
  then show "pinned dev s n = 0" using slot_of_some [of dev s n] by (auto simp: pinned_def split: option.splits)
  show "1 < spare s" by (simp add: spare_def assms)
qed

definition recovered :: "logstate \<Rightarrow> (u32 \<Rightarrow> byte list) \<Rightarrow> u32 \<Rightarrow> byte list" where
  "recovered lg d = (let lg' = loaded lg (d (lg_start lg)) in
     write_all (to_home lg' d (entries lg') @ [(lg_start lg, header (lg'\<lparr>lh_n := 0\<rparr>) (d (lg_start lg)))]) d)"

lemma loaded_simps [simp]: "lg_start (loaded lg d) = lg_start lg" "lg_dev (loaded lg d) = lg_dev lg" "logblk (loaded lg d) = logblk lg"
  by (simp_all add: loaded_def logblk_def fun_eq_iff)

lemma fold_unpin_False [simp]: "fold (unpin False) bs f = f"
  by (induction bs) (simp_all add: unpin_def)

lemma recover_spec:
  fixes s :: "'z log_st_scheme"
  assumes lg: "log s = lg" "lg_dev lg = dev" and f: "fresh dev p s" and sep: "log_sep (loaded lg (disk s (lg_start lg)))"
  shows "wpK recover_from_log (\<lambda>_ t. fresh dev p t \<and> disk t = recovered lg (disk s) \<and>
     log t = (loaded lg (disk s (lg_start lg)))\<lparr>lh_n := 0\<rparr>) e s" (is "wpK _ (\<lambda>_ t. ?Q t) e s")
proof -
  let ?d = "disk s (lg_start lg)"
  let ?l = "loaded lg ?d"
  have q: "quiet dev p s" "refs s = {}" using f by (simp_all add: fresh_def)
  note pin = fresh_pinned [OF q(2)]
  have "wpK read_head (\<lambda>_ t. wpK (install_trans True) (\<lambda>_ t. wpK write_head (\<lambda>_. ?Q) e (t\<lparr>log := (log t)\<lparr>lh_n := 0\<rparr>\<rparr>)) e t) e s"
  proof (rule wpK_mono [OF read_head_spec [OF lg q(1) pin(1)]])
    show "0 < spare s" using pin(2) by simp
    fix u t1 assume "stored dev p [] (s\<lparr>log := ?l\<rparr>) t1 \<and> pinned dev t1 = pinned dev s"
    then have st: "stored dev p [] (s\<lparr>log := ?l\<rparr>) t1" by simp
    have t1: "quiet dev p t1" "log t1 = ?l" "disk t1 = disk s" "refs t1 = {}"
      using storedD [OF st] frame_log [OF storedD(2) [OF st]] q(2) by simp_all
    show "wpK (install_trans True) (\<lambda>_ t. wpK write_head (\<lambda>_. ?Q) e (t\<lparr>log := (log t)\<lparr>lh_n := 0\<rparr>\<rparr>)) e t1"
    proof (rule wpK_mono [OF install_trans_spec [OF t1(2) _ t1(1) sep]])
      fix u t2 assume "stored dev p (to_home ?l (disk t1) (entries ?l)) t1 t2 \<and> pinned dev t2 = fold (unpin (\<not> True)) (map (lh_block ?l) [0..<entries ?l]) (pinned dev t1)"
      then have st2: "stored dev p (to_home ?l (disk s) (entries ?l)) t1 t2" by (simp add: t1(3))
      have t2: "quiet dev p t2" "log t2 = ?l" "disk t2 = write_all (to_home ?l (disk s) (entries ?l)) (disk s)" "refs t2 = {}"
        using storedD [OF st2] frame_log [OF storedD(2) [OF st2]] t1 by simp_all
      have d2: "disk t2 (lg_start lg) = ?d" using start_not_log(2) [OF sep] by (simp add: t2(3) write_all_other fst_to_log)
      let ?l0 = "?l\<lparr>lh_n := 0\<rparr>"
      have "wpK write_head (\<lambda>_. ?Q) e (t2\<lparr>log := ?l0\<rparr>)"
      proof (rule wpK_mono [OF write_head_spec [of "t2\<lparr>log := ?l0\<rparr>" ?l0 dev p]])
        fix u t assume "stored dev p [(lg_start ?l0, header ?l0 (disk (t2\<lparr>log := ?l0\<rparr>) (lg_start ?l0)))] (t2\<lparr>log := ?l0\<rparr>) t \<and>
          pinned dev t = pinned dev (t2\<lparr>log := ?l0\<rparr>)"
        then have t: "stored dev p [(lg_start lg, header ?l0 ?d)] (t2\<lparr>log := ?l0\<rparr>) t" by (simp add: d2)
        show "?Q t" using storedD [OF t] frame_log [OF storedD(2) [OF t]] t2 by (simp add: fresh_def recovered_def Let_def)
      qed (use t2(1) lg(2) fresh_pinned [OF t2(4)] in simp_all)
      then show "wpK write_head (\<lambda>_. ?Q) e (t2\<lparr>log := (log t2)\<lparr>lh_n := 0\<rparr>\<rparr>)" by (simp add: t2(2))
    qed (use lg(2) fresh_pinned [OF t1(4)] in simp_all)
  qed
  then show ?thesis by (simp add: recover_from_log_def upd_log_def wp)
qed

lemma fresh_mach:
  "fresh dev p s \<Longrightarrow> sane m \<Longrightarrow> (\<And>l. clean l m) \<Longrightarrow> cur m = cur (mach s) \<Longrightarrow> fresh dev p (s\<lparr>mach := m\<rparr>)"
  by (simp add: fresh_def quiet_def bio_ok_def calm_def order_def held_def refs_def)

lemma fresh_log [simp]: "fresh dev p (s\<lparr>log := l\<rparr>) = fresh dev p s"
  by (simp add: fresh_def)

definition opened :: "u32 \<Rightarrow> superblock \<Rightarrow> logstate \<Rightarrow> logstate" where
  "opened dev sb lg = lg\<lparr>lg_start := sb_logstart sb, lg_size := sb_nlog sb, lg_dev := dev\<rparr>"

lemma initlog_spec:
  fixes s :: "'z log_st_scheme"
  assumes f: "fresh dev p s" and sep: "log_sep (loaded (opened dev sb (log s)) (disk s (sb_logstart sb)))"
  shows "wpK (initlog dev sb) (\<lambda>_ t. fresh dev p t \<and> disk t = recovered (opened dev sb (log s)) (disk s) \<and>
     log t = (loaded (opened dev sb (log s)) (disk s (sb_logstart sb)))\<lparr>lh_n := 0\<rparr>) e s"
proof -
  let ?m = "mach s\<lparr>locks := (locks (mach s))(Log_lock := (locks (mach s) Log_lock)\<lparr>lock_name := ''log'', locked := 0, lock_cpu := None\<rparr>)\<rparr>"
  let ?s = "s\<lparr>mach := ?m, log := opened dev sb (log s)\<rparr>"
  have c: "calm p s" using f by (simp add: fresh_def quiet_def bio_ok_def)
  have "fresh dev p (s\<lparr>mach := ?m\<rparr>)"
    using calmD [OF c] by (intro fresh_mach [OF f]) (auto simp: sane_def clean_def cur_def depth_def)
  then have "fresh dev p ?s" by simp
  then have "wpK recover_from_log (\<lambda>_ t. fresh dev p t \<and> disk t = recovered (opened dev sb (log s)) (disk ?s) \<and>
     log t = (loaded (opened dev sb (log s)) (disk ?s (lg_start (opened dev sb (log s)))))\<lparr>lh_n := 0\<rparr>) e ?s"
    by (rule recover_spec [rotated 2]) (use sep in \<open>simp_all add: opened_def\<close>)
  then show ?thesis
    by (simp add: initlog_def wp initlock_def upd_lock_def upd_mach_def upd_log_def LOGSIZE_def BSIZE_def opened_def)
qed

section \<open>Crashes\<close>

lemma home_new: "write_all (home_writes lg f) g b = (if b \<in> lh_block lg ` {..<entries lg} then f b else g b)"
proof -
  have "write_all (map (\<lambda>i. (c i, f (c i))) [0..<k]) g b = (if b \<in> c ` {..<k} then f b else g b)" for c and k :: nat
    by (induction k) (auto simp: lessThan_Suc)
  then show ?thesis by (simp add: home_writes_def)
qed

lemma header_empty:
  assumes "get32 d 0 = 0"
  shows "entries (loaded lg d) = 0"
  using assms by (simp add: loaded_def lh_get_def)

lemma header_full:
  assumes "entries lg \<le> LOGSIZE" and "length d = BSIZE" and "i < entries lg"
  shows "lh_n (loaded lg' (header lg d)) = lh_n lg" "lh_block (loaded lg' (header lg d)) i = lh_block lg i"
  using assms lh_get_put(1) [of "lh_n lg" d "lh_block lg"] lh_get_put(2) [of "lh_n lg" d i "lh_block lg"]
  by (simp_all add: loaded_def LOGSIZE_def BSIZE_def)

lemma recovered_empty:
  assumes "get32 (d (lg_start lg)) 0 = 0"
  shows "log_sep (loaded lg (d (lg_start lg)))" and "b \<noteq> lg_start lg \<Longrightarrow> recovered lg d b = d b"
  using header_empty [OF assms, of lg] by (simp_all add: log_sep_def recovered_def Let_def)

lemma recovered_full:
  assumes d: "d (lg_start lg) = header lg0 d0" "length d0 = BSIZE" and sep: "log_sep lg0" and start: "lg_start lg = lg_start lg0"
    and n: "0 < entries lg0" and log: "\<And>i. i < entries lg0 \<Longrightarrow> d (logblk lg0 i) = f (lh_block lg0 i)"
  shows "log_sep (loaded lg (d (lg_start lg)))"
    and "b \<noteq> lg_start lg \<Longrightarrow> recovered lg d b = (if b \<in> lh_block lg0 ` {..<entries lg0} then f b else d b)"
proof -
  define l where "l = loaded lg (d (lg_start lg))"
  have le: "entries lg0 \<le> LOGSIZE" using sep by (simp add: log_sep_def)
  have e: "lh_n l = lh_n lg0" using header_full(1) [OF le d(2) n] d(1) by (simp add: l_def)
  have b: "lh_block l i = lh_block lg0 i" if "i < entries lg0" for i using header_full(2) [OF le d(2) that] d(1) by (simp add: l_def)
  have l: "logblk l = logblk lg0" "logblk lg = logblk lg0" "lg_start l = lg_start lg0" by (simp_all add: logblk_def fun_eq_iff start l_def)
  have "inj_on (lh_block l) {..<entries lg0} = inj_on (lh_block lg0) {..<entries lg0}" by (rule inj_on_cong) (simp add: b)
  then have "log_sep l" using sep by (simp add: log_sep_def e l b)
  then show "log_sep (loaded lg (d (lg_start lg)))" by (simp add: l_def)
  have "to_home l d (entries l) = home_writes lg0 f" by (simp add: to_home_def home_writes_def e b l log)
  then show "recovered lg d b = (if b \<in> lh_block lg0 ` {..<entries lg0} then f b else d b)" if "b \<noteq> lg_start lg"
    unfolding recovered_def l_def [symmetric] using that by (simp add: Let_def home_new)
qed

lemma take_home: "b \<notin> lh_block lg ` {..<entries lg} \<Longrightarrow> write_all (take j (home_writes lg f)) g b = g b"
  by (rule write_all_other) (auto simp: home_writes_def dest!: in_set_takeD)

text \<open>The blocks of the log, which hold no data of the file system.\<close>

definition log_area :: "logstate \<Rightarrow> u32 set" where
  "log_area lg = insert (lg_start lg) (logblk lg ` {..<entries lg})"

text \<open>The disk after a crash during a commit, once \<open>k\<close> of its writes have been done.\<close>

definition crashed :: "nat \<Rightarrow> logstate \<Rightarrow> (u32 \<Rightarrow> byte list) \<Rightarrow> (u32 \<Rightarrow> byte list) \<Rightarrow> u32 \<Rightarrow> byte list" where
  "crashed k lg f g = write_all (take k (commit_writes lg f (g (lg_start lg)))) g"

lemma crash_before:
  assumes "log_sep lg" and "k \<le> entries lg" and "b \<notin> logblk lg ` {..<entries lg}"
  shows "crashed k lg f g b = g b"
proof -
  have "take k (commit_writes lg f (g (lg_start lg))) = take k (to_log lg f (entries lg))" using assms(2) by (simp add: commit_writes_def)
  moreover have "fst ` set (take k (to_log lg f (entries lg))) \<subseteq> logblk lg ` {..<entries lg}"
    using fst_to_log(1) [of lg f "entries lg"] set_take_subset [of k "to_log lg f (entries lg)"] by blast
  ultimately show ?thesis using assms(3) by (auto simp: crashed_def intro!: write_all_other)
qed

lemma crash_after:
  assumes sep: "log_sep lg" and k: "entries lg < k" "k < 2 * entries lg + 2"
  shows "crashed k lg f g (lg_start lg) = header lg (g (lg_start lg))"
    and "i < entries lg \<Longrightarrow> crashed k lg f g (logblk lg i) = f (lh_block lg i)"
    and "b \<notin> log_area lg \<Longrightarrow> b \<notin> lh_block lg ` {..<entries lg} \<Longrightarrow> crashed k lg f g b = g b"
proof -
  obtain j where j: "k = entries lg + 1 + j" using k(1) less_imp_Suc_add by fastforce
  have "length (home_writes lg f) = entries lg" by (simp add: home_writes_def)
  then have "take k (commit_writes lg f (g (lg_start lg))) =
      to_log lg f (entries lg) @ [(lg_start lg, header lg (g (lg_start lg)))] @ take j (home_writes lg f)"
    using k(2) by (simp add: commit_writes_def j)
  then have w: "crashed k lg f g = write_all (take j (home_writes lg f))
      ((write_all (to_log lg f (entries lg)) g)(lg_start lg := header lg (g (lg_start lg))))" by (simp add: crashed_def)
  show "crashed k lg f g (lg_start lg) = header lg (g (lg_start lg))" using start_not_log(2) [OF sep] by (simp add: w take_home)
  show "crashed k lg f g (logblk lg i) = f (lh_block lg i)" if i: "i < entries lg"
  proof -
    have "logblk lg i \<notin> lh_block lg ` {..<entries lg}" using log_sepD(2) [OF sep _ i] by fastforce
    moreover have "logblk lg i \<noteq> lg_start lg" using start_not_log(1) [OF sep] i by force
    ultimately show ?thesis using logged [OF sep i] by (simp add: w take_home)
  qed
  show "crashed k lg f g b = g b" if "b \<notin> log_area lg" "b \<notin> lh_block lg ` {..<entries lg}"
    using that by (simp add: w take_home log_area_def write_all_other fst_to_log)
qed

lemma crash_done:
  assumes sep: "log_sep lg" and d: "length (g (lg_start lg)) = BSIZE" and k: "2 * entries lg + 2 \<le> k"
  shows "get32 (crashed k lg f g (lg_start lg)) 0 = 0"
    and "b \<notin> log_area lg \<Longrightarrow> crashed k lg f g b = (if b \<in> lh_block lg ` {..<entries lg} then f b else g b)"
proof -
  have "length (commit_writes lg f (g (lg_start lg))) = 2 * entries lg + 2" by (simp add: commit_writes_def home_writes_def)
  then have w: "crashed k lg f g = write_all (commit_writes lg f (g (lg_start lg))) g" using k by (simp add: crashed_def)
  have "length (header lg (g (lg_start lg))) = BSIZE"
    using sep d lh_put_length [of "lh_n lg" "g (lg_start lg)"] by (simp add: log_sep_def LOGSIZE_def BSIZE_def)
  then show "get32 (crashed k lg f g (lg_start lg)) 0 = 0"
    using lh_get_put(1) [of 0 "header lg (g (lg_start lg))" "lh_block lg"] by (simp add: w commit_writes_def lh_get_def BSIZE_def)
  show "crashed k lg f g b = (if b \<in> lh_block lg ` {..<entries lg} then f b else g b)" if "b \<notin> log_area lg"
    using that by (simp add: w commit_writes_def log_area_def home_new write_all_other fst_to_log)
qed

lemma recovered_crashed:
  assumes sep: "log_sep lg" and n: "0 < entries lg" and d: "get32 (g (lg_start lg)) 0 = 0" "length (g (lg_start lg)) = BSIZE"
    and start: "lg_start lg' = lg_start lg"
  shows "log_sep (loaded lg' (crashed k lg f g (lg_start lg)))"
    and "b \<notin> log_area lg \<Longrightarrow> recovered lg' (crashed k lg f g) b = (if entries lg < k \<and> b \<in> lh_block lg ` {..<entries lg} then f b else g b)"
proof -
  have b: "b \<noteq> lg_start lg'" "b \<notin> logblk lg ` {..<entries lg}" if "b \<notin> log_area lg" for b using that by (simp_all add: log_area_def start)
  consider "k \<le> entries lg" | "entries lg < k" "k < 2 * entries lg + 2" | "2 * entries lg + 2 \<le> k" by linarith
  then have "log_sep (loaded lg' (crashed k lg f g (lg_start lg))) \<and> (b \<notin> log_area lg \<longrightarrow>
    recovered lg' (crashed k lg f g) b = (if entries lg < k \<and> b \<in> lh_block lg ` {..<entries lg} then f b else g b))"
  proof cases
    case 1
    have "get32 (crashed k lg f g (lg_start lg')) 0 = 0" using crash_before [OF sep 1 start_not_log(1) [OF sep], of f g] d(1) start by simp
    note r = recovered_empty [of "crashed k lg f g" lg', OF this]
    show ?thesis using r(1) r(2) [OF b(1)] crash_before [OF sep 1 b(2)] 1 by (simp add: start)
  next
    case 2
    note c = crash_after [where f = f and g = g, OF sep 2]
    have s: "crashed k lg f g (lg_start lg') = header lg (g (lg_start lg))" using c(1) by (simp add: start)
    note r = recovered_full [where d = "crashed k lg f g" and lg = lg' and f = f, OF s d(2) sep start n c(2)]
    show ?thesis using r(1) r(2) [OF _ b(1)] c(3) [of b] 2 by (simp add: start)
  next
    case 3
    note c = crash_done [where f = f and g = g, OF sep d(2) 3]
    have "get32 (crashed k lg f g (lg_start lg')) 0 = 0" using c(1) start by simp
    note r = recovered_empty [of "crashed k lg f g" lg', OF this]
    show ?thesis using r(1) r(2) [OF b(1)] c(2) 3 by (simp add: start)
  qed
  then show "log_sep (loaded lg' (crashed k lg f g (lg_start lg)))"
    "b \<notin> log_area lg \<Longrightarrow> recovered lg' (crashed k lg f g) b = (if entries lg < k \<and> b \<in> lh_block lg ` {..<entries lg} then f b else g b)" by blast+
qed

section \<open>Adding a block to the transaction\<close>

definition blocks :: "logstate \<Rightarrow> u32 set" where
  "blocks lg = lh_block lg ` {..<entries lg}"

definition log_add :: "u32 \<Rightarrow> logstate \<Rightarrow> logstate" where
  "log_add bn lg = (if bn \<in> blocks lg then lg else lg\<lparr>lh_n := lh_n lg + 1, lh_block := (lh_block lg)(entries lg := bn)\<rparr>)"

lemma length_takeWhile_all: "length (takeWhile P xs) = length xs \<longleftrightarrow> (\<forall>x \<in> set xs. P x)"
  by (induction xs) auto

lemma absorb:
  fixes f :: "nat \<Rightarrow> u32" and n :: nat and bn :: u32
  defines "i \<equiv> length (takeWhile (\<lambda>j. f j \<noteq> bn) [0..<n])"
  shows "i = n \<longleftrightarrow> bn \<notin> f ` {..<n}" and "bn \<in> f ` {..<n} \<Longrightarrow> f i = bn"
proof -
  have len: "i = length [0..<n] \<longleftrightarrow> (\<forall>j \<in> set [0..<n]. f j \<noteq> bn)"
    unfolding i_def by (rule length_takeWhile_all)
  then show "i = n \<longleftrightarrow> bn \<notin> f ` {..<n}" by auto
  assume "bn \<in> f ` {..<n}"
  then have "i \<noteq> n" using len by auto
  moreover have "i \<le> n" using length_takeWhile_le [of _ "[0..<n]"] by (simp add: i_def)
  ultimately have "i < length [0..<n]" by simp
  then show "f i = bn" using nth_length_takeWhile [of "\<lambda>j. f j \<noteq> bn" "[0..<n]"] by (simp add: i_def)
qed

lemma log_write_run:
  fixes s :: "'z log_st_scheme"
  assumes calm: "calm p s" and n: "sint (lh_n (log s)) < int LOGSIZE" "sint (lh_n (log s)) < sint (lg_size (log s) - 1)"
    and out: "1 \<le> sint (lg_outstanding (log s))" and bn: "bn = b_blockno (bufs s b)"
  shows "log_write b e s = Ok () (if bn \<in> blocks (log s) then s\<lparr>mach := settle (mach s)\<rparr>
     else s\<lparr>mach := settle (mach s), bufs := (bufs s)(b := (bufs s b)\<lparr>b_refcnt := b_refcnt (bufs s b) + 1\<rparr>), log := log_add bn (log s)\<rparr>)"
proof -
  note c = calmD [OF calm]
  define i where "i = length (takeWhile (\<lambda>j. lh_block (log s) j \<noteq> bn) [0..<entries (log s)])"
  let ?u = "s\<lparr>mach := acq Log_lock (mach s), log := (log s)\<lparr>lh_block := (lh_block (log s))(i := bn)\<rparr>\<rparr>"
  have "log_write b e s = thenK (whenK (i = entries (log s)) (thenK (bpin b) (upd_log (\<lambda>r. r\<lparr>lh_n := lh_n r + 1\<rparr>)))) (release Log_lock) e ?u"
    using n out c unfolding log_write_def
    by (simp add: thenK_def bindK_def log_get_def buf_get_def getsK_def upd_log_def modifyK_def Let_def i_def bn)
  note run = this
  show ?thesis
  proof (cases "bn \<in> blocks (log s)")
    case True
    then have i: "i \<noteq> entries (log s)" "lh_block (log s) i = bn"
      using absorb [where f = "lh_block (log s)" and bn = bn and n = "entries (log s)"] by (auto simp: blocks_def i_def)
    then have u: "?u = s\<lparr>mach := acq Log_lock (mach s)\<rparr>" by (simp add: fun_upd_idem)
    show ?thesis unfolding run u using i(1) c True by (simp add: run_simps)
  next
    case False
    then have "i = entries (log s)" 
      using absorb(1) [where f = "lh_block (log s)" and bn = bn and n = "entries (log s)"] by (auto simp: blocks_def i_def)
    then show ?thesis unfolding run using c False by (simp add: run_simps upd_log_def log_add_def bpin_def upd_buf_def)
  qed
qed

text \<open>
  The state of the log during a transaction: its blocks are distinct, outside of the log, and
  pinned; the blocks of the log are not.
\<close>

definition outside :: "logstate \<Rightarrow> u32 \<Rightarrow> bool" where
  "outside lg b \<longleftrightarrow> b \<noteq> lg_start lg \<and> (\<forall>j < LOGSIZE. b \<noteq> logblk lg j)"

definition journal :: "u32 \<Rightarrow> 'z log_st_scheme \<Rightarrow> bool" where
  "journal dev s \<longleftrightarrow> lg_dev (log s) = dev \<and> 0 \<le> sint (lh_n (log s)) \<and> entries (log s) \<le> LOGSIZE \<and>
     inj_on (lh_block (log s)) {..<entries (log s)} \<and> (\<forall>b \<in> blocks (log s). outside (log s) b \<and> 0 < pinned dev s b) \<and>
     pinned dev s (lg_start (log s)) = 0 \<and> (\<forall>j < LOGSIZE. pinned dev s (logblk (log s) j) = 0)"

lemma settle_cache:
  "held (s\<lparr>mach := settle (mach s)\<rparr>) = held s" "view dev (s\<lparr>mach := settle (mach s)\<rparr>) = view dev s"
  "pinned dev (s\<lparr>mach := settle (mach s)\<rparr>) = pinned dev s"
  by (simp_all add: held_def view_def pinned_def slot_of_def fun_eq_iff split: option.split)

lemma journal_sep: "journal dev s \<Longrightarrow> log_sep (log s)"
  by (auto simp: journal_def log_sep_def outside_def blocks_def)

lemma journal_committable:
  assumes "journal dev s" and "quiet dev p s" and "0 < spare s" and "\<And>b. pinned dev s b < 2 ^ 32 - 1"
  shows "committable dev p s"
  using assms journal_sep [OF assms(1)] by (auto simp: committable_def journal_def blocks_def)

lemma sint_Suc: "sint (n :: i32) < 30 \<Longrightarrow> sint (n + 1) = sint n + 1"
  using sint_greater_eq [of n] by (simp add: sint_word_ariths signed_take_bit_int_eq_self)

lemma log_add_new:
  assumes "bn \<notin> blocks lg" and "0 \<le> sint (lh_n lg)" "sint (lh_n lg) < 30"
  shows "entries (log_add bn lg) = Suc (entries lg)" "blocks (log_add bn lg) = insert bn (blocks lg)"
    "inj_on (lh_block lg) {..<entries lg} \<Longrightarrow> inj_on (lh_block (log_add bn lg)) {..<entries (log_add bn lg)}"
    "logblk (log_add bn lg) = logblk lg" "lg_start (log_add bn lg) = lg_start lg" "lg_dev (log_add bn lg) = lg_dev lg"
    "0 \<le> sint (lh_n (log_add bn lg))"
proof -
  show e: "entries (log_add bn lg) = Suc (entries lg)" and "0 \<le> sint (lh_n (log_add bn lg))"
    using assms by (simp_all add: log_add_def sint_Suc nat_add_distrib)
  show "blocks (log_add bn lg) = insert bn (blocks lg)"
    using assms(1) e unfolding blocks_def by (auto simp: log_add_def blocks_def lessThan_Suc)
  show "inj_on (lh_block (log_add bn lg)) {..<entries (log_add bn lg)}" if "inj_on (lh_block lg) {..<entries lg}"
    using that assms(1) unfolding e
    by (auto simp: log_add_def blocks_def lessThan_Suc inj_on_def)
qed (simp_all add: log_add_def logblk_def fun_eq_iff)

section \<open>The end of a transaction\<close>

lemma committable_settle:
  assumes "committable dev p s" and "lh_n l = lh_n (log s)" "lh_block l = lh_block (log s)" "lg_start l = lg_start (log s)" "lg_dev l = lg_dev (log s)"
  shows "committable dev p (s\<lparr>mach := settle (mach s), log := l\<rparr>)"
proof -
  have "logblk l = logblk (log s)" using assms(4) by (simp add: logblk_def fun_eq_iff)
  moreover have "spare (s\<lparr>mach := settle (mach s)\<rparr>) = spare s" by (simp add: spare_def refs_def)
  moreover have "quiet dev p (s\<lparr>mach := settle (mach s)\<rparr>) = quiet dev p s" by (simp add: quiet_def bio_ok_def calm_def order_def settle_cache)
  ultimately show ?thesis using assms by (simp add: committable_def log_sep_def settle_cache)
qed

lemma end_op_run:
  fixes s :: "'z log_st_scheme"
  assumes c: "calm p s" and l: "lg_committing (log s) = 0" "lg_outstanding (log s) = 1"
  defines "l1 \<equiv> (log s)\<lparr>lg_outstanding := 0, lg_committing := 1\<rparr>"
  shows "end_op e s = bindK commit (\<lambda>_. seqK [acquire Log_lock, upd_log (\<lambda>r. r\<lparr>lg_committing := 0\<rparr>), wakeup C_log, release Log_lock]) e
     (s\<lparr>mach := settle (mach s), log := l1\<rparr>)"
  using calmD [OF c] l by (simp add: end_op_def run_simps upd_log_def log_get_def l1_def)

lemma end_op_tail:
  fixes s :: "'z log_st_scheme"
  assumes c: "calm p s"
  shows "seqK [acquire Log_lock, upd_log (\<lambda>r. r\<lparr>lg_committing := 0\<rparr>), wakeup C_log, release Log_lock] e s =
     Ok () (s\<lparr>mach := settle (mach s), procs := wake_all C_log (Some p) (procs s), log := (log s)\<lparr>lg_committing := 0\<rparr>\<rparr>)"
proof -
  let ?s = "s\<lparr>mach := acq Log_lock (mach s), log := (log s)\<lparr>lg_committing := 0\<rparr>\<rparr>"
  have "table_free ?s" using calmD [OF c] by (simp add: table_free_def)
  from wakeup_run [OF this] show ?thesis using calmD [OF c] by (simp add: run_simps upd_log_def)
qed

section \<open>Admission\<close>

lemma begin_op_admits:
  fixes s :: "'z log_st_scheme"
  assumes calm: "calm p s" and idle: "lg_committing (log s) = 0"
    and n: "0 \<le> sint (lh_n (log s))" "0 \<le> sint (lg_outstanding (log s))"
      "entries (log s) + MAXOPBLOCKS * (nat (sint (lg_outstanding (log s))) + 1) \<le> LOGSIZE"
  shows "begin_op e s = Ok () (s\<lparr>mach := settle (mach s), log := (log s)\<lparr>lg_outstanding := lg_outstanding (log s) + 1\<rparr>\<rparr>)"
proof -
  have "sint (lh_n (log s) + (lg_outstanding (log s) + 1) * 10) = sint (lh_n (log s)) + (sint (lg_outstanding (log s)) + 1) * 10"
    using n by (simp add: sint_word_ariths signed_take_bit_int_eq_self)
  then have "\<not> sint (lh_n (log s) + (lg_outstanding (log s) + 1) * of_nat MAXOPBLOCKS) > int LOGSIZE" using n by simp
  then show ?thesis
    using calmD [OF calm] idle unfolding begin_op_def
    by (simp add: run_simps upd_log_def log_get_def loopK_unfold [of _ "()"])
qed

lemma log_write_full:
  fixes s :: "'z log_st_scheme"
  assumes "calm p s" and "entries (log s) = 29" "lg_size (log s) = 30"
  shows "log_write b e s = Panic ''too big a transaction''"
proof -
  have "sint (lh_n (log s)) = 29" using assms(2) by simp
  then show ?thesis using assms(3) calmD [OF assms(1)] by (simp add: log_write_def run_simps log_get_def panic_def)
qed

lemma log_writes_fill:
  fixes s :: "'z log_st_scheme"
  assumes "calm p s" and "lg_size (log s) = 30" "1 \<le> sint (lg_outstanding (log s))" "0 \<le> sint (lh_n (log s))"
    and "entries (log s) + length bs \<le> 29" "distinct (map (\<lambda>b. b_blockno (bufs s b)) bs)"
    and "\<forall>b \<in> set bs. b_blockno (bufs s b) \<notin> blocks (log s)"
  shows "\<exists>t. foreachK bs log_write e s = Ok () t \<and> calm p t \<and> entries (log t) = entries (log s) + length bs \<and>
    lg_size (log t) = lg_size (log s)"
  using assms
proof (induction bs arbitrary: s)
  case Nil
  then show ?case by (simp add: returnK_def)
next
  case (Cons b bs)
  let ?bn = "b_blockno (bufs s b)"
  have new: "?bn \<notin> blocks (log s)" and n: "sint (lh_n (log s)) < 29" using Cons.prems(5,7) by auto
  then have n': "sint (lh_n (log s)) < 30" by simp
  note add = log_add_new [OF new Cons.prems(4) n']
  let ?t = "s\<lparr>mach := settle (mach s), bufs := (bufs s)(b := (bufs s b)\<lparr>b_refcnt := b_refcnt (bufs s b) + 1\<rparr>), log := log_add ?bn (log s)\<rparr>"
  have run: "log_write b e s = Ok () ?t"
    using log_write_run [OF Cons.prems(1) _ _ Cons.prems(3) refl, of b e] Cons.prems(2) n new by simp
  have bn: "b_blockno (bufs ?t c) = b_blockno (bufs s c)" for c by simp
  have l: "lg_size (log ?t) = lg_size (log s)" "lg_outstanding (log ?t) = lg_outstanding (log s)" by (simp_all add: log_add_def)
  have "\<exists>u. foreachK bs log_write e ?t = Ok () u \<and> calm p u \<and> entries (log u) = entries (log ?t) + length bs \<and>
    lg_size (log u) = lg_size (log ?t)"
  proof (rule Cons.IH)
    show "calm p ?t" using Cons.prems(1) by (simp add: calm_def)
    show "\<forall>c \<in> set bs. b_blockno (bufs ?t c) \<notin> blocks (log ?t)"
      using Cons.prems(6,7) unfolding bn by (auto simp: add(2) image_iff)
    show "distinct (map (\<lambda>c. b_blockno (bufs ?t c)) bs)" using Cons.prems(6) unfolding bn by simp
  qed (use Cons.prems add l in simp_all)
  then show ?case using run l add(1) by (auto simp: thenK_def bindK_def)
qed

section \<open>Properties\<close>

text \<open>A concrete machine: the cache holds the given buffers, process 0 runs on CPU 0.\<close>

definition log_st0 :: "(nat \<Rightarrow> buf) \<Rightarrow> (u32 \<Rightarrow> byte list) \<Rightarrow> logstate \<Rightarrow> log_st" where
  "log_st0 bf d lg = \<lparr>mach = mach0\<lparr>cpus := (\<lambda>_. cpu0\<lparr>cpu_proc := Some 0\<rparr>)\<rparr>, mem = (\<lambda>_. 0), freelist = 0, kernel_pagetable = 0, satp = 0,
     procs = (\<lambda>_. proc0), nextpid = 1, initproc = None, tfs = (\<lambda>_. tf0), ticks = 0, first = False,
     uart_tx_buf = (\<lambda>_. 0), uart_tx_w = 0, uart_tx_r = 0, uart_out = [], uart_in = [], uart_cfg = [], lsr_reads = 0,
     panicked = False, pr_locking = True, cons_buf = (\<lambda>_. 0), cons_r = 0, cons_w = 0, cons_e = 0,
     sleeplocks = (\<lambda>_. sleeplock0), pipes = (\<lambda>_. \<lparr>pi_data = (\<lambda>_. 0), nread = 0, nwrite = 0, readopen = 0, writeopen = 0\<rparr>),
     bufs = bf, bprev = (\<lambda>r. case r of Bhead \<Rightarrow> B (NBUF - 1) | B 0 \<Rightarrow> Bhead | B (Suc i) \<Rightarrow> B i),
     bnext = (\<lambda>r. case r of Bhead \<Rightarrow> B 0 | B i \<Rightarrow> if i = NBUF - 1 then Bhead else B (Suc i)),
     disk = d, disk_writes = [], log = lg\<rparr>"

definition buf0 :: buf where
  "buf0 = \<lparr>b_valid = 0, b_disk = 0, b_dev = 0, b_blockno = 0, b_refcnt = 0, b_data = []\<rparr>"

lemma log_st0_fields [simp]:
  "bufs (log_st0 bf d lg) = bf" "disk (log_st0 bf d lg) = d" "log (log_st0 bf d lg) = lg" "disk_writes (log_st0 bf d lg) = []"
  "\<not> held (log_st0 bf d lg) i" "sleeplocks (log_st0 bf d lg) = (\<lambda>_. sleeplock0)" "procs (log_st0 bf d lg) = (\<lambda>_. proc0)"
  by (simp_all add: log_st0_def held_def sleeplock0_def)

lemma log_st0_calm: "calm 0 (log_st0 bf d lg)"
  by (simp add: calm_def log_st0_def mach0_def sane_def depth_def clean_def lock0_def cpu0_def cur_def)

lemma log_st0_quiet:
  assumes "dev \<noteq> 0" and "\<And>i. i < NBUF \<Longrightarrow> bf i = buf0 \<or> b_valid (bf i) = 1 \<and> b_dev (bf i) = dev \<and> (b_refcnt (bf i) = 0 \<longrightarrow> b_data (bf i) = d (b_blockno (bf i)))"
    and "\<And>i j. i < NBUF \<Longrightarrow> j < NBUF \<Longrightarrow> b_dev (bf i) = dev \<Longrightarrow> b_dev (bf j) = dev \<Longrightarrow> b_blockno (bf i) = b_blockno (bf j) \<Longrightarrow> i = j"
  shows "quiet dev 0 (log_st0 bf d lg)"
proof -
  have "order (log_st0 bf d lg) [0..<NBUF]"
    unfolding order_def
  proof (intro conjI)
    show "distinct [0..<NBUF]" "set [0..<NBUF] = {..<NBUF}" by (simp_all add: lessThan_atLeast0 del: upt_Suc)
    show "seg (bnext (log_st0 bf d lg)) Bhead [0..<NBUF] Bhead" "seg (bprev (log_st0 bf d lg)) Bhead (rev [0..<NBUF]) Bhead"
      by (simp_all add: log_st0_def upt_rec del: upt_Suc)
  qed
  moreover have "buf_ok dev (p_pid proc0) d sleeplock0 (bf i)" if "i < NBUF" for i
    using assms(2) [OF that] by (auto simp: buf_ok_def buf0_def sleeplock0_def)
  ultimately show ?thesis using log_st0_calm assms(1,3) by (auto simp: quiet_def bio_ok_def caches_def)
qed

text \<open>
  C11. The commit of a transaction is atomic across crashes. \<^verbatim>\<open>commit\<close> returns and makes a
  sequence of disk writes; when the machine stops after any number \<open>k\<close> of them and boots again
  with nothing cached, \<^verbatim>\<open>initlog\<close> returns, and outside of the log the disk then has either every
  old block (the header was not written yet) or every new block of the transaction, with an empty log.
\<close>

theorem commit_crash_atomic:
  fixes s :: "'z log_st_scheme"
  assumes "committable dev p s" and "0 < entries (log s)"
    and "get32 (disk s (lg_start (log s))) 0 = 0" and "length (disk s (lg_start (log s))) = BSIZE"
  shows "wpK commit (\<lambda>_ t. \<exists>ws. disk_writes t = rev ws @ disk_writes s \<and> disk t = write_all ws (disk s) \<and> lh_n (log t) = 0 \<and>
     (\<forall>k q e' sb (r :: 'y log_st_scheme).
        fresh dev q r \<and> disk r = write_all (take k ws) (disk s) \<and> sb_logstart sb = lg_start (log s) \<longrightarrow>
        wpK (initlog dev sb) (\<lambda>_ u. lh_n (log u) = 0 \<and> (\<forall>b. b \<notin> log_area (log s) \<longrightarrow>
          disk u b = (if entries (log s) < k \<and> b \<in> lh_block (log s) ` {..<entries (log s)} then view dev s b else disk s b))) e' r)) e s"
proof (rule wpK_mono [OF commit_spec [OF assms(1) refl assms(2)]])
  let ?lg = "log s" and ?f = "view dev s" and ?g = "disk s"
  let ?ws = "commit_writes ?lg ?f (?g (lg_start ?lg))"
  have sep: "log_sep ?lg" using assms(1) by (simp add: committable_def)
  have boot: "wpK (initlog dev sb) (\<lambda>_ u. lh_n (log u) = 0 \<and> (\<forall>b. b \<notin> log_area ?lg \<longrightarrow>
      disk u b = (if entries ?lg < k \<and> b \<in> lh_block ?lg ` {..<entries ?lg} then ?f b else ?g b))) e' r"
    if r: "fresh dev q r" "disk r = write_all (take k ?ws) ?g" "sb_logstart sb = lg_start ?lg" for k q e' sb and r :: "'y log_st_scheme"
  proof -
    have d: "disk r = crashed k ?lg ?f ?g" by (simp add: r(2) crashed_def)
    have start: "lg_start (opened dev sb (log r)) = lg_start ?lg" by (simp add: opened_def r(3))
    note c = recovered_crashed [where f = ?f and g = ?g, OF sep assms(2-4) start]
    have "log_sep (loaded (opened dev sb (log r)) (disk r (sb_logstart sb)))" using c(1) by (simp add: d r(3))
    from initlog_spec [OF r(1) this] show ?thesis by (rule wpK_mono) (simp add: d c(2))
  qed
  fix u t assume "quiet dev p t \<and> log t = ?lg\<lparr>lh_n := 0\<rparr> \<and> disk t = write_all ?ws ?g \<and> disk_writes t = rev ?ws @ disk_writes s \<and>
     view dev t = write_all ?ws ?f \<and> refs t \<subseteq> refs s \<and> pinned dev t = fold (unpin True) (map (lh_block ?lg) [0..<entries ?lg]) (pinned dev s)"
  then show "\<exists>ws. disk_writes t = rev ws @ disk_writes s \<and> disk t = write_all ws (disk s) \<and> lh_n (log t) = 0 \<and>
     (\<forall>k q e' sb (r :: 'y log_st_scheme).
        fresh dev q r \<and> disk r = write_all (take k ws) (disk s) \<and> sb_logstart sb = lg_start (log s) \<longrightarrow>
        wpK (initlog dev sb) (\<lambda>_ u. lh_n (log u) = 0 \<and> (\<forall>b. b \<notin> log_area (log s) \<longrightarrow>
          disk u b = (if entries (log s) < k \<and> b \<in> lh_block (log s) ` {..<entries (log s)} then view dev s b else disk s b))) e' r)"
    by (intro exI [of _ ?ws] conjI allI impI) (simp, simp, simp, elim conjE, rule boot)
qed

text \<open>One block, 50, has been written by a transaction; the log starts at block 2.\<close>

definition tx_log :: logstate where
  "tx_log = \<lparr>lg_start = 2, lg_size = 30, lg_outstanding = 0, lg_committing = 1, lg_dev = 1, lh_n = 1, lh_block = (\<lambda>_. 50)\<rparr>"

definition tx_bufs :: "nat \<Rightarrow> buf" where
  "tx_bufs = (\<lambda>_. buf0)(3 := \<lparr>b_valid = 1, b_disk = 0, b_dev = 1, b_blockno = 50, b_refcnt = 1, b_data = replicate BSIZE 7\<rparr>)"

definition tx_disk :: "u32 \<Rightarrow> byte list" where
  "tx_disk = (\<lambda>_. replicate BSIZE 0)"

definition tx_sb :: superblock where
  "tx_sb = \<lparr>sb_magic = 0, sb_size = 0, sb_nblocks = 0, sb_ninodes = 0, sb_nlog = 30, sb_logstart = 2, sb_inodestart = 32, sb_bmapstart = 45\<rparr>"

lemma tx_simps [simp]:
  "entries tx_log = 1" "lg_start tx_log = 2" "logblk tx_log 0 = 3" "lh_block tx_log i = 50" "lg_dev tx_log = 1" "log_sep tx_log"
  by (simp_all add: tx_log_def logblk_def log_sep_def lessThan_Suc)

lemma tx_quiet: "quiet 1 0 (log_st0 tx_bufs tx_disk lg)"
  by (rule log_st0_quiet) (auto simp: tx_bufs_def buf0_def split: if_splits)

lemma tx_slot: "slot_of 1 (log_st0 tx_bufs tx_disk lg) n = (if n = 50 then Some 3 else None)"
  using slot_of_eq [of 1 0 "log_st0 tx_bufs tx_disk lg" 3 n] tx_quiet [of lg]
  by (auto simp: quiet_def slot_of_none caches_def tx_bufs_def buf0_def)

lemma tx_committable:
  assumes "entries lg = 1" "lg_start lg = 2" "lg_dev lg = 1" "lh_block lg = (\<lambda>_. 50)"
  shows "committable 1 0 (log_st0 tx_bufs tx_disk lg)"
proof -
  have "0 \<notin> refs (log_st0 tx_bufs tx_disk lg)" by (simp add: refs_def tx_bufs_def buf0_def)
  then have "0 < spare (log_st0 tx_bufs tx_disk lg)" unfolding spare_pos by (auto dest: subsetD [of _ _ 0])
  moreover have "logblk lg 0 = 3" "log_sep lg" using assms by (simp_all add: logblk_def log_sep_def lessThan_Suc)
  ultimately show ?thesis using assms tx_quiet by (simp add: committable_def pinned_def tx_slot) (simp add: tx_bufs_def)
qed

lemma tx_view: "view 1 (log_st0 tx_bufs tx_disk lg) n = (if n = 50 then replicate BSIZE 7 else tx_disk n)"
  by (simp add: view_def tx_slot) (simp add: tx_bufs_def)

lemma tx_fresh: "fresh 1 0 (log_st0 (\<lambda>_. buf0) d lg)"
proof -
  have "quiet 1 0 (log_st0 (\<lambda>_. buf0) d lg)" by (rule log_st0_quiet) (auto simp: buf0_def)
  then show ?thesis by (simp add: fresh_def refs_def buf0_def)
qed

theorem commit_crash_atomic_witness:
  "\<exists>t ws. commit idle_env (log_st0 tx_bufs tx_disk tx_log) = Ok () t \<and> disk_writes t = rev ws \<and>
     (\<exists>u. initlog 1 tx_sb idle_env (log_st0 (\<lambda>_. buf0) (write_all (take 2 ws) tx_disk) tx_log) = Ok () u \<and> disk u 50 = replicate BSIZE 7)"
proof -
  let ?s = "log_st0 tx_bufs tx_disk tx_log"
  have d: "get32 (disk ?s (lg_start (log ?s))) 0 = 0" "length (disk ?s (lg_start (log ?s))) = BSIZE"
    by (simp_all add: tx_disk_def get32_def numeral_eq_Suc)
  have "committable 1 0 ?s" by (rule tx_committable) (simp_all add: tx_log_def)
  note c = commit_crash_atomic [where s = ?s and e = idle_env, OF this _ d]
  obtain t ws where t: "commit idle_env ?s = Ok () t" "disk_writes t = rev ws @ disk_writes ?s"
    and boot: "\<forall>k q e' sb (r :: log_st). fresh 1 q r \<and> disk r = write_all (take k ws) (disk ?s) \<and> sb_logstart sb = lg_start (log ?s) \<longrightarrow>
        wpK (initlog 1 sb) (\<lambda>_ u. lh_n (log u) = 0 \<and> (\<forall>b. b \<notin> log_area (log ?s) \<longrightarrow>
          disk u b = (if entries (log ?s) < k \<and> b \<in> lh_block (log ?s) ` {..<entries (log ?s)} then view 1 ?s b else disk ?s b))) e' r"
    using c [where 'y = unit] unfolding wpK_iff [of commit] by auto
  show ?thesis
    using t boot [rule_format, of 0 "log_st0 (\<lambda>_. buf0) (write_all (take 2 ws) tx_disk) tx_log" 2 tx_sb idle_env] tx_view tx_fresh
    by (auto simp: wpK_iff log_area_def lessThan_Suc tx_sb_def)
qed

text \<open>
  C14. \<^verbatim>\<open>begin_op\<close> admits operations that the log cannot hold. On a file system with the log that mkfs makes
  (\<^verbatim>\<open>LOGSIZE\<close> = 30 blocks, header included), it lets in an operation with which the outstanding operations may log up to
  30 blocks, \<^verbatim>\<open>MAXOPBLOCKS\<close> = 10 for each of them. If these operations then log 29 blocks, within what they are
  allowed, the next \<^verbatim>\<open>log_write\<close> stops the machine.
\<close>

theorem begin_op_overadmits:
  fixes s :: "'z log_st_scheme"
  assumes calm: "calm p s" and idle: "lg_committing (log s) = 0" and size: "lg_size (log s) = of_nat LOGSIZE"
    and n: "0 \<le> sint (lh_n (log s))" "0 \<le> sint (lg_outstanding (log s))"
      "entries (log s) + MAXOPBLOCKS * (nat (sint (lg_outstanding (log s))) + 1) = LOGSIZE"
    and bs: "entries (log s) + length bs = LOGSIZE - 1" "distinct (map (\<lambda>b. b_blockno (bufs s b)) bs)"
      "\<forall>b \<in> set bs. b_blockno (bufs s b) \<notin> blocks (log s)"
  shows "\<exists>t u. begin_op e s = Ok () t \<and> lg_outstanding (log t) = lg_outstanding (log s) + 1 \<and>
    length bs + 1 \<le> MAXOPBLOCKS * nat (sint (lg_outstanding (log t))) \<and>
    foreachK bs log_write e t = Ok () u \<and> entries (log u) = LOGSIZE - 1 \<and>
    (\<forall>b. log_write b e u = Panic ''too big a transaction'')"
proof -
  let ?t = "s\<lparr>mach := settle (mach s), log := (log s)\<lparr>lg_outstanding := lg_outstanding (log s) + 1\<rparr>\<rparr>"
  have o: "sint (lg_outstanding (log s)) \<le> 2" using n(2,3) by simp
  then have o1: "sint (lg_outstanding (log s) + 1) = sint (lg_outstanding (log s)) + 1" by (intro sint_Suc) simp
  have "calm p ?t" using calm by (simp add: calm_def)
  moreover have "entries (log ?t) + length bs \<le> 29" "\<forall>b \<in> set bs. b_blockno (bufs ?t b) \<notin> blocks (log ?t)"
    using bs by (simp_all add: blocks_def)
  ultimately obtain u where u: "foreachK bs log_write e ?t = Ok () u" "calm p u" "entries (log u) = entries (log ?t) + length bs"
    "lg_size (log u) = lg_size (log ?t)"
    using log_writes_fill [where s = ?t and p = p and bs = bs and e = e] size n o1 bs(2) by auto
  then have "log_write b e u = Panic ''too big a transaction''" for b
    using bs(1) size by (intro log_write_full [OF u(2)]) simp_all
  then show ?thesis
    using u begin_op_admits [OF calm idle n(1,2), of e] n(2,3) bs(1) o1
    by (intro exI [of _ ?t] exI [of _ u]) (simp add: nat_add_distrib)
qed

definition full_log :: logstate where
  "full_log = tx_log\<lparr>lh_n := 0, lg_outstanding := 2, lg_committing := 0\<rparr>"

definition full_bufs :: "nat \<Rightarrow> buf" where
  "full_bufs i = \<lparr>b_valid = 1, b_disk = 0, b_dev = 1, b_blockno = 100 + of_nat i, b_refcnt = 1, b_data = []\<rparr>"

theorem begin_op_overadmits_witness:
  "\<exists>t u. begin_op idle_env (log_st0 full_bufs tx_disk full_log) = Ok () t \<and>
     foreachK [0..<29] log_write idle_env t = Ok () u \<and> log_write 29 idle_env u = Panic ''too big a transaction''"
proof -
  let ?s = "log_st0 full_bufs tx_disk full_log"
  have "inj_on (\<lambda>i. 100 + of_nat i :: u32) {0..<29}"
    by (rule inj_onI) (simp add: word_of_nat_eq_iff take_bit_nat_eq_self)
  then have "distinct (map (\<lambda>b. b_blockno (bufs ?s b)) [0..<29])"
    by (simp add: distinct_map full_bufs_def log_st0_def)
  moreover have "calm 0 ?s" by (rule log_st0_calm)
  ultimately show ?thesis
    using begin_op_overadmits [of 0 ?s "[0..<29]" idle_env]
    by (auto simp: full_log_def tx_log_def blocks_def)
qed

text \<open>
  C13. \<^verbatim>\<open>log_write\<close> adds the block of a locked buffer to the transaction, once however often it is
  called (log absorption), and keeps the log consistent: the blocks stay distinct, outside of the
  log, and pinned in the cache. It neither writes to the disk nor changes what readers see.
\<close>

theorem log_write_adds:
  fixes s :: "'z log_st_scheme"
  assumes ok: "bio_ok dev p s" and j: "journal dev s" and b: "b < NBUF" "held s b" and bn: "b_blockno (bufs s b) = bn" "outside (log s) bn"
    and rc: "b_refcnt (bufs s b) \<noteq> - 1" and out: "1 \<le> sint (lg_outstanding (log s))"
    and room: "sint (lh_n (log s)) < int LOGSIZE" "sint (lh_n (log s)) < sint (lg_size (log s) - 1)"
  shows "\<exists>t. log_write b e s = Ok () t \<and> bio_ok dev p t \<and> journal dev t \<and> blocks (log t) = insert bn (blocks (log s)) \<and>
     entries (log t) = entries (log s) + (if bn \<in> blocks (log s) then 0 else 1) \<and>
     held t = held s \<and> view dev t = view dev s \<and> disk t = disk s \<and> disk_writes t = disk_writes s"
proof -
  note run = log_write_run [OF bio_okD(1) [OF ok] room out bn(1) [symmetric], of e]
  show ?thesis
  proof (cases "bn \<in> blocks (log s)")
    case True
    let ?t = "s\<lparr>mach := settle (mach s)\<rparr>"
    have "journal dev ?t = journal dev s" "bio_ok dev p ?t = bio_ok dev p s" "held ?t = held s" "view dev ?t = view dev s"
      using settle_cache [where s = s] by (simp_all add: journal_def bio_ok_def calm_def order_def)
    then show ?thesis using run ok j True by (auto simp: insert_absorb)
  next
    case False
    define u where "u = s\<lparr>mach := settle (mach s), bufs := (bufs s)(b := (bufs s b)\<lparr>b_refcnt := b_refcnt (bufs s b) + 1\<rparr>)\<rparr>"
    have "recounted (\<lambda>c. c + 1) b id s u" using bio_okD(3) [OF ok] by (simp add: recounted_def u_def order_def frame_def)
    then have "repin_ok dev p Suc s b u" by (rule repin_up [OF ok b rc])
    note u = this [unfolded repin_ok_def bn]
    have sl: "sint (lh_n (log s)) < 30" "0 \<le> sint (lh_n (log s))" using room j by (simp_all add: journal_def)
    note add = log_add_new [OF False sl(2,1)]
    have inj: "inj_on (lh_block (log_add bn (log s))) {..<Suc (entries (log s))}" using add(3) j unfolding add(1) by (simp add: journal_def)
    have pin: "pinned dev u = (pinned dev s)(bn := Suc (pinned dev s bn))" using u by simp
    have "log_write b e s = Ok () (u\<lparr>log := log_add bn (log s)\<rparr>)" using run False by (simp add: u_def)
    moreover have "journal dev (u\<lparr>log := log_add bn (log s)\<rparr>)"
      using j bn(2) sl inj pin unfolding journal_def by (auto simp: add(1,2,4-7) outside_def)
    ultimately show ?thesis using u False by (intro exI [of _ "u\<lparr>log := log_add bn (log s)\<rparr>"]) (simp add: add)
  qed
qed

theorem log_write_adds_witness:
  "\<exists>b t u. bread 1 60 idle_env (log_st0 tx_bufs tx_disk (tx_log\<lparr>lg_outstanding := 1\<rparr>)) = Ok b t \<and>
     log_write b idle_env t = Ok () u \<and> blocks (log u) = {50, 60} \<and> entries (log u) = 2"
proof -
  let ?l = "tx_log\<lparr>lg_outstanding := 1\<rparr>"
  let ?s = "log_st0 tx_bufs tx_disk ?l"
  have q: "bio_ok 1 0 ?s" using tx_quiet by (simp add: quiet_def)
  have pin: "pinned 1 ?s n = (if n = 50 then 1 else 0)" for n by (simp add: pinned_def tx_slot) (simp add: tx_bufs_def)
  have l: "logblk ?l = (\<lambda>i. 3 + of_nat i)" "blocks ?l = {50}" "lg_start ?l = 2" "entries ?l = 1" "lg_dev ?l = 1"
    by (simp_all add: logblk_def tx_log_def fun_eq_iff blocks_def lessThan_Suc)
  have far: "(of_nat j :: u32) \<noteq> 47" "(of_nat j :: u32) \<noteq> 57" if "j < 30" for j
  proof -
    have "(of_nat j :: u32) \<noteq> of_nat 47" "(of_nat j :: u32) \<noteq> of_nat 57"
      using that unfolding word_of_nat_eq_iff by (simp_all add: take_bit_nat_eq_self)
    then show "(of_nat j :: u32) \<noteq> 47" "(of_nat j :: u32) \<noteq> 57" by simp_all
  qed
  have j: "journal 1 ?s" using far pin by (simp add: journal_def l outside_def) (auto simp: tx_log_def lessThan_Suc)
  have "available 1 ?s 60"
    by (simp add: available_def tx_slot) (rule exI [of _ 0], simp add: tx_bufs_def buf0_def)
  from bread_spec [OF q this, of idle_env] obtain b t where run: "bread 1 60 idle_env ?s = Ok b t" and r: "read_ok 1 0 60 ?s b t"
    unfolding wpK_iff by blast
  note r = r [unfolded read_ok_def]
  have log: "log t = ?l" using frame_log [of ?s t] r by simp
  have t: "bio_ok 1 0 t" "held t b" "b < NBUF" "b_blockno (bufs t b) = 60" "pinned 1 t = pinned 1 ?s" using r by simp_all
  have "pinned 1 t 60 = 0" using t(5) pin [of 60] by simp
  then have "unat (b_refcnt (bufs t b)) - 1 = 0" using view_held(1) [OF t(1,3,2)] t(2,4) by (simp add: pinned_def)
  then have "b_refcnt (bufs t b) \<noteq> - 1" by (auto simp: unsigned_minus_1_eq_mask mask_eq_exp_minus_1)
  note add = log_write_adds [where s = t and e = idle_env, OF t(1) _ t(3,2,4) _ this]
  have "\<exists>u. log_write b idle_env t = Ok () u \<and> bio_ok 1 0 u \<and> journal 1 u \<and> blocks (log u) = insert 60 (blocks (log t)) \<and>
     entries (log u) = entries (log t) + (if 60 \<in> blocks (log t) then 0 else 1) \<and>
     held u = held t \<and> view 1 u = view 1 t \<and> disk u = disk t \<and> disk_writes u = disk_writes t"
    using j t(5) far by (intro add) (simp_all add: log journal_def l outside_def, auto simp: tx_log_def)
  then show ?thesis using run by (auto simp: log l)
qed

text \<open>
  C12. When the last outstanding operation ends, its transaction becomes durable. If only blocks
  of the transaction differ between the cache and the disk, then \<^verbatim>\<open>end_op\<close> returns with
  an empty log that is open for the next transaction, and outside of the log every block of the disk holds what readers saw.
\<close>

theorem end_op_durable:
  fixes s :: "'z log_st_scheme"
  assumes c: "committable dev p s" and n: "0 < entries (log s)" and l: "lg_committing (log s) = 0" "lg_outstanding (log s) = 1"
    and dirty: "\<And>b. b \<notin> blocks (log s) \<Longrightarrow> view dev s b = disk s b"
  shows "\<exists>t. end_op e s = Ok () t \<and> lh_n (log t) = 0 \<and> lg_committing (log t) = 0 \<and> lg_outstanding (log t) = 0 \<and>
     (\<forall>b. b \<notin> log_area (log s) \<longrightarrow> disk t b = view dev s b)"
proof -
  have calm: "calm p s" using c by (simp add: committable_def quiet_def bio_ok_def)
  let ?l = "(log s)\<lparr>lg_outstanding := 0, lg_committing := 1\<rparr>"
  let ?s = "s\<lparr>mach := settle (mach s), log := ?l\<rparr>"
  have "committable dev p ?s" by (rule committable_settle [OF c]) simp_all
  note spec = commit_spec [where s = ?s and e = e, OF this refl]
  have "0 < entries (log ?s)" using n by simp
  from spec [OF this] obtain t where t: "commit e ?s = Ok () t" "quiet dev p t" "log t = ?l\<lparr>lh_n := 0\<rparr>"
    "disk t = write_all (commit_writes ?l (view dev s) (disk s (lg_start (log s)))) (disk s)"
    unfolding wpK_iff by (auto simp: settle_cache)
  have calmt: "calm p t" using t(2) by (simp add: quiet_def bio_ok_def)
  have "disk t b = view dev s b" if "b \<notin> log_area (log s)" for b
  proof -
    have "b \<noteq> lg_start (log s)" "b \<notin> fst ` set (to_log ?l (view dev s) (entries (log s)))"
      using that by (auto simp: log_area_def fst_to_log logblk_def)
    then show ?thesis using dirty [of b] by (auto simp: t(4) commit_writes_def home_new blocks_def write_all_other)
  qed
  then show ?thesis
    unfolding end_op_run [OF calm l] bindK_def t(1) outcome.case end_op_tail [OF calmt] using t(3) by simp
qed


theorem end_op_durable_witness:
  "\<exists>t. end_op idle_env (log_st0 tx_bufs tx_disk (tx_log\<lparr>lg_outstanding := 1, lg_committing := 0\<rparr>)) = Ok () t \<and>
     lh_n (log t) = 0 \<and> disk t 50 = replicate BSIZE 7"
proof -
  let ?s = "log_st0 tx_bufs tx_disk (tx_log\<lparr>lg_outstanding := 1, lg_committing := 0\<rparr>)"
  have c: "committable 1 0 ?s" by (rule tx_committable) (simp_all add: tx_log_def)
  have b: "blocks (log ?s) = {50}" "log_area (log ?s) = {2, 3}" by (simp_all add: blocks_def log_area_def tx_log_def logblk_def lessThan_Suc)
  have "view 1 ?s n = disk ?s n" if "n \<notin> blocks (log ?s)" for n using that by (simp only: b) (simp add: tx_view)
  from end_op_durable [OF c _ _ _ this, of idle_env, unfolded b(2)] show ?thesis by (auto simp: tx_view)
qed

end
