(* ===== verification/Frames.thy ===== *)
theory Frames
  imports Proc_Ops
begin

text \<open>
  What the memory operations leave alone. The page allocator and \<^verbatim>\<open>kernel/vm.c\<close> change the machine
  state, the physical memory and the free list only; so a property of the rest of the kernel
  state (the process table, the file table, the disk) survives every one of them. The locale
  \<open>memory_blind\<close> states that once for all such properties.
\<close>

locale memory_blind =
  fixes I :: "'z kmem_st_scheme \<Rightarrow> bool"
  assumes mach_blind: "I s \<Longrightarrow> I (s\<lparr>mach := m\<rparr>)"
    and mem_blind: "I s \<Longrightarrow> I (s\<lparr>mem := mm\<rparr>)"
    and freelist_blind: "I s \<Longrightarrow> I (s\<lparr>freelist := f\<rparr>)"
begin

lemma keep_mach [keeps]: "keepsK I (upd_mach f)" "keepsK I (upd_cpu c g)" "keepsK I (upd_lock lk h)"
  unfolding upd_cpu_def upd_lock_def upd_mach_def by (rule keeps_modify, erule mach_blind)+

lemma keep_mem [keeps]: "keepsK I (upd_mem f)"
  unfolding upd_mem_def by (rule keeps_modify) (erule mem_blind)

lemma keep_intr [keeps]: "keepsK I intr_on" "keepsK I intr_off" "keepsK I intr_get" "keepsK I mycpu" "keepsK I (holding lk)"
  unfolding intr_on_def intr_off_def intr_get_def mycpu_def cpuid_def holding_def by (intro keeps)+

lemma keep_locks [keeps]: "keepsK I push_off" "keepsK I pop_off" "keepsK I (acquire lk)" "keepsK I (release lk)"
proof -
  show push: "keepsK I push_off" unfolding push_off_def by (intro keeps)
  show pop: "keepsK I pop_off" unfolding pop_off_def by (intro keeps)
  show "keepsK I (acquire lk)" unfolding acquire_def test_and_set_def by (intro keeps push)
  show "keepsK I (release lk)" unfolding release_def by (intro keeps pop)
qed

lemma keep_kalloc [keeps]: "keepsK I kalloc" "keepsK I (kfree pa)"
  unfolding kalloc_def kfree_def
  by (auto intro!: keeps keeps_modify intro: mem_blind freelist_blind)

lemma keep_walk_loop [keeps]: "keepsK I (walk_loop n pt va alloc)"
  by (induction n arbitrary: pt) (auto intro!: keeps)

lemma keep_walk [keeps]: "keepsK I (walk pt va alloc)" "keepsK I (walkaddr pt va)"
proof -
  show walk: "keepsK I (walk pt va alloc)" for alloc unfolding walk_def by (intro keeps)
  show "keepsK I (walkaddr pt va)" unfolding walkaddr_def by (intro keeps walk)
qed

lemma keep_mappages [keeps]: "keepsK I (mappages pt va sz pa perm)" "keepsK I (kvmmap pt va pa sz perm)"
proof -
  have "keepsK I (map_body pt perm fin i)" for fin i unfolding map_body_def by (cases i) (auto intro!: keeps)
  then show m: "keepsK I (mappages pt va sz pa perm)" unfolding mappages_def by (intro keeps)
  show "keepsK I (kvmmap pt va pa sz perm)" unfolding kvmmap_def by (intro keeps m)
qed

lemma keep_uvmunmap [keeps]: "keepsK I (uvmunmap pt va n free)"
proof -
  have "keepsK I (unmap_body pt fin free a)" for fin a unfolding unmap_body_def by (intro keeps)
  then show ?thesis unfolding uvmunmap_def by (intro keeps)
qed

lemma keep_uvmalloc [keeps]: "keepsK I uvmcreate" "keepsK I (uvmdealloc pt old new)" "keepsK I (uvmalloc pt old new x)"
proof -
  show "keepsK I uvmcreate" unfolding uvmcreate_def by (intro keeps)
  show d: "keepsK I (uvmdealloc pt old new)" for old new unfolding uvmdealloc_def Let_def by (intro keeps)
  show "keepsK I (uvmalloc pt old new x)" unfolding uvmalloc_def Let_def by (intro keeps d)
qed

lemma keep_uvmfree [keeps]: "keepsK I (freewalk n pt)" "keepsK I (uvmfree pt sz)"
proof -
  show f: "keepsK I (freewalk n pt)" for n pt
  proof (induction n arbitrary: pt)
    case 0
    show ?case by (simp add: keepsK_def)
  next
    case (Suc n)
    show ?case unfolding freewalk.simps by (intro keeps Suc)
  qed
  show "keepsK I (uvmfree pt sz)" unfolding uvmfree_def by (intro keeps f)
qed

lemma keep_uvmcopy [keeps]: "keepsK I (uvmcopy old new sz)" "keepsK I (uvmclear pt va)"
  unfolding uvmcopy_def uvmclear_def Let_def by (intro keeps)+

lemma keep_copy [keeps]: "keepsK I (copyout pt dst src len)" "keepsK I (copyin pt d sva len)" "keepsK I (copyinstr pt d sva mx)"
proof -
  have "keepsK I (copyout_body pt i)" for i unfolding copyout_body_def Let_def by (cases i) (auto intro!: keeps)
  then show "keepsK I (copyout pt dst src len)" unfolding copyout_def by (intro keeps)
  have "keepsK I (copyin_body pt i)" for i unfolding copyin_body_def Let_def by (cases i) (auto intro!: keeps)
  then show "keepsK I (copyin pt d sva len)" unfolding copyin_def by (intro keeps)
  have "keepsK I (copyinstr_body pt i)" for i
    unfolding copyinstr_body_def Let_def by (cases i) (auto intro!: keeps split: prod.split)
  then show "keepsK I (copyinstr pt d sva mx)" unfolding copyinstr_def by (intro keeps)
qed

end

text \<open>The process table, in particular, is not changed by any of them.\<close>

interpretation procs_kept: memory_blind "\<lambda>s. Q (procs s)" for Q :: "(nat \<Rightarrow> proc) \<Rightarrow> bool"
  by unfold_locales simp_all

end
