(* ===== verification/User.thy ===== *)
theory User
  imports Printf Bytes
begin

text \<open>
  User programs. A program is a computation over the state of the world outside the process; a
  system call of \<^verbatim>\<open>user/usys.pl\<close> is a value of \<open>ucall\<close>, and the operating system, as a program
  sees it, a function from calls to a result and the bytes the kernel stores for the
  caller. Strings are lists of bytes without the terminating zero; \<^verbatim>\<open>exit\<close> ends the program
  (\<open>Gone\<close>) and leaves the status in \<open>exited\<close>; so does an \<^verbatim>\<open>exec\<close> that succeeds, after which the process runs
  the program noted in \<open>replaced\<close>.

  The first part is the library \<^verbatim>\<open>user/ulib.c\<close>, the second part the small programs.
\<close>

datatype ucall =
    Ufork | Uwait | Upipe | Uread i32 nat | Uwrite i32 "byte list" | Uclose i32 | Ukill i32
  | Uexec "byte list" "byte list list" | Uopen "byte list" i32 | Umknod "byte list" i32 i32 | Uunlink "byte list"
  | Ufstat i32 | Ulink "byte list" "byte list" | Umkdir "byte list" | Uchdir "byte list" | Udup i32 | Ugetpid
  | Usbrk i32 | Usleep i32 | Uuptime | Umemsize | Uco_yield i32 i32

type_synonym 'w os = "ucall \<Rightarrow> 'w \<Rightarrow> (i32 \<times> byte list) \<times> 'w"

record 'w ust =
  world :: 'w
  exited :: "i32 option"
  replaced :: "(byte list \<times> byte list list) option"

definition usys :: "'w os \<Rightarrow> ucall \<Rightarrow> ('w ust, i32 \<times> byte list) K" where
  "usys os c e s = (case os c (world s) of (r, w) \<Rightarrow> Ok r (s\<lparr>world := w\<rparr>))"

definition ucall_int :: "'w os \<Rightarrow> ucall \<Rightarrow> ('w ust, i32) K" where
  "ucall_int os c = bindK (usys os c) (\<lambda>r. returnK (fst r))"

definition ucall_void :: "'w os \<Rightarrow> ucall \<Rightarrow> ('w ust, unit) K" where
  "ucall_void os c = bindK (usys os c) (\<lambda>_. returnK ())"

definition uexit :: "i32 \<Rightarrow> ('w ust, 'a) K" where
  "uexit n e s = Gone (s\<lparr>exited := Some n\<rparr>)"

text \<open>\<^verbatim>\<open>exec\<close> returns to its caller only when it fails, with -1.\<close>

definition uexec :: "'w os \<Rightarrow> byte list \<Rightarrow> byte list list \<Rightarrow> ('w ust, i32) K" where
  "uexec os path argv =
     bindK (ucall_int os (Uexec path argv)) (\<lambda>r.
     if sint r < 0 then returnK r else (\<lambda>e s. Gone (s\<lparr>replaced := Some (path, argv)\<rparr>)))"

section \<open>The library\<close>

fun ustrcmp :: "byte list \<Rightarrow> byte list \<Rightarrow> i32" where
  "ustrcmp (c # p) (d # q) = (if c = d then ustrcmp p q else ucast c - ucast d)"
| "ustrcmp (c # p) [] = ucast c"
| "ustrcmp [] (d # q) = - ucast d"
| "ustrcmp [] [] = 0"

definition ustrlen :: "byte list \<Rightarrow> u32" where
  "ustrlen s = of_nat (length s)"

text \<open>The rest of the string from the first occurrence on; \<^verbatim>\<open>None\<close> for the null pointer.\<close>

fun ustrchr :: "byte list \<Rightarrow> byte \<Rightarrow> byte list option" where
  "ustrchr [] c = None"
| "ustrchr (d # s) c = (if d = c then Some (d # s) else ustrchr s c)"

fun uatoi_loop :: "i32 \<Rightarrow> byte list \<Rightarrow> i32" where
  "uatoi_loop n (c # s) = (if ch CHR ''0'' \<le> c \<and> c \<le> ch CHR ''9'' then uatoi_loop (n * 10 + ucast c - ucast (ch CHR ''0'')) s else n)"
| "uatoi_loop n [] = n"

definition uatoi :: "byte list \<Rightarrow> i32" where
  "uatoi s = uatoi_loop 0 s"

text \<open>The buffers of \<^verbatim>\<open>memset\<close>, \<^verbatim>\<open>memmove\<close> and \<^verbatim>\<open>memcmp\<close> are byte memory.\<close>

primrec umemset_loop :: "nat \<Rightarrow> mem \<Rightarrow> addr \<Rightarrow> byte \<Rightarrow> mem" where
  "umemset_loop 0 m dst c = m"
| "umemset_loop (Suc i) m dst c = (umemset_loop i m dst c)(dst + of_nat i := c)"

definition umemset :: "mem \<Rightarrow> addr \<Rightarrow> i32 \<Rightarrow> u32 \<Rightarrow> mem" where
  "umemset m dst c n = umemset_loop (unat n) m dst (ucast c)"

primrec ucopy_up :: "nat \<Rightarrow> mem \<Rightarrow> addr \<Rightarrow> addr \<Rightarrow> mem" where
  "ucopy_up 0 m d s = m"
| "ucopy_up (Suc n) m d s = ucopy_up n (m(d := m s)) (d + 1) (s + 1)"

primrec ucopy_down :: "nat \<Rightarrow> mem \<Rightarrow> addr \<Rightarrow> addr \<Rightarrow> mem" where
  "ucopy_down 0 m d s = m"
| "ucopy_down (Suc n) m d s = ucopy_down n (m(d - 1 := m (s - 1))) (d - 1) (s - 1)"

definition umemmove :: "mem \<Rightarrow> addr \<Rightarrow> addr \<Rightarrow> i32 \<Rightarrow> mem" where
  "umemmove m dst src n =
     (if src > dst then ucopy_up (nat (sint n)) m dst src
      else ucopy_down (nat (sint n)) m (dst + scast n) (src + scast n))"

primrec umemcmp_loop :: "nat \<Rightarrow> mem \<Rightarrow> addr \<Rightarrow> addr \<Rightarrow> i32" where
  "umemcmp_loop 0 m p1 p2 = 0"
| "umemcmp_loop (Suc n) m p1 p2 = (if m p1 \<noteq> m p2 then ucast (m p1) - ucast (m p2) else umemcmp_loop n m (p1 + 1) (p2 + 1))"

definition umemcmp :: "mem \<Rightarrow> addr \<Rightarrow> addr \<Rightarrow> u32 \<Rightarrow> i32" where
  "umemcmp m s1 s2 n = umemcmp_loop (unat n) m s1 s2"

definition umemcpy :: "mem \<Rightarrow> addr \<Rightarrow> addr \<Rightarrow> u32 \<Rightarrow> mem" where
  "umemcpy m dst src n = umemmove m dst src n"

text \<open>\<^verbatim>\<open>strcpy\<close> ends only when the source has a terminating zero.\<close>

partial_function (option) ustrcpy :: "mem \<Rightarrow> addr \<Rightarrow> addr \<Rightarrow> mem option" where
  "ustrcpy m s t = (if m t = 0 then Some (m(s := 0)) else ustrcpy (m(s := m t)) (s + 1) (t + 1))"

definition gets :: "'w os \<Rightarrow> i32 \<Rightarrow> ('w ust, byte list) K" where
  "gets os mx = loopK (\<lambda>buf.
     if int (length buf) + 1 < sint mx then
       bindK (usys os (Uread 0 1)) (\<lambda>(cc, cs).
       if sint cc < 1 then returnK (Inr buf) else
       let c = hd cs; buf' = buf @ [c] in
       if c = 10 \<or> c = 13 then returnK (Inr buf') else returnK (Inl buf'))
     else returnK (Inr buf)) []"

definition ustat :: "'w os \<Rightarrow> byte list \<Rightarrow> ('w ust, i32 \<times> byte list) K" where
  "ustat os n =
     bindK (ucall_int os (Uopen n 0)) (\<lambda>fd.
     if sint fd < 0 then returnK (-1, []) else
     bindK (usys os (Ufstat fd)) (\<lambda>r.
     thenK (ucall_void os (Uclose fd)) (returnK r)))"

text \<open>Every character is written by a system call of its own.\<close>

definition ufprintf :: "'w os \<Rightarrow> i32 \<Rightarrow> string \<Rightarrow> farg list \<Rightarrow> ('w ust, unit) K" where
  "ufprintf os fd fmt args =
     (case vprintf False (str fmt) args of
        None \<Rightarrow> panic ''undefined''
      | Some out \<Rightarrow> foreachK out (\<lambda>c. ucall_void os (Uwrite fd [c])))"

definition uprintf :: "'w os \<Rightarrow> string \<Rightarrow> farg list \<Rightarrow> ('w ust, unit) K" where
  "uprintf os fmt args = ufprintf os 1 fmt args"

text \<open>\<^verbatim>\<open>_main\<close>, where a program starts: a program that returns from \<^verbatim>\<open>main\<close> exits with 0.\<close>

definition start_main :: "('w ust, unit) K \<Rightarrow> ('w ust, unit) K" where
  "start_main main = thenK main (uexit 0)"


section \<open>The small programs\<close>

text \<open>A format string that ends in a newline.\<close>

abbreviation ln :: "string \<Rightarrow> string" where
  "ln s \<equiv> s @ [CHR 0x0A]"

definition cat :: "'w os \<Rightarrow> i32 \<Rightarrow> ('w ust, unit) K" where
  "cat os fd = loopK (\<lambda>_.
     bindK (usys os (Uread fd 512)) (\<lambda>(n, buf).
     if sint n > 0 then
       bindK (ucall_int os (Uwrite 1 (take (nat (sint n)) buf))) (\<lambda>r.
       if r \<noteq> n then thenK (ufprintf os 2 (ln ''cat: write error'') []) (uexit 1)
       else returnK (Inl ()))
     else if sint n < 0 then thenK (ufprintf os 2 (ln ''cat: read error'') []) (uexit 1)
     else returnK (Inr ()))) ()"

definition cat_main :: "'w os \<Rightarrow> byte list list \<Rightarrow> ('w ust, unit) K" where
  "cat_main os argv =
     (if length argv \<le> 1 then thenK (cat os 0) (uexit 0) else
      thenK (foreachK (tl argv) (\<lambda>a.
        bindK (ucall_int os (Uopen a 0)) (\<lambda>fd.
        if sint fd < 0 then thenK (ufprintf os 2 (ln ''cat: cannot open %s'') [Fstr (Some a)]) (uexit 1) else
        thenK (cat os fd) (ucall_void os (Uclose fd)))))
      (uexit 0))"

text \<open>The counters of \<^verbatim>\<open>wc\<close>: lines, words, characters, and whether the last byte was in a word.\<close>

definition wc_space :: "byte list" where
  "wc_space = [32, 13, 9, 10, 11]"

definition wc_byte :: "i32 \<times> i32 \<times> i32 \<times> bool \<Rightarrow> byte \<Rightarrow> i32 \<times> i32 \<times> i32 \<times> bool" where
  "wc_byte = (\<lambda>(l, w, c, inword) b.
     let c = c + 1; l = (if b = 10 then l + 1 else l) in
     if ustrchr wc_space b \<noteq> None then (l, w, c, False)
     else if \<not> inword then (l, w + 1, c, True) else (l, w, c, inword))"

definition wc :: "'w os \<Rightarrow> i32 \<Rightarrow> byte list \<Rightarrow> ('w ust, unit) K" where
  "wc os fd name =
     bindK (loopK (\<lambda>st.
       bindK (usys os (Uread fd 512)) (\<lambda>(n, buf).
       if sint n > 0 then returnK (Inl (foldl wc_byte st (take (nat (sint n)) buf)))
       else if sint n < 0 then thenK (uprintf os (ln ''wc: read error'') []) (uexit 1)
       else returnK (Inr st))) (0, 0, 0, False)) (\<lambda>(l, w, c, inword).
     uprintf os (ln ''%d %d %d %s'') [Fint l, Fint w, Fint c, Fstr (Some name)])"

definition wc_main :: "'w os \<Rightarrow> byte list list \<Rightarrow> ('w ust, unit) K" where
  "wc_main os argv =
     (if length argv \<le> 1 then thenK (wc os 0 []) (uexit 0) else
      thenK (foreachK (tl argv) (\<lambda>a.
        bindK (ucall_int os (Uopen a 0)) (\<lambda>fd.
        if sint fd < 0 then thenK (uprintf os (ln ''wc: cannot open %s'') [Fstr (Some a)]) (uexit 1) else
        thenK (wc os fd a) (ucall_void os (Uclose fd)))))
      (uexit 0))"

primrec echo_args :: "'w os \<Rightarrow> byte list list \<Rightarrow> ('w ust, unit) K" where
  "echo_args os [] = returnK ()"
| "echo_args os (a # as) =
     thenK (ucall_void os (Uwrite 1 a)) (
     thenK (ucall_void os (Uwrite 1 (if as \<noteq> [] then [32] else [10])))
       (echo_args os as))"

definition echo_main :: "'w os \<Rightarrow> byte list list \<Rightarrow> ('w ust, unit) K" where
  "echo_main os argv = thenK (echo_args os (tl argv)) (uexit 0)"

definition kill_main :: "'w os \<Rightarrow> byte list list \<Rightarrow> ('w ust, unit) K" where
  "kill_main os argv =
     (if length argv < 2 then thenK (ufprintf os 2 (ln ''usage: kill pid...'') []) (uexit 1) else
      thenK (foreachK (tl argv) (\<lambda>a. ucall_void os (Ukill (uatoi a)))) (uexit 0))"

definition ln_main :: "'w os \<Rightarrow> byte list list \<Rightarrow> ('w ust, unit) K" where
  "ln_main os argv =
     (if length argv \<noteq> 3 then thenK (ufprintf os 2 (ln ''Usage: ln old new'') []) (uexit 1) else
      bindK (ucall_int os (Ulink (argv ! 1) (argv ! 2))) (\<lambda>r.
      thenK (whenK (sint r < 0) (ufprintf os 2 (ln ''link %s %s: failed'') [Fstr (Some (argv ! 1)), Fstr (Some (argv ! 2))]))
        (uexit 0)))"

text \<open>The loop of \<^verbatim>\<open>mkdir\<close> and \<^verbatim>\<open>rm\<close>: stop at the first name that fails.\<close>

definition try_each :: "'w os \<Rightarrow> (byte list \<Rightarrow> ucall) \<Rightarrow> string \<Rightarrow> byte list list \<Rightarrow> ('w ust, unit) K" where
  "try_each os f msg as =
     bindK (forK as (\<lambda>a.
       bindK (ucall_int os (f a)) (\<lambda>r.
       if sint r < 0 then thenK (ufprintf os 2 (ln msg) [Fstr (Some a)]) (returnK (Some ())) else returnK None)))
     (\<lambda>_. returnK ())"

definition mkdir_main :: "'w os \<Rightarrow> byte list list \<Rightarrow> ('w ust, unit) K" where
  "mkdir_main os argv =
     (if length argv < 2 then thenK (ufprintf os 2 (ln ''Usage: mkdir files...'') []) (uexit 1) else
      thenK (try_each os Umkdir ''mkdir: %s failed to create'' (tl argv)) (uexit 0))"

definition rm_main :: "'w os \<Rightarrow> byte list list \<Rightarrow> ('w ust, unit) K" where
  "rm_main os argv =
     (if length argv < 2 then thenK (ufprintf os 2 (ln ''Usage: rm files...'') []) (uexit 1) else
      thenK (try_each os Uunlink ''rm: %s failed to delete'' (tl argv)) (uexit 0))"

definition zombie_main :: "'w os \<Rightarrow> ('w ust, unit) K" where
  "zombie_main os =
     bindK (ucall_int os Ufork) (\<lambda>pid.
     thenK (whenK (sint pid > 0) (ucall_void os (Usleep 5))) (uexit 0))"

definition helloworld_main :: "'w os \<Rightarrow> ('w ust, unit) K" where
  "helloworld_main os = thenK (uprintf os (ln ''Hello World xv6'') []) (uexit 0)"

definition init_main :: "'w os \<Rightarrow> ('w ust, unit) K" where
  "init_main os =
     bindK (ucall_int os (Uopen (str ''console'') 2)) (\<lambda>r.
     thenK (whenK (sint r < 0) (thenK (ucall_void os (Umknod (str ''console'') 1 0)) (ucall_void os (Uopen (str ''console'') 2)))) (
     thenK (ucall_void os (Udup 0)) (
     thenK (ucall_void os (Udup 0)) (
     loopK (\<lambda>_.
       thenK (uprintf os (ln ''init: starting sh'') []) (
       bindK (ucall_int os Ufork) (\<lambda>pid.
       if sint pid < 0 then thenK (uprintf os (ln ''init: fork failed'') []) (uexit 1)
       else if pid = 0 then
         thenK (uexec os (str ''sh'') [str ''sh'']) (
         thenK (uprintf os (ln ''init: exec sh failed'') []) (uexit 1))
       else
         bindK (loopK (\<lambda>_.
           bindK (ucall_int os Uwait) (\<lambda>wpid.
           if wpid = pid then returnK (Inr ())
           else if sint wpid < 0 then thenK (uprintf os (ln ''init: wait returned an error'') []) (uexit 1)
           else returnK (Inl ()))) ()) (\<lambda>_. returnK (Inl ()))))) ()))))"

section \<open>Listing directories\<close>

text \<open>The part of a path after its last slash, padded with blanks to \<^verbatim>\<open>DIRSIZ\<close> characters.\<close>

definition fmtname :: "byte list \<Rightarrow> byte list" where
  "fmtname path =
     (let p = rev (takeWhile (\<lambda>c. c \<noteq> ch CHR ''/'') (rev path)) in
      if length p \<ge> 14 then p else p @ replicate (14 - length p) 32)"

text \<open>The fields of \<^verbatim>\<open>struct stat\<close> as the kernel lays them out.\<close>

definition st_ino :: "byte list \<Rightarrow> u32" where
  "st_ino st = word_of (take 4 (drop 4 st))"

definition st_type :: "byte list \<Rightarrow> u16" where
  "st_type st = word_of (take 2 (drop 8 st))"

definition st_size :: "byte list \<Rightarrow> u64" where
  "st_size st = word_of (take 8 (drop 16 st))"

definition ls_entry :: "'w os \<Rightarrow> byte list \<Rightarrow> byte list \<Rightarrow> ('w ust, unit) K" where
  "ls_entry os path de =
     (if word_of (take 2 de) = (0 :: u16) then returnK () else
      let buf = path @ [ch CHR ''/''] @ takeWhile (\<lambda>c. c \<noteq> 0) (take 14 (drop 2 de)) in
      bindK (ustat os buf) (\<lambda>(r, st).
      if sint r < 0 then uprintf os (ln ''ls: cannot stat %s'') [Fstr (Some buf)] else
      uprintf os (ln ''%s %d %d %d'')
        [Fstr (Some (fmtname buf)), Fint (scast (st_type st)), Fint (st_ino st), Fint (ucast (st_size st))]))"

definition ls :: "'w os \<Rightarrow> byte list \<Rightarrow> ('w ust, unit) K" where
  "ls os path =
     bindK (ucall_int os (Uopen path 0)) (\<lambda>fd.
     if sint fd < 0 then ufprintf os 2 (ln ''ls: cannot open %s'') [Fstr (Some path)] else
     bindK (usys os (Ufstat fd)) (\<lambda>(r, st).
     if sint r < 0 then
       thenK (ufprintf os 2 (ln ''ls: cannot stat %s'') [Fstr (Some path)]) (ucall_void os (Uclose fd)) else
     thenK
       (if st_type st = 3 \<or> st_type st = 2 then
          uprintf os (ln ''%s %d %d %l'')
            [Fstr (Some (fmtname path)), Fint (scast (st_type st)), Fint (st_ino st), Flong (st_size st)]
        else if st_type st = 1 then
          (if length path + 1 + 14 + 1 > 512 then uprintf os (ln ''ls: path too long'') [] else
           loopK (\<lambda>_.
             bindK (usys os (Uread fd 16)) (\<lambda>(n, de).
             if n = 16 then thenK (ls_entry os path de) (returnK (Inl ())) else returnK (Inr ()))) ())
        else returnK ())
       (ucall_void os (Uclose fd))))"

definition ls_main :: "'w os \<Rightarrow> byte list list \<Rightarrow> ('w ust, unit) K" where
  "ls_main os argv =
     (if length argv < 2 then thenK (ls os (str ''.'')) (uexit 0) else
      thenK (foreachK (tl argv) (ls os)) (uexit 0))"

section \<open>The test of coroutines\<close>

definition run_error_tests :: "'w os \<Rightarrow> ('w ust, unit) K" where
  "run_error_tests os =
     bindK (ucall_int os (Uco_yield 9999 1)) (\<lambda>r.
     thenK (uprintf os (ln ''invalid pid: %d'') [Fint r]) (
     bindK (ucall_int os Ugetpid) (\<lambda>self.
     bindK (ucall_int os (Uco_yield self 1)) (\<lambda>r.
     thenK (uprintf os (ln ''self yield: %d'') [Fint r]) (
     bindK (ucall_int os Ufork) (\<lambda>pid.
     if sint pid < 0 then thenK (uprintf os (ln ''fork failed'') []) (uexit 1)
     else if pid = 0 then loopK (\<lambda>_. thenK (ucall_void os (Usleep 100)) (returnK (Inl ()))) ()
     else
       thenK (ucall_void os (Usleep 1)) (
       thenK (ucall_void os (Ukill pid)) (
       bindK (ucall_int os (Uco_yield pid 1)) (\<lambda>r.
       thenK (uprintf os (ln ''killed target: %d'') [Fint r]) (
       ucall_void os Uwait))))))))))"

definition co_test_main :: "'w os \<Rightarrow> ('w ust, unit) K" where
  "co_test_main os =
     thenK (run_error_tests os) (
     bindK (ucall_int os Ugetpid) (\<lambda>pid1.
     bindK (ucall_int os Ufork) (\<lambda>pid2.
     if sint pid2 < 0 then thenK (uprintf os (ln ''fork failed'') []) (uexit 1)
     else if pid2 = 0 then
       loopK (\<lambda>_.
         bindK (ucall_int os (Uco_yield pid1 1)) (\<lambda>v.
         thenK (uprintf os (ln ''Child received: %d'') [Fint v]) (returnK (Inl ())))) ()
     else
       loopK (\<lambda>_.
         bindK (ucall_int os (Uco_yield pid2 2)) (\<lambda>v.
         thenK (uprintf os (ln ''parent received: %d'') [Fint v]) (returnK (Inl ())))) ())))"

section \<open>Numbers read back\<close>

lemma uatoi_snoc:
  assumes "\<forall>c \<in> set (s @ [d]). ch CHR ''0'' \<le> c \<and> c \<le> ch CHR ''9''"
  shows "uatoi_loop n (s @ [d]) = uatoi_loop n s * 10 + ucast d - ucast (ch CHR ''0'')"
  using assms by (induction s arbitrary: n) auto

lemma udigit_decimal:
  assumes "k < 10"
  shows "ch CHR ''0'' \<le> udigits ! k" "udigits ! k \<le> ch CHR ''9''"
    "ucast (udigits ! k) - ucast (ch CHR ''0'') = (of_nat k :: i32)"
proof -
  have "k = 0 \<or> k = 1 \<or> k = 2 \<or> k = 3 \<or> k = 4 \<or> k = 5 \<or> k = 6 \<or> k = 7 \<or> k = 8 \<or> k = 9" using assms by arith
  then show "ch CHR ''0'' \<le> udigits ! k" "udigits ! k \<le> ch CHR ''9''"
    "ucast (udigits ! k) - ucast (ch CHR ''0'') = (of_nat k :: i32)"
    by (auto simp: udigits_def str_def ch_def)
qed

lemma uatoi_digits:
  "(\<forall>c \<in> set (digit_loop udigits 10 x). ch CHR ''0'' \<le> c \<and> c \<le> ch CHR ''9'') \<and>
   uatoi_loop 0 (rev (digit_loop udigits 10 x)) = of_nat x"
proof (induction x rule: less_induct)
  case (less x)
  note d = digit_loop.simps [of udigits 10 x]
  note u = udigit_decimal [of "x mod 10", simplified]
  show ?case
  proof (cases "x div 10 = 0")
    case True
    then show ?thesis using u d by simp
  next
    case False
    then have IH: "\<forall>c \<in> set (digit_loop udigits 10 (x div 10)). ch CHR ''0'' \<le> c \<and> c \<le> ch CHR ''9''"
      "uatoi_loop 0 (rev (digit_loop udigits 10 (x div 10))) = of_nat (x div 10)"
      using less [of "x div 10"] by simp_all
    have "of_nat x = of_nat (x div 10) * 10 + (of_nat (x mod 10) :: i32)"
      by (metis div_mult_mod_eq of_nat_add of_nat_mult of_nat_numeral)
    then show ?thesis using False IH u d by (simp add: uatoi_snoc add_diff_eq [symmetric])
  qed
qed

text \<open>
  C24. \<^verbatim>\<open>atoi\<close> reads a number printed with \<^verbatim>\<open>%d\<close> back, and a negative one as 0: \<^verbatim>\<open>kill\<close> of the output of \<^verbatim>\<open>getpid\<close>
  names the same process.
\<close>

theorem atoi_printed: "uatoi (uprintint n 10 True) = (if sint n < 0 then 0 else n)"
proof (cases "sint n < 0")
  case True
  then show ?thesis by (simp add: uatoi_def uprintint_def Let_def ch_def)
next
  case False
  then show ?thesis using uatoi_digits [of "unat n"] by (simp add: uatoi_def uprintint_def Let_def)
qed

end
