(* ===== verification/Pipe_Calls.thy ===== *)
theory Pipe_Calls
  imports Pipe_Ops Syscall
begin

text \<open>
  \<^verbatim>\<open>read\<close> and \<^verbatim>\<open>write\<close> as a process issues them: the arguments go into the registers of the trapframe, \<^verbatim>\<open>syscall\<close>
  dispatches to \<^verbatim>\<open>sys_read\<close> and \<^verbatim>\<open>sys_write\<close>, these find the open file, and \<^verbatim>\<open>fileread\<close> and
  \<^verbatim>\<open>filewrite\<close> call \<^verbatim>\<open>piperead\<close> and \<^verbatim>\<open>pipewrite\<close>. The process has a pipe without writer as its standard input
  and another pipe as its standard output.
\<close>

section \<open>System calls\<close>

definition ecall3 :: "u64 \<Rightarrow> u64 \<Rightarrow> u64 \<Rightarrow> u64 \<Rightarrow> ('z file_st_scheme, u64) K" where
  "ecall3 num a0 a1 a2 =
     bindK curproc (\<lambda>p.
     thenK (upd_tf p (\<lambda>t. t\<lparr>regs := (regs t)(A7 := num, A0 := a0, A1 := a1, A2 := a2)\<rparr>)) (
     thenK syscall (tf_get p (\<lambda>t. regs t A0))))"

record plumbing =
  pl_proc :: nat
  pl_in :: addr
  pl_out :: addr
  pl_buf :: u64

definition pl_pt :: "plumbing \<Rightarrow> 'z file_st_scheme \<Rightarrow> pagetable" where
  "pl_pt g s = p_pagetable (procs s (pl_proc g))"

text \<open>Which pipe is open on descriptor \<open>fd\<close>, for reading or writing.\<close>

definition opened :: "plumbing \<Rightarrow> nat \<Rightarrow> 'z file_st_scheme \<Rightarrow> kfile option" where
  "opened g fd s = map_option (ftable s) (p_ofile (procs s (pl_proc g)) fd)"

definition plumbed :: "plumbing \<Rightarrow> 'z file_st_scheme \<Rightarrow> bool" where
  "plumbed g s \<longleftrightarrow> pipe_caller (pl_in g) (pl_proc g) s \<and> pipe_caller (pl_out g) (pl_proc g) s \<and> pl_in g \<noteq> pl_out g \<and>
     p_killed (procs s (pl_proc g)) = 0 \<and> writeopen (pipes s (pl_in g)) = 0 \<and>
     pq.bounded (pipes s (pl_in g)) \<and> pq.bounded (pipes s (pl_out g)) \<and>
     (\<exists>f. opened g 0 s = Some f \<and> f_type f = FD_PIPE \<and> f_readable f \<and> f_pipe f = pl_in g) \<and>
     (\<exists>f. opened g 1 s = Some f \<and> f_type f = FD_PIPE \<and> f_writable f \<and> f_pipe f = pl_out g) \<and>
     PIPESIZE \<le> page_room (pl_buf g) \<and> upage (mem s) (pl_pt g s) (pl_buf g) \<noteq> 0"

text \<open>The registers of the process when it has made the call, and when the call has returned.\<close>

definition called :: "plumbing \<Rightarrow> u64 \<Rightarrow> u64 \<Rightarrow> u64 \<Rightarrow> 'z file_st_scheme \<Rightarrow> 'z file_st_scheme" where
  "called g num a0 n s = (let tf = p_trapframe (procs s (pl_proc g)) in
     s\<lparr>mach := settle (mach s), tfs := (tfs s)(tf := (tfs s tf)\<lparr>regs := (regs (tfs s tf))(A7 := num, A0 := a0, A1 := pl_buf g, A2 := n)\<rparr>)\<rparr>)"

lemma called_simps [simp]:
  "mach (called g num a0 n s) = settle (mach s)" "mem (called g num a0 n s) = mem s" "procs (called g num a0 n s) = procs s"
  "pipes (called g num a0 n s) = pipes s" "ftable (called g num a0 n s) = ftable s"
  "pl_pt g (called g num a0 n s) = pl_pt g s" "opened g fd (called g num a0 n s) = opened g fd s"
  "pipe_caller pi pr (called g num a0 n s) = pipe_caller pi pr s"
  by (simp_all add: called_def Let_def pl_pt_def opened_def pipe_caller_def table_free_def)

lemma plumbed_called [simp]: "plumbed g (called g num a0 n s) = plumbed g s"
  by (simp add: plumbed_def)

definition returned :: "plumbing \<Rightarrow> i32 \<Rightarrow> 'z file_st_scheme \<Rightarrow> 'z file_st_scheme" where
  "returned g r s = (let tf = p_trapframe (procs s (pl_proc g)) in s\<lparr>tfs := (tfs s)(tf := set_reg A0 (scast r) (tfs s tf))\<rparr>)"

lemma returned_simps [simp]:
  "mach (returned g r s) = mach s" "mem (returned g r s) = mem s" "procs (returned g r s) = procs s"
  "pipes (returned g r s) = pipes s" "ftable (returned g r s) = ftable s"
  "pl_pt g (returned g r s) = pl_pt g s" "opened g fd (returned g r s) = opened g fd s"
  "pipe_caller pi pr (returned g r s) = pipe_caller pi pr s"
  by (simp_all add: returned_def Let_def pl_pt_def opened_def pipe_caller_def table_free_def)

lemma plumbed_returned [simp]: "plumbed g (returned g r s) = plumbed g s"
  by (simp add: plumbed_def)

lemma plumbedD:
  assumes "plumbed g s"
  shows "pipe_caller (pl_in g) (pl_proc g) s" "pipe_caller (pl_out g) (pl_proc g) s" "pl_in g \<noteq> pl_out g"
    "p_killed (procs s (pl_proc g)) = 0" "writeopen (pipes s (pl_in g)) = 0" "pq.bounded (pipes s (pl_in g))"
    "pq.bounded (pipes s (pl_out g))" "PIPESIZE \<le> page_room (pl_buf g)" "upage (mem s) (pl_pt g s) (pl_buf g) \<noteq> 0"
    "sane (mach s)" "cur (mach s) = Some (pl_proc g)" "uspace_ok (mem s) (pl_pt g s)"
  using assms by (simp_all add: plumbed_def pipe_caller_def table_free_def pl_pt_def)

lemma nat_arg: "(ucast (of_nat n :: u64) :: i32) = of_nat n"
  by (simp add: unsigned_of_nat word_of_nat_eq_iff)

lemma ecall_read:
  assumes g: "plumbed g s" and run: "piperead (pl_in g) (pl_buf g) (of_nat n) e (called g 5 0 (of_nat n) s) = Ok r t"
  shows "ecall3 5 0 (pl_buf g) (of_nat n) e s = Ok (scast r) (returned g r t)"
proof -
  obtain f where f: "p_ofile (procs s (pl_proc g)) 0 = Some f" "f_type (ftable s f) = FD_PIPE" "f_readable (ftable s f)" "f_pipe (ftable s f) = pl_in g"
    using g by (auto simp: plumbed_def opened_def)
  show ?thesis using f plumbedD(10,11) [OF g] run nat_arg [of n]
    unfolding ecall3_def syscall_def syscalls_def sys_read_def argaddr_def argint_def argraw_def argfd_def fileread_def
    by (simp add: curproc_run monad_defs upd_tf_def tf_get_def proc_get_def file_get_def called_def returned_def set_reg_def Let_def)
qed

lemma ecall_write:
  assumes g: "plumbed g s" and run: "pipewrite (pl_out g) (pl_buf g) (of_nat n) e (called g 16 1 (of_nat n) s) = Ok r t"
  shows "ecall3 16 1 (pl_buf g) (of_nat n) e s = Ok (scast r) (returned g r t)"
proof -
  obtain f where f: "p_ofile (procs s (pl_proc g)) 1 = Some f" "f_type (ftable s f) = FD_PIPE" "f_writable (ftable s f)" "f_pipe (ftable s f) = pl_out g"
    using g by (auto simp: plumbed_def opened_def)
  show ?thesis using f plumbedD(10,11) [OF g] run nat_arg [of n]
    unfolding ecall3_def syscall_def syscalls_def sys_write_def argaddr_def argint_def argraw_def argfd_def filewrite_def
    by (simp add: curproc_run monad_defs upd_tf_def tf_get_def proc_get_def file_get_def called_def returned_def set_reg_def Let_def)
qed

section \<open>Reading\<close>

lemma ucopied_space:
  assumes "uspace_ok m pt" and "ucopied pt va bs k m m'"
  shows "uspace_ok m' pt"
proof (rule uspace_frame(1) [OF assms(1)], intro allI impI)
  fix x assume "PGROUNDDOWN x \<in> tables m pt"
  then have "PGROUNDDOWN x \<notin> upages m pt" using assms(1) unfolding uspace_ok_def by blast
  then show "m' x = m x" using assms(2) by (simp add: ucopied_def)
qed

lemma wake_all_me [simp]: "wake_all c (Some p) ps p = ps p"
  by (simp add: wake_all_def)

lemma scast_nat: "k < 2 ^ 31 \<Longrightarrow> (scast (of_nat k :: i32) :: u64) = of_nat k"
  by (simp add: scast_eq)

lemma in_buffer:
  assumes "PIPESIZE \<le> page_room va" "upage m pt va \<noteq> 0" "k < PIPESIZE"
  shows "upage m pt (va + of_nat k) \<noteq> 0"
proof -
  have "unat (of_nat k :: u64) = k" using assms(3) by (simp add: PIPESIZE_def unat_of_nat)
  then have "PGROUNDDOWN (va + of_nat k) = PGROUNDDOWN va" using assms by (intro within_page) simp
  then show ?thesis using upage_same_page assms(2) by metis
qed

definition pl_input :: "plumbing \<Rightarrow> 'z file_st_scheme \<Rightarrow> byte list" where
  "pl_input g s = pq.content (pipes s (pl_in g))"

definition pl_output :: "plumbing \<Rightarrow> 'z file_st_scheme \<Rightarrow> byte list" where
  "pl_output g s = pq.content (pipes s (pl_out g))"

lemma pl_sizes: "plumbed g s \<Longrightarrow> length (pl_input g s) \<le> PIPESIZE" "plumbed g s \<Longrightarrow> length (pl_output g s) \<le> PIPESIZE"
  using plumbedD(6,7) [of g s] by (simp_all add: pl_input_def pl_output_def pq.bounded_def)

lemma plumbed_step:
  assumes g: "plumbed g s" and "mach t = mach s \<or> mach t = settle (mach s)" "procs t (pl_proc g) = procs s (pl_proc g)" "ftable t = ftable s"
    and "uspace_ok (mem t) (pl_pt g s)" "upage (mem t) (pl_pt g s) (pl_buf g) = upage (mem s) (pl_pt g s) (pl_buf g)"
    and "writeopen (pipes t (pl_in g)) = 0" "pq.bounded (pipes t (pl_in g))" "pq.bounded (pipes t (pl_out g))"
  shows "plumbed g t"
  using assms by (auto simp: plumbed_def pipe_caller_def table_free_def pl_pt_def opened_def)

lemma pops_writeopen [simp]: "writeopen ((pipe_pop ^^ k) p) = writeopen p"
  by (induction k) (simp_all add: pipe_pop_def)

lemma pushes_writeopen [simp]: "writeopen (fold pipe_push bs p) = writeopen p"
  by (induction bs arbitrary: p) (simp_all add: pipe_push_def)

lemma read_call:
  assumes g: "plumbed g s" and n: "n < 2 ^ 31"
  obtains t where "ecall3 5 0 (pl_buf g) (of_nat n) e s = Ok (of_nat (min n (length (pl_input g s)))) t" "plumbed g t"
    "pl_input g t = drop n (pl_input g s)" "pipes t (pl_out g) = pipes s (pl_out g)"
    "\<And>i. i < min n (length (pl_input g s)) \<Longrightarrow> ubyte (mem t) (pl_pt g t) (pl_buf g + of_nat i) = Some (pl_input g s ! i)"
proof -
  note d = plumbedD [OF g]
  let ?c = "called g 5 0 (of_nat n) s" and ?xs = "pl_input g s"
  let ?k = "min n (length ?xs)"
  have sn: "sint (of_nat n :: i32) = int n" using n by simp
  have pc: "pipe_caller (pl_in g) (pl_proc g) ?c" using d(1) by simp
  have k: "?k \<le> PIPESIZE" using pl_sizes(1) [OF g] by simp
  obtain k' j m where r: "k' \<le> ?k" "piperead (pl_in g) (pl_buf g) (of_nat n) e ?c = Ok (of_nat k')
      (?c\<lparr>mach := settle (mach ?c), mem := m, procs := wake_all (C_pipe_nwrite (pl_in g)) (Some (pl_proc g)) (procs ?c),
          pipes := (pipes ?c)(pl_in g := (pipe_pop ^^ j) (pipes ?c (pl_in g)))\<rparr>)"
    and cp: "ucopied (pl_pt g s) (pl_buf g) ?xs k' (mem s) m"
    and "k' = ?k \<and> j = k' \<or> k' < ?k \<and> j = Suc k' \<and> upage (mem s) (pl_pt g s) (pl_buf g + of_nat k') = 0"
    using piperead_run [OF pc, of "of_nat n" "pl_buf g" e] d(5) sn
    unfolding wpK_iff pl_input_def pl_pt_def by auto
  then have k': "k' = ?k \<and> j = ?k" using in_buffer [OF d(8,9), of k'] k by linarith
  let ?t = "?c\<lparr>mach := settle (mach ?c), mem := m, procs := wake_all (C_pipe_nwrite (pl_in g)) (Some (pl_proc g)) (procs ?c),
          pipes := (pipes ?c)(pl_in g := (pipe_pop ^^ ?k) (pipes ?c (pl_in g)))\<rparr>"
  have content: "pq.content ((pipe_pop ^^ ?k) (pipes s (pl_in g))) = drop ?k ?xs"
    unfolding pl_input_def by (rule pq.pops_content) (simp add: pl_input_def)
  have cp: "ucopied (pl_pt g s) (pl_buf g) ?xs ?k (mem s) m" using cp k' by simp
  have "pq.bounded ((pipe_pop ^^ ?k) (pipes s (pl_in g)))"
    using arg_cong [OF content, of length] pl_sizes(1) [OF g] by (simp add: pq.bounded_def)
  then have pg: "plumbed g ?t"
    using d(3,5,7) ucopied_space [OF d(12) cp] ucopied_upage [OF cp] by (intro plumbed_step [OF g]) (simp_all add: pl_pt_def)
  have "ubyte m (pl_pt g s) (pl_buf g + of_nat i) = Some (?xs ! i)" if "i < ?k" for i
    using cp that n by (simp add: ucopied_def unat_of_nat)
  moreover have "drop ?k ?xs = drop n ?xs" by (simp add: min_def)
  moreover have "?k < 2 ^ 31" using n by simp
  ultimately show thesis
    using ecall_read [OF g r(2)] pg content d(3)
    by (intro that [of "returned g (of_nat ?k) ?t"]) (simp_all add: k' scast_nat pl_input_def pl_pt_def del: of_nat_min)
qed

section \<open>Writing\<close>

text \<open>The process stores bytes into its buffer.\<close>

definition user_store :: "plumbing \<Rightarrow> byte list \<Rightarrow> 'z file_st_scheme \<Rightarrow> 'z file_st_scheme" where
  "user_store g bs s = s\<lparr>mem := write_bytes (mem s) (upage (mem s) (pl_pt g s) (pl_buf g) + (pl_buf g - PGROUNDDOWN (pl_buf g))) bs\<rparr>"

lemma user_store_simps [simp]:
  "pipes (user_store g bs s) = pipes s" "pl_pt g (user_store g bs s) = pl_pt g s"
  "pl_input g (user_store g bs s) = pl_input g s" "pl_output g (user_store g bs s) = pl_output g s"
  by (simp_all add: user_store_def pl_pt_def pl_input_def pl_output_def)

lemma user_store_ok:
  assumes g: "plumbed g s" and len: "length bs \<le> PIPESIZE"
  shows "plumbed g (user_store g bs s)" "uread (mem (user_store g bs s)) (pl_pt g s) (pl_buf g) bs"
proof -
  note d = plumbedD [OF g]
  have "length bs \<le> page_room (pl_buf g)" using d(8) len by simp
  note w = uwrite_page [OF d(12) refl d(9) this]
  show "plumbed g (user_store g bs s)"
    using w(2,3) d(5-7) by (intro plumbed_step [OF g]) (simp_all add: user_store_def pl_pt_def)
  have "unat (of_nat i :: u64) = i" if "i < length bs" for i using that len by (simp add: PIPESIZE_def unat_of_nat)
  then show "uread (mem (user_store g bs s)) (pl_pt g s) (pl_buf g) bs"
    using w(5) by (simp add: uread_def user_store_def)
qed

lemma uread_unique: "uread m pt va bs \<Longrightarrow> uread m pt va cs \<Longrightarrow> length bs = length cs \<Longrightarrow> bs = cs"
  by (rule nth_equalityI) (auto simp: uread_def)

lemma write_call:
  assumes g: "plumbed g s" and bs: "uread (mem s) (pl_pt g s) (pl_buf g) bs" and op: "readopen (pipes s (pl_out g)) \<noteq> 0"
    and room: "length (pl_output g s) + length bs \<le> PIPESIZE"
  obtains t where "ecall3 16 1 (pl_buf g) (of_nat (length bs)) e s = Ok (of_nat (length bs)) t" "plumbed g t"
    "pl_output g t = pl_output g s @ bs" "pipes t (pl_in g) = pipes s (pl_in g)" "readopen (pipes t (pl_out g)) \<noteq> 0"
proof -
  note d = plumbedD [OF g]
  let ?n = "length bs" and ?o = "pl_out g"
  let ?c = "called g 16 1 (of_nat ?n) s"
  have n: "?n < 2 ^ 31" "?n \<le> PIPESIZE" using room by (simp_all add: PIPESIZE_def)
  then have sn: "sint (of_nat ?n :: i32) = int ?n" by simp
  have pc: "pipe_caller ?o (pl_proc g) ?c" using d(2) by simp
  have "wpK (pipewrite ?o (pl_buf g) (of_nat ?n)) (write_done ?o (pl_proc g) (pl_buf g) (nat (sint (of_nat ?n :: i32))) ?c) e ?c"
    using op d(4) sn room by (intro pipewrite_run [OF pc]) (simp_all add: pl_output_def)
  then obtain cs where cs: "length cs \<le> ?n" "uread (mem s) (pl_pt g s) (pl_buf g) cs"
      "length cs < ?n \<longrightarrow> upage (mem s) (pl_pt g s) (pl_buf g + of_nat (length cs)) = 0"
    and run: "pipewrite ?o (pl_buf g) (of_nat ?n) e ?c = Ok (of_nat (length cs)) (wrote ?o (pl_proc g) cs ?c)"
    unfolding wpK_iff write_done_def sn by (auto simp: pl_pt_def)
  have "length cs = ?n"
  proof (rule ccontr)
    assume "length cs \<noteq> ?n"
    then show False using cs(1,3) in_buffer [OF d(8,9), of "length cs"] n(2) by simp
  qed
  then have eq: "cs = bs" using uread_unique cs(2) bs by blast
  let ?t = "wrote ?o (pl_proc g) bs ?c"
  have content: "pq.content (fold pipe_push bs (pipes s ?o)) = pq.content (pipes s ?o) @ bs"
    using room by (intro pq.pushes_content) (simp add: pl_output_def)
  have "pq.bounded (fold pipe_push bs (pipes s ?o))"
    using arg_cong [OF content, of length] room by (simp add: pq.bounded_def pl_output_def)
  then have "plumbed g ?t" using d(3,5,6,12) by (intro plumbed_step [OF g]) (simp_all add: wrote_def)
  then show thesis
    using ecall_write [OF g run] content op d(3) n(1)
    by (intro that [of "returned g (of_nat ?n) ?t"]) (simp_all add: eq scast_nat pl_output_def wrote_def)
qed

lemma write_call_closed:
  assumes g: "plumbed g s" and op: "readopen (pipes s (pl_out g)) = 0" and n: "0 < n" "n < 2 ^ 31"
  shows "\<exists>t. ecall3 16 1 (pl_buf g) (of_nat n) e s = Ok (- 1) t"
proof -
  note d = plumbedD [OF g]
  let ?o = "pl_out g" and ?c = "called g 16 1 (of_nat n) s"
  have pc: "pipe_caller ?o (pl_proc g) ?c" using d(2) by simp
  let ?i = "in_pipe ?o (mem ?c) (pipes ?c ?o) ?c"
  have "?i\<lparr>procs := procs ?c\<rparr> = ?i" by (simp add: in_pipe_def)
  then obtain t where rel: "release (Pipe_lock ?o) e ?i = Ok () t"
    using in_pipe_release [OF pc, where m = "mem ?c" and p = "pipes ?c ?o" and ps = "procs ?c" and e = e] by metis
  have "0 < sint (of_nat n :: i32)" using n by simp
  then have "pipewrite_body ?o (pl_proc g) (pl_buf g) (of_nat n) 0 e ?i = Ok (Inr (- 1)) t"
    using op rel by (simp add: pipewrite_body_def Let_def monad_defs pipe_get_def)
  then have "pipewrite ?o (pl_buf g) (of_nat n) e ?c = Ok (- 1) t"
    using pipe_callerD [OF pc] pipe_enter [OF pc, of e]
    by (simp add: pipewrite_def curproc_run thenK_def bindK_def loopK_unfold [of _ 0])
  from ecall_write [OF g this] show ?thesis by simp
qed

end
