(* ===== verification/Streams.thy ===== *)
theory Streams
  imports User Pipe_Calls
begin

text \<open>
  The contract between the byte streams of the kernel and the programs that read and write them:
  \<open>byte_stream\<close> says what \<^verbatim>\<open>read\<close> and \<^verbatim>\<open>write\<close> promise to \<^verbatim>\<open>cat\<close>, \<^verbatim>\<open>wc\<close> and \<^verbatim>\<open>grep\<close>. A read returns between one
  and the requested number of the bytes that come next, however the kernel cuts them up, and
  nothing only at the end of the input; a write to the standard output appends all its bytes as long as there
  is room for them, and fails when nobody can read them any more. The theory shows that the system calls
  of the kernel on pipes keep the contract (interpretation \<open>ps\<close>, over \<^verbatim>\<open>syscall\<close>, \<^verbatim>\<open>sys_read\<close>, \<^verbatim>\<open>sys_write\<close>, \<^verbatim>\<open>fileread\<close>,
  \<^verbatim>\<open>filewrite\<close>, \<^verbatim>\<open>piperead\<close> and \<^verbatim>\<open>pipewrite\<close>) and what the programs do under it.
\<close>

locale byte_stream =
  fixes os :: "'w os" and fd :: i32 and ok :: "'w \<Rightarrow> bool"
    and pending :: "'w \<Rightarrow> byte list" and written :: "'w \<Rightarrow> byte list" and room :: "'w \<Rightarrow> nat" and broken :: "'w \<Rightarrow> bool"
  assumes read_chunk: "\<lbrakk>ok w; 0 < n; n < 2 ^ 31\<rbrakk> \<Longrightarrow>
      \<exists>k w'. os (Uread fd n) w = ((of_nat k, take k (pending w)), w') \<and> k \<le> n \<and> k \<le> length (pending w) \<and>
        (k = 0 \<longrightarrow> pending w = []) \<and> ok w' \<and> pending w' = drop k (pending w) \<and> written w' = written w \<and>
        room w' = room w \<and> broken w' = broken w"
    and write_all_bytes: "\<lbrakk>ok w; \<not> broken w; length bs \<le> room w; length bs < 2 ^ 31\<rbrakk> \<Longrightarrow>
      \<exists>w'. os (Uwrite 1 bs) w = ((of_nat (length bs), []), w') \<and> ok w' \<and> pending w' = pending w \<and>
        written w' = written w @ bs \<and> room w' = room w - length bs \<and> \<not> broken w'"
    and write_broken: "\<lbrakk>ok w; broken w; bs \<noteq> []; length bs \<le> 512\<rbrakk> \<Longrightarrow> \<exists>w'. os (Uwrite 1 bs) w = ((- 1, []), w')"
begin

definition streams :: "byte list \<Rightarrow> byte list \<Rightarrow> nat \<Rightarrow> 'w ust \<Rightarrow> bool" where
  "streams i out n s \<longleftrightarrow> ok (world s) \<and> \<not> broken (world s) \<and> pending (world s) = i \<and> written (world s) = out \<and> n \<le> room (world s)"

lemma read_wp:
  assumes "streams i out r s" and "0 < n" "n < 2 ^ 31"
    and "\<And>k t. \<lbrakk>k \<le> n; k \<le> length i; k = 0 \<Longrightarrow> i = []; streams (drop k i) out r t\<rbrakk> \<Longrightarrow> Q (of_nat k, take k i) t"
  shows "wpK (usys os (Uread fd n)) Q e s"
proof -
  obtain k w where "os (Uread fd n) (world s) = ((of_nat k, take k i), w)" "k \<le> n" "k \<le> length i"
    "k = 0 \<longrightarrow> i = []" "ok w" "\<not> broken w" "pending w = drop k i" "written w = out" "r \<le> room w"
    using read_chunk [of "world s" n] assms(1-3) by (auto simp: streams_def)
  then show ?thesis using assms(4) [of k "s\<lparr>world := w\<rparr>"] by (simp add: wpK_def usys_def streams_def)
qed

lemma write_wp:
  assumes "streams i out r s" and "length bs < 2 ^ 31" "length bs \<le> r"
    and "\<And>t. streams i (out @ bs) (r - length bs) t \<Longrightarrow> Q (of_nat (length bs)) t"
  shows "wpK (ucall_int os (Uwrite 1 bs)) Q e s"
proof -
  obtain w where "os (Uwrite 1 bs) (world s) = ((of_nat (length bs), []), w)" "ok w" "pending w = i" "written w = out @ bs"
    "r - length bs \<le> room w" "\<not> broken w"
    using write_all_bytes [of "world s" bs] assms(1-3) by (auto simp: streams_def)
  then show ?thesis using assms(4) [of "s\<lparr>world := w\<rparr>"]
    by (simp add: wp ucall_int_def) (simp add: wpK_def usys_def streams_def)
qed

lemma put_wp:
  assumes "streams i out r s" and "length bs < 2 ^ 31" "length bs \<le> r" and "\<And>t. streams i (out @ bs) (r - length bs) t \<Longrightarrow> Q () t"
  shows "wpK (ucall_void os (Uwrite 1 bs)) Q e s"
proof -
  have "wpK (ucall_int os (Uwrite 1 bs)) (\<lambda>_. Q ()) e s"
    using assms(1-3) by (rule write_wp) (rule assms(4))
  then show ?thesis by (simp add: wp ucall_int_def ucall_void_def)
qed

lemma puts_wp:
  assumes "streams i out r s" and "length bs \<le> r" and "\<And>t. streams i (out @ bs) (r - length bs) t \<Longrightarrow> Q () t"
  shows "wpK (foreachK bs (\<lambda>c. ucall_void os (Uwrite 1 [c]))) Q e s"
  using assms
proof (induction bs arbitrary: out r s)
  case Nil
  then show ?case by (simp add: wp)
next
  case (Cons b bs)
  show ?case unfolding wp_foreach_Cons
    by (rule put_wp [OF Cons.prems(1)]) (use Cons.prems(2) in \<open>auto intro!: Cons.IH Cons.prems(3)\<close>)
qed

lemma uprintf_wp:
  assumes "streams i out r s" and "vprintf False (str fmt) args = Some bs" and "length bs \<le> r"
    and "\<And>t. streams i (out @ bs) (r - length bs) t \<Longrightarrow> Q () t"
  shows "wpK (uprintf os fmt args) Q e s"
  using puts_wp [OF assms(1,3), of Q] assms(2,4) by (simp add: uprintf_def ufprintf_def)

lemma cat_wp:
  assumes "streams i out (length i) s"
  shows "wpK (cat os fd) (\<lambda>_ t. streams [] (out @ i) 0 t) e s"
  unfolding cat_def
proof (rule wp_loop_measure [where f = "\<lambda>_ t. length (pending (world t))"
      and I = "\<lambda>_ t. \<exists>a b. out @ i = a @ b \<and> streams b a (length b) t"], goal_cases)
  case 2
  then show ?case using assms by blast
next
  case (1 j t)
  then obtain a b where ab: "out @ i = a @ b" and st: "streams b a (length b) t" by blast
  show ?case unfolding wp_bind
  proof (rule read_wp [OF st], goal_cases)
    case (3 k u)
    have n: "sint (of_nat k :: i32) = int k" using 3(1) by simp
    show ?case
    proof (cases "k = 0")
      case True
      then show ?thesis using 3(3,4) ab by (simp add: wp)
    next
      case False
      have "wpK (ucall_int os (Uwrite 1 (take k b))) (\<lambda>r u. r = of_nat k \<and> streams (drop k b) (a @ take k b) (length b - k) u) e u"
        using 3(1,2) by (intro write_wp [OF 3(4)]) (simp_all add: min_absorb2)
      moreover have "(\<exists>c d. out @ i = c @ d \<and> streams d c (length d) u) \<and> length (pending (world u)) < length (pending (world t))"
        if "streams (drop k b) (a @ take k b) (length b - k) u" for u
        using that st ab False 3(2) by (auto simp: streams_def intro!: exI [of _ "a @ take k b"] exI [of _ "drop k b"])
      ultimately show ?thesis using False n 3(2) by (auto simp: wp elim!: wpK_mono)
    qed
  qed simp_all
qed

lemma fprintf_runs: "\<exists>t. foreachK bs (\<lambda>c. ucall_void os (Uwrite x [c])) e s = Ok () t"
  by (induction bs arbitrary: s) (auto simp: monad_defs ucall_void_def usys_def split: prod.splits)

lemma cat_broken:
  assumes "ok (world s)" "broken (world s)" "pending (world s) \<noteq> []"
  shows "\<exists>t. cat os fd e s = Gone t \<and> exited t = Some 1"
proof -
  obtain k w where r: "os (Uread fd 512) (world s) = ((of_nat k, take k (pending (world s))), w)" "k \<le> 512" "k \<noteq> 0"
    "k \<le> length (pending (world s))" "ok w" "broken w"
    using read_chunk [OF assms(1), of 512] assms(2,3) by auto
  let ?bs = "take k (pending (world s))"
  have "?bs \<noteq> []" "length ?bs \<le> 512" using r by auto
  then obtain w' where w: "os (Uwrite 1 ?bs) w = ((- 1, []), w')" using write_broken [OF r(5,6)] by blast
  have k: "sint (of_nat k :: i32) = int k" using r(2) by simp
  have k1: "(of_nat k :: i32) \<noteq> - 1"
  proof
    assume "(of_nat k :: i32) = - 1"
    then have "sint (of_nat k :: i32) = - 1" by (simp only:) simp
    then show False using k by simp
  qed
  define msg where "msg = ufprintf os 2 (ln ''cat: write error'') []"
  have "vprintf False (str (ln ''cat: write error'')) [] \<noteq> None" by (simp add: str_def ch_def)
  then obtain bs where bs: "vprintf False (str (ln ''cat: write error'')) [] = Some bs" by blast
  obtain t where "foreachK bs (\<lambda>c. ucall_void os (Uwrite 2 [c])) e (s\<lparr>world := w'\<rparr>) = Ok () t" using fprintf_runs by blast
  then have "msg e (s\<lparr>world := w'\<rparr>) = Ok () t" by (simp only: msg_def ufprintf_def bs option.case)
  then show ?thesis using r w k k1 unfolding cat_def msg_def [symmetric]
    by (subst loopK_unfold) (simp add: monad_defs usys_def ucall_int_def uexit_def)
qed

lemma wc_wp:
  assumes "streams i out r s" and "foldl wc_byte (0, 0, 0, False) i = (l, w, c, z)"
    and "vprintf False (str (ln ''%d %d %d %s'')) [Fint l, Fint w, Fint c, Fstr (Some name)] = Some bs" and "length bs \<le> r"
  shows "wpK (wc os fd name) (\<lambda>_ t. streams [] (out @ bs) 0 t) e s"
  unfolding wc_def wp_bind
proof (rule wp_loop_measure [where f = "\<lambda>_ t. length (pending (world t))"
      and I = "\<lambda>st t. \<exists>b. streams b out r t \<and> foldl wc_byte st b = foldl wc_byte (0, 0, 0, False) i"], goal_cases)
  case 2
  then show ?case using assms(1) by blast
next
  case (1 j t)
  then obtain b where b: "foldl wc_byte j b = foldl wc_byte (0, 0, 0, False) i" and st: "streams b out r t" by blast
  show ?case unfolding wp_bind
  proof (rule read_wp [OF st], goal_cases)
    case (3 k u)
    have n: "sint (of_nat k :: i32) = int k" using 3(1) by simp
    show ?case
    proof (cases "k = 0")
      case True
      have "streams [] out r u" "j = (l, w, c, z)" using True 3(3,4) b assms(2) by simp_all
      then show ?thesis using True assms(3,4)
        by (auto simp: wp intro!: uprintf_wp) (simp add: streams_def)
    next
      case False
      have "foldl wc_byte (foldl wc_byte j (take k b)) (drop k b) = foldl wc_byte j b"
        by (simp flip: foldl_append)
      then show ?thesis using False n st 3(2,4) b by (auto simp: wp streams_def)
    qed
  qed simp_all
qed

end

section \<open>Pipes as streams\<close>

text \<open>
  The system calls \<^verbatim>\<open>read\<close> and \<^verbatim>\<open>write\<close> of a process whose standard input and output are pipes, as the program sees
  them: what it writes is first stored in its buffer, and what it reads is found there. An outcome of the
  kernel other than a return to the program does not occur for the states of \<open>plumbed\<close> below.
\<close>

definition pipe_os :: "'z file_st_scheme env \<Rightarrow> plumbing \<Rightarrow> 'z file_st_scheme os" where
  "pipe_os e g c s = (case c of
     Uread fd n \<Rightarrow>
       (case ecall3 5 (scast fd) (pl_buf g) (of_nat n) e s of
          Ok r t \<Rightarrow> ((ucast r, map (\<lambda>i. the (ubyte (mem t) (pl_pt g t) (pl_buf g + of_nat i))) [0..<nat (sint (ucast r :: i32))]), t)
        | _ \<Rightarrow> ((-1, []), s))
   | Uwrite fd bs \<Rightarrow>
       (case ecall3 16 (scast fd) (pl_buf g) (of_nat (length bs)) e (user_store g bs s) of
          Ok r t \<Rightarrow> ((ucast r, []), t)
        | _ \<Rightarrow> ((-1, []), s))
   | _ \<Rightarrow> ((-1, []), s))"

interpretation ps: byte_stream "pipe_os e g" 0 "plumbed g" "pl_input g" "pl_output g"
  "\<lambda>s. PIPESIZE - length (pl_output g s)" "\<lambda>s. readopen (pipes s (pl_out g)) = 0" for e g
proof (unfold_locales, goal_cases)
  case (1 w n)
  let ?k = "min n (length (pl_input g w))"
  obtain t where t: "ecall3 5 0 (pl_buf g) (of_nat n) e w = Ok (of_nat ?k) t" "plumbed g t" "pl_input g t = drop n (pl_input g w)"
    "pipes t (pl_out g) = pipes w (pl_out g)"
    "\<And>i. i < ?k \<Longrightarrow> ubyte (mem t) (pl_pt g t) (pl_buf g + of_nat i) = Some (pl_input g w ! i)"
    using read_call [OF 1(1,3)] by blast
  have k: "(ucast (of_nat ?k :: u64) :: i32) = of_nat ?k" "sint (of_nat ?k :: i32) = int ?k" using 1(3) by (simp_all only: nat_arg, simp)
  have "map (\<lambda>i. the (ubyte (mem t) (pl_pt g t) (pl_buf g + of_nat i))) [0..<?k] = take ?k (pl_input g w)"
    using t(5) by (intro nth_equalityI) simp_all
  then have "pipe_os e g (Uread 0 n) w = ((of_nat ?k, take ?k (pl_input g w)), t)" using t(1) k by (simp add: pipe_os_def del: of_nat_min)
  moreover have "?k = 0 \<longrightarrow> pl_input g w = []" "drop n (pl_input g w) = drop ?k (pl_input g w)" using 1(2) by (auto simp: min_def)
  moreover have "pl_output g t = pl_output g w" using t(4) by (simp add: pl_output_def)
  ultimately show ?case using t(2-4) by (intro exI [of _ ?k] exI [of _ t]) simp
next
  case (2 w bs)
  then have len: "length bs \<le> PIPESIZE" by simp
  note u = user_store_ok [OF 2(1) len]
  obtain t where t: "ecall3 16 1 (pl_buf g) (of_nat (length bs)) e (user_store g bs w) = Ok (of_nat (length bs)) t" "plumbed g t"
    "pl_output g t = pl_output g w @ bs" "pipes t (pl_in g) = pipes w (pl_in g)" "readopen (pipes t (pl_out g)) \<noteq> 0"
  proof (rule write_call [OF u(1), of bs e])
    show "length (pl_output g (user_store g bs w)) + length bs \<le> PIPESIZE" using 2(3) pl_sizes(2) [OF 2(1)] by simp
  qed (use u(2) 2(2) in simp_all)
  then have "pipe_os e g (Uwrite 1 bs) w = ((of_nat (length bs), []), t)" by (simp add: pipe_os_def nat_arg)
  then show ?case using t(2-5) by (intro exI [of _ t]) (simp add: pl_input_def)
next
  case (3 w bs)
  have "\<exists>t. ecall3 16 1 (pl_buf g) (of_nat (length bs)) e (user_store g bs w) = Ok (- 1) t"
    using user_store_ok(1) [OF 3(1), of bs] 3(2-4) by (intro write_call_closed) (auto simp: PIPESIZE_def)
  moreover have "(ucast (- 1 :: u64) :: i32) = - 1" by (rule bit_word_eqI) (simp add: bit_unsigned_iff)
  ultimately show ?case by (auto simp: pipe_os_def)
qed

section \<open>Counting\<close>

definition blank :: "byte \<Rightarrow> bool" where
  "blank b \<longleftrightarrow> b = 32 \<or> b = 13 \<or> b = 9 \<or> b = 10 \<or> b = 11"

text \<open>The positions at which a word begins.\<close>

definition word_starts :: "byte list \<Rightarrow> nat set" where
  "word_starts i = {k. k < length i \<and> \<not> blank (i ! k) \<and> (k = 0 \<or> blank (i ! (k - 1)))}"

lemma word_starts_snoc:
  "word_starts (i @ [b]) = word_starts i \<union> (if \<not> blank b \<and> (i = [] \<or> blank (last i)) then {length i} else {})"
  by (cases "i = []") (auto simp: word_starts_def nth_append last_conv_nth less_Suc_eq)

lemma ustrchr_None: "ustrchr s c = None \<longleftrightarrow> c \<notin> set s"
  by (induction s) auto

lemma wc_byte_eq:
  "wc_byte (l, w, c, z) b = (if b = 10 then l + 1 else l, if \<not> blank b \<and> \<not> z then w + 1 else w, c + 1, \<not> blank b)"
proof -
  have "ustrchr wc_space b \<noteq> None \<longleftrightarrow> blank b" by (auto simp: ustrchr_None wc_space_def blank_def)
  then show ?thesis by (simp add: wc_byte_def Let_def)
qed

lemma wc_counts:
  "foldl wc_byte (0, 0, 0, False) i =
     (of_nat (length (filter (\<lambda>b. b = 10) i)), of_nat (card (word_starts i)), of_nat (length i), i \<noteq> [] \<and> \<not> blank (last i))"
proof (induction i rule: rev_induct)
  case Nil
  then show ?case by (simp add: word_starts_def)
next
  case (snoc b i)
  have "finite (word_starts i)" "length i \<notin> word_starts i" by (simp_all add: word_starts_def)
  then show ?case by (simp add: snoc wc_byte_eq word_starts_snoc)
qed

lemma wc_format:
  "vprintf False (str (ln ''%d %d %d %s'')) [Fint l, Fint w, Fint c, Fstr (Some name)] =
     Some (uprintint l 10 True @ [32] @ uprintint w 10 True @ [32] @ uprintint c 10 True @ [32] @
       takeWhile (\<lambda>b. b \<noteq> 0) name @ [10])"
  by (simp add: str_def ch_simps) (simp add: ch_def)


section \<open>What the programs do\<close>


text \<open>Process 0 with the pipe at \<open>0x80104000\<close> on descriptor 0 and the one at \<open>0x80105000\<close> on descriptor 1.\<close>

definition demo_pl :: plumbing where
  "demo_pl = \<lparr>pl_proc = 0, pl_in = 0x80104000, pl_out = 0x80105000, pl_buf = 0\<rparr>"

definition demo_pipe :: "byte list \<Rightarrow> pipe" where
  "demo_pipe bs = \<lparr>pi_data = (\<lambda>i. if i < length bs then bs ! i else 0), nread = 0, nwrite = of_nat (length bs),
     readopen = 1, writeopen = 0\<rparr>"

definition demo_file :: "nat \<Rightarrow> kfile" where
  "demo_file f = \<lparr>f_type = FD_PIPE, f_ref = 1, f_readable = (f = 0), f_writable = (f = 1),
     f_pipe = (if f = 0 then 0x80104000 else 0x80105000), f_ip = None, f_off = 0, f_major = 0\<rparr>"

definition demo_st :: "byte list \<Rightarrow> byte list \<Rightarrow> file_st" where
  "demo_st i out = \<lparr>mach = on_cpu 0 mach0, mem = one_page, freelist = 0, kernel_pagetable = 0, satp = 0,
     procs = (\<lambda>_. proc0\<lparr>p_pagetable := demo_pt, p_ofile := (\<lambda>fd. if fd < 2 then Some fd else None)\<rparr>),
     nextpid = 1, initproc = None, tfs = (\<lambda>_. tf0), ticks = 0,
     first = False, uart_tx_buf = (\<lambda>_. 0), uart_tx_w = 0, uart_tx_r = 0, uart_out = [], uart_in = [],
     uart_cfg = [], lsr_reads = 0, panicked = False, pr_locking = True, cons_buf = (\<lambda>_. 0), cons_r = 0,
     cons_w = 0, cons_e = 0, sleeplocks = (\<lambda>_. sleeplock0),
     pipes = (\<lambda>p. demo_pipe (if p = 0x80104000 then i else out)),
     bufs = (\<lambda>_. \<lparr>b_valid = 0, b_disk = 0, b_dev = 0, b_blockno = 0, b_refcnt = 0, b_data = []\<rparr>),
     bprev = (\<lambda>_. Bhead), bnext = (\<lambda>_. Bhead), disk = (\<lambda>_. []), disk_writes = [],
     log = \<lparr>lg_start = 0, lg_size = 0, lg_outstanding = 0, lg_committing = 0, lg_dev = 0, lh_n = 0, lh_block = (\<lambda>_. 0)\<rparr>,
     sb = \<lparr>sb_magic = 0, sb_size = 0, sb_nblocks = 0, sb_ninodes = 0, sb_nlog = 0, sb_logstart = 0, sb_inodestart = 0, sb_bmapstart = 0\<rparr>,
     itable = (\<lambda>_. \<lparr>i_dev = 0, i_inum = 0, i_ref = 0, i_valid = 0, i_type = 0, i_major = 0, i_minor = 0, i_nlink = 0, i_size = 0, i_addrs = (\<lambda>_. 0)\<rparr>),
     ftable = demo_file, devsw_read = (\<lambda>_. None), devsw_write = (\<lambda>_. None)\<rparr>"

lemma demo_pipe_content: "length bs \<le> PIPESIZE \<Longrightarrow> pq.content (demo_pipe bs) = bs \<and> pq.bounded (demo_pipe bs)"
proof -
  assume l: "length bs \<le> PIPESIZE"
  then have "length bs < 2 ^ 32" by (simp add: PIPESIZE_def)
  then have u: "pq.used (demo_pipe bs) = length bs" by (simp add: pq.used_def demo_pipe_def unat_of_nat)
  moreover have "pq.content (demo_pipe bs) ! i = bs ! i" if "i < length bs" for i
    using that l u \<open>length bs < 2 ^ 32\<close> by (simp add: pq.nth_content demo_pipe_def unat_of_nat)
  ultimately show ?thesis using l by (auto simp: pq.bounded_def intro: nth_equalityI)
qed

lemma demo_plumbed:
  assumes "length i \<le> PIPESIZE" "length out \<le> PIPESIZE"
  shows "plumbed demo_pl (demo_st i out)" "pl_input demo_pl (demo_st i out) = i" "pl_output demo_pl (demo_st i out) = out"
    "readopen (pipes (demo_st i out) (pl_out demo_pl)) \<noteq> 0"
proof -
  have "pipe_caller p 0 (demo_st i out)" for p
    using one_page_space by (simp add: pipe_caller_def table_free_def demo_st_def)
  moreover have "PIPESIZE \<le> page_room 0" by (simp add: page_room_def PIPESIZE_def PGROUNDDOWN_def)
  moreover have "upage one_page demo_pt 0 \<noteq> 0" by (simp add: one_page_upage)
  ultimately show "plumbed demo_pl (demo_st i out)"
    using demo_pipe_content assms by (simp add: plumbed_def demo_pl_def opened_def pl_pt_def) (simp add: demo_st_def demo_file_def demo_pipe_def proc0_def)
  show "pl_input demo_pl (demo_st i out) = i" "pl_output demo_pl (demo_st i out) = out" "readopen (pipes (demo_st i out) (pl_out demo_pl)) \<noteq> 0"
    using demo_pipe_content assms by (simp_all add: pl_input_def pl_output_def demo_pl_def demo_st_def) (simp add: demo_pipe_def)
qed


text \<open>
  C21. \<^verbatim>\<open>wc\<close> on the pipes of the kernel prints the number of newlines, the number of maximal runs of non-blank bytes and the number
  of bytes of its input, each as an \<^verbatim>\<open>int\<close> (that is, modulo \<open>2 ^ 32\<close>), and the name it was given, if the output has a reader and room for this line.
\<close>

theorem wc_reports:
  fixes name :: "byte list"
  assumes "plumbed g (world s)" and "readopen (pipes (world s) (pl_out g)) \<noteq> 0"
  defines "i \<equiv> pl_input g (world s)"
  defines "report \<equiv> uprintint (of_nat (length (filter (\<lambda>b. b = 10) i))) 10 True @ [32] @
      uprintint (of_nat (card (word_starts i))) 10 True @ [32] @
      uprintint (of_nat (length i)) 10 True @ [32] @ takeWhile (\<lambda>b. b \<noteq> 0) name @ [10]"
  assumes "length (pl_output g (world s)) + length report \<le> PIPESIZE"
  shows "\<exists>t. wc (pipe_os k g) 0 name e s = Ok () t \<and> plumbed g (world t) \<and> pl_input g (world t) = [] \<and>
    pl_output g (world t) = pl_output g (world s) @ report"
proof -
  have "ps.streams g i (pl_output g (world s)) (length report) s"
    using assms by (simp add: ps.streams_def)
  from ps.wc_wp [OF this wc_counts wc_format, of name k e] show ?thesis
    by (auto simp: wpK_iff ps.streams_def report_def)
qed

theorem wc_reports_witness:
  "\<exists>t. wc (pipe_os idle_env demo_pl) 0 [] idle_env \<lparr>world = demo_st [104, 32, 105, 10] [], exited = None, replaced = None\<rparr> = Ok () t \<and>
     pl_output demo_pl (world t) = uprintint 1 10 True @ [32] @ uprintint 2 10 True @ [32] @ uprintint 4 10 True @ [32, 10]"
proof -
  have c: "card (word_starts [104, 32, 105, 10]) = 2"
    using word_starts_snoc [of "[]" 104] word_starts_snoc [of "[104]" 32] word_starts_snoc [of "[104, 32]" 105]
      word_starts_snoc [of "[104, 32, 105]" 10] by (simp add: blank_def word_starts_def [of "[]"])
  have len: "length (uprintint 1 10 True) = 1" "length (uprintint 2 10 True) = 1" "length (uprintint 4 10 True) = 1" by code_simp+
  show ?thesis
    using wc_reports [of demo_pl "\<lparr>world = demo_st [104, 32, 105, 10] [], exited = None, replaced = None\<rparr>" "[]" idle_env idle_env]
      demo_plumbed [of "[104, 32, 105, 10]" "[]"] c len by (auto simp: PIPESIZE_def)
qed

end
