(* ===== verification/Grep.thy ===== *)
theory Grep
  imports Streams
begin

text \<open>
  \<^verbatim>\<open>user/grep.c\<close>: the matcher of Kernighan and Pike, its meaning as a language of byte strings, and the
  loop that cuts the input into lines.
\<close>

section \<open>The matcher\<close>

text \<open>
  Patterns and texts are strings without the terminating zero; the end of the list is the
  zero that the code tests for. The character codes are \<open>94\<close> for \<^verbatim>\<open>^\<close>, \<open>42\<close> for \<^verbatim>\<open>*\<close>, \<open>36\<close> for \<^verbatim>\<open>$\<close> and
  \<open>46\<close> for the dot.
\<close>

function matchhere :: "byte list \<Rightarrow> byte list \<Rightarrow> bool"
  and matchstar :: "byte \<Rightarrow> byte list \<Rightarrow> byte list \<Rightarrow> bool" where
  "matchhere re text =
     (case re of [] \<Rightarrow> True
      | r0 # re1 \<Rightarrow>
          if re1 \<noteq> [] \<and> hd re1 = 42 then matchstar r0 (tl re1) text
          else if r0 = 36 \<and> re1 = [] then text = []
          else (case text of [] \<Rightarrow> False
                | c # text1 \<Rightarrow> if r0 = 46 \<or> r0 = c then matchhere re1 text1 else False))"
| "matchstar c re text =
     (if matchhere re text then True
      else (case text of [] \<Rightarrow> False
            | d # text1 \<Rightarrow> if d = c \<or> c = 46 then matchstar c re text1 else False))"
  by pat_completeness auto
termination
  by (relation "measures [\<lambda>x. case x of Inl (re, t) \<Rightarrow> length re | Inr (c, re, t) \<Rightarrow> Suc (length re),
      \<lambda>x. case x of Inl (re, t) \<Rightarrow> 0 | Inr (c, re, t) \<Rightarrow> length t]") auto

fun match_loop :: "byte list \<Rightarrow> byte list \<Rightarrow> bool" where
  "match_loop re text =
     (if matchhere re text then True else (case text of [] \<Rightarrow> False | c # text1 \<Rightarrow> match_loop re text1))"

definition match :: "byte list \<Rightarrow> byte list \<Rightarrow> bool" where
  "match re text = (if re \<noteq> [] \<and> hd re = 94 then matchhere (tl re) text else match_loop re text)"

declare matchhere.simps [simp del] matchstar.simps [simp del] match_loop.simps [simp del]

section \<open>The meaning of a pattern\<close>

text \<open>
  A pattern is a sequence of items, each a class of bytes to be matched once or any number of times,
  with or without an anchor at its end.
\<close>

datatype item = Once byte | Many byte

fun items :: "byte list \<Rightarrow> item list \<times> bool" where
  "items [] = ([], False)"
| "items [r] = (if r = 36 then ([], True) else ([Once r], False))"
| "items (r # x # re) =
     (if x = 42 then (case items re of (is, z) \<Rightarrow> (Many r # is, z))
      else (case items (x # re) of (is, z) \<Rightarrow> (Once r # is, z)))"

definition fits :: "byte \<Rightarrow> byte \<Rightarrow> bool" where
  "fits r c \<longleftrightarrow> r = 46 \<or> r = c"

fun lang :: "item list \<Rightarrow> byte list set" where
  "lang [] = {[]}"
| "lang (Once r # is) = {c # v | c v. fits r c \<and> v \<in> lang is}"
| "lang (Many r # is) = {u @ v | u v. (\<forall>c \<in> set u. fits r c) \<and> v \<in> lang is}"

definition denotes :: "item list \<times> bool \<Rightarrow> byte list \<Rightarrow> bool" where
  "denotes p text \<longleftrightarrow> (\<exists>u v. text = u @ v \<and> u \<in> lang (fst p) \<and> (snd p \<longrightarrow> v = []))"

lemma denotes_Nil: "denotes ([], z) t \<longleftrightarrow> (z \<longrightarrow> t = [])"
  by (auto simp: denotes_def)

lemma denotes_Once: "denotes (Once r # is, z) t \<longleftrightarrow> (\<exists>c t1. t = c # t1 \<and> fits r c \<and> denotes (is, z) t1)"
proof
  assume "denotes (Once r # is, z) t"
  then obtain w v where t: "t = w @ v" "w \<in> lang (Once r # is)" "z \<longrightarrow> v = []"
    unfolding denotes_def fst_conv snd_conv by blast
  then obtain c u where "w = c # u" "fits r c" "u \<in> lang is" by auto
  with t show "\<exists>c t1. t = c # t1 \<and> fits r c \<and> denotes (is, z) t1" by (simp add: denotes_def) metis
next
  assume "\<exists>c t1. t = c # t1 \<and> fits r c \<and> denotes (is, z) t1"
  then obtain c u v where "t = c # u @ v" "fits r c" "u \<in> lang is" "z \<longrightarrow> v = []"
    unfolding denotes_def fst_conv snd_conv by blast
  then show "denotes (Once r # is, z) t" by (simp add: denotes_def) (metis append_Cons)
qed

lemma lang_Many_Nil: "v \<in> lang is \<Longrightarrow> v \<in> lang (Many r # is)"
  by (auto intro: exI [of _ "[]"])

lemma lang_Many_Cons: "fits r c \<Longrightarrow> w \<in> lang (Many r # is) \<Longrightarrow> c # w \<in> lang (Many r # is)"
  by simp (metis append_Cons set_ConsD)

lemma lang_ManyE:
  assumes "w \<in> lang (Many r # is)"
  obtains "w \<in> lang is" | c v where "w = c # v" "fits r c" "v \<in> lang (Many r # is)"
proof -
  from assms obtain u v where w: "w = u @ v" "\<forall>c \<in> set u. fits r c" "v \<in> lang is" by auto
  show ?thesis
  proof (cases u)
    case Nil
    then show ?thesis using w that(1) by simp
  next
    case (Cons c u')
    then have "u' @ v \<in> lang (Many r # is)" using w by auto
    then show ?thesis using w Cons that(2) by simp
  qed
qed

lemma denotes_Many:
  "denotes (Many r # is, z) t \<longleftrightarrow> denotes (is, z) t \<or> (\<exists>c t1. t = c # t1 \<and> fits r c \<and> denotes (Many r # is, z) t1)"
proof
  assume "denotes (Many r # is, z) t"
  then obtain u v where t: "t = u @ v" "z \<longrightarrow> v = []" and u: "u \<in> lang (Many r # is)"
    unfolding denotes_def fst_conv snd_conv by blast
  from u show "denotes (is, z) t \<or> (\<exists>c t1. t = c # t1 \<and> fits r c \<and> denotes (Many r # is, z) t1)"
    by (cases rule: lang_ManyE) (use t in \<open>auto simp: denotes_def simp del: lang.simps\<close>)
next
  assume "denotes (is, z) t \<or> (\<exists>c t1. t = c # t1 \<and> fits r c \<and> denotes (Many r # is, z) t1)"
  then show "denotes (Many r # is, z) t"
    unfolding denotes_def fst_conv snd_conv by (metis append_Cons lang_Many_Nil lang_Many_Cons)
qed

lemma matchhere_Nil: "matchhere [] t = True"
  by (simp add: matchhere.simps)

lemma matchhere_one: "matchhere [r] t = (if r = 36 then t = [] else (\<exists>c t1. t = c # t1 \<and> fits r c))"
  by (cases t) (simp_all add: matchhere.simps [of "[r]"] matchhere_Nil fits_def)

lemma matchhere_more:
  "matchhere (r # x # re) t =
     (if x = 42 then matchstar r re t else (\<exists>c t1. t = c # t1 \<and> fits r c \<and> matchhere (x # re) t1))"
  by (cases t) (simp_all add: matchhere.simps [of "r # x # re"] fits_def)

lemmas matchhere_eqs = matchhere_Nil matchhere_one matchhere_more

lemma matchstar_eq:
  "matchstar r re t \<longleftrightarrow> matchhere re t \<or> (\<exists>c t1. t = c # t1 \<and> fits r c \<and> matchstar r re t1)"
  by (subst matchstar.simps) (auto simp: fits_def split: list.split)

lemma matchstar_denotes:
  assumes "\<And>t. matchhere re t \<longleftrightarrow> denotes (is, z) t"
  shows "matchstar r re t \<longleftrightarrow> denotes (Many r # is, z) t"
proof (induction t)
  case Nil
  then show ?case by (subst matchstar_eq, subst denotes_Many) (simp add: assms)
next
  case (Cons c t)
  then show ?case by (subst matchstar_eq, subst denotes_Many) (simp add: assms)
qed

lemma matchhere_denotes: "matchhere re t \<longleftrightarrow> denotes (items re) t"
proof (induction re arbitrary: t rule: items.induct)
  case 1
  then show ?case by (simp add: matchhere_eqs denotes_Nil)
next
  case (2 r)
  then show ?case by (simp add: matchhere_eqs denotes_Nil denotes_Once)
next
  case (3 r x re)
  show ?case
  proof (cases "x = 42")
    case True
    then show ?thesis using matchstar_denotes [of re "fst (items re)" "snd (items re)"] 3(1)
      by (simp add: matchhere_eqs split: prod.split)
  next
    case False
    then show ?thesis using 3(2) by (simp add: matchhere_eqs denotes_Once split: prod.split)
  qed
qed

lemma match_loop_suffix: "match_loop re t \<longleftrightarrow> (\<exists>u v. t = u @ v \<and> matchhere re v)"
proof (induction t)
  case (Cons c t)
  then show ?case by (subst match_loop.simps) (auto simp: Cons_eq_append_conv)
qed (simp add: match_loop.simps)

text \<open>
  C22. The matcher accepts a text exactly when some part of it is a word of the pattern's
  language, at the beginning of the text if the pattern starts with \<^verbatim>\<open>^\<close>, and at its end if the
  pattern ends with an unstarred \<^verbatim>\<open>$\<close>.
\<close>

theorem match_meaning:
  "match re text =
     (let anchored = (re \<noteq> [] \<and> hd re = 94); (is, at_end) = items (if anchored then tl re else re) in
      \<exists>u v w. text = u @ v @ w \<and> v \<in> lang is \<and> (anchored \<longrightarrow> u = []) \<and> (at_end \<longrightarrow> w = []))"
  by (auto simp: match_def match_loop_suffix matchhere_denotes denotes_def Let_def split: prod.split)

theorem match_meaning_witness: "match [97, 42, 98, 36] [99, 97, 97, 98]"
proof -
  have "[97, 97, 98] \<in> lang [Many 97, Once 98]"
    by (intro lang_Many_Cons lang_Many_Nil) (simp_all add: fits_def)
  then have "\<exists>u v w. [99, 97, 97, 98] = u @ v @ w \<and> v \<in> lang [Many 97, Once 98] \<and> w = []"
    by (intro exI [of _ "[99]"] exI [of _ "[97, 97, 98]"] exI [of _ "[]"]) simp
  then show ?thesis using match_meaning [of "[97, 42, 98, 36]" "[99, 97, 97, 98]"] by (simp del: lang.simps)
qed

section \<open>The lines of the input\<close>

text \<open>
  One round over the buffer: the lines that \<^verbatim>\<open>strchr\<close> finds, without their newlines, and what
  stays behind in the buffer. A zero byte ends the search.
\<close>

function grep_lines :: "byte list \<Rightarrow> byte list list \<times> byte list" where
  "grep_lines p =
     (case ustrchr (takeWhile (\<lambda>c. c \<noteq> 0) p) 10 of
        None \<Rightarrow> ([], p)
      | Some q \<Rightarrow>
          let k = length (takeWhile (\<lambda>c. c \<noteq> 0) p) - length q; (lns, rest) = grep_lines (drop (Suc k) p) in
          (take k p # lns, rest))"
  by pat_completeness auto

lemma ustrchr_Some: "ustrchr s c = Some q \<Longrightarrow> \<exists>u v. s = u @ q \<and> q = c # v \<and> c \<notin> set u"
proof (induction s)
  case (Cons d s)
  show ?case
  proof (cases "d = c")
    case True
    then show ?thesis using Cons.prems by (intro exI [of _ "[]"] exI [of _ s]) auto
  next
    case False
    then obtain u v where "s = u @ q" "q = c # v" "c \<notin> set u" using Cons by auto
    then show ?thesis using False by (intro exI [of _ "d # u"] exI [of _ v]) auto
  qed
qed simp

termination grep_lines
proof (relation "measure length", goal_cases)
  case (2 p q k)
  then obtain u v where "takeWhile (\<lambda>c. c \<noteq> 0) p = u @ q" "q = 10 # v" using ustrchr_Some by blast
  then have "p \<noteq> []" by auto
  then show ?case by simp
qed simp

declare grep_lines.simps [simp del]

definition grep :: "'w os \<Rightarrow> byte list \<Rightarrow> i32 \<Rightarrow> ('w ust, unit) K" where
  "grep os pattern fd = loopK (\<lambda>buf.
     bindK (usys os (Uread fd (1024 - length buf - 1))) (\<lambda>(n, bs).
     if sint n > 0 then
       (case grep_lines (buf @ take (nat (sint n)) bs) of (lns, rest) \<Rightarrow>
        thenK (foreachK lns (\<lambda>l. whenK (match pattern l) (ucall_void os (Uwrite 1 (l @ [10])))))
          (returnK (Inl rest)))
     else returnK (Inr ()))) []"

definition grep_main :: "'w os \<Rightarrow> byte list list \<Rightarrow> ('w ust, unit) K" where
  "grep_main os argv =
     (if length argv \<le> 1 then thenK (ufprintf os 2 (ln ''usage: grep pattern [file ...]'') []) (uexit 1)
      else if length argv \<le> 2 then thenK (grep os (argv ! 1) 0) (uexit 0)
      else thenK (foreachK (drop 2 argv) (\<lambda>a.
        bindK (ucall_int os (Uopen a 0)) (\<lambda>fd.
        if sint fd < 0 then thenK (uprintf os (ln ''grep: cannot open %s'') [Fstr (Some a)]) (uexit 1) else
        thenK (grep os (argv ! 1) fd) (ucall_void os (Uclose fd)))))
      (uexit 0))"

text \<open>The text that a list of complete lines stands for.\<close>

abbreviation newlined :: "byte list list \<Rightarrow> byte list" where
  "newlined lns \<equiv> concat (map (\<lambda>l. l @ [10]) lns)"

lemma grep_lines_cuts:
  assumes "grep_lines p = (lns, rest)" and "0 \<notin> set p"
  shows "p = newlined lns @ rest \<and> (\<forall>l \<in> set lns. 10 \<notin> set l) \<and> 10 \<notin> set rest"
  using assms
proof (induction "length p" arbitrary: p lns rule: less_induct)
  case less
  have z: "takeWhile (\<lambda>c. c \<noteq> 0) p = p" using less.prems(2) by (simp add: takeWhile_eq_all_conv) metis
  note g = grep_lines.simps [of p, unfolded z]
  show ?case
  proof (cases "ustrchr p 10")
    case None
    moreover have "10 \<notin> set p" using None by (simp add: ustrchr_None)
    ultimately show ?thesis using less.prems(1) g by simp
  next
    case (Some q)
    then obtain u v where p: "p = u @ q" "q = 10 # v" "10 \<notin> set u" using ustrchr_Some by blast
    have "grep_lines p = (case grep_lines v of (l, r) \<Rightarrow> (u # l, r))"
      by (simp only: g Some option.case) (simp add: p Let_def)
    then obtain lns' where r: "grep_lines v = (lns', rest)" "lns = u # lns'"
      using less.prems(1) by (auto split: prod.splits)
    have "v = newlined lns' @ rest \<and> (\<forall>l \<in> set lns'. 10 \<notin> set l) \<and> 10 \<notin> set rest"
      using less.prems(2) p r(1) by (intro less.hyps) simp_all
    then show ?thesis using p r by simp
  qed
qed

lemma line_unique: "u @ 10 # x = v @ 10 # y \<Longrightarrow> 10 \<notin> set u \<Longrightarrow> 10 \<notin> set v \<Longrightarrow> u = v \<and> x = y" for u :: "byte list"
  by (induction u arbitrary: v) (auto simp: Cons_eq_append_conv append_eq_Cons_conv)

lemma newlined_prefix:
  assumes "newlined ls1 @ x = newlined lns @ tail" and "\<forall>l \<in> set ls1. 10 \<notin> set l" and "\<forall>l \<in> set lns. 10 \<notin> set l" and "10 \<notin> set tail"
  shows "\<exists>ls2. lns = ls1 @ ls2 \<and> x = newlined ls2 @ tail"
  using assms
proof (induction ls1 arbitrary: lns)
  case (Cons l ls1)
  have "lns \<noteq> []"
  proof
    assume "lns = []"
    then have "10 \<in> set tail" using Cons.prems(1) [symmetric] by simp
    then show False using Cons.prems(4) by simp
  qed
  then obtain m ms where lns: "lns = m # ms" by (cases lns) auto
  have "l = m \<and> newlined ls1 @ x = newlined ms @ tail"
    using Cons.prems by (intro line_unique) (simp_all add: lns)
  then show ?case using Cons.IH [of ms] Cons.prems lns by auto
qed simp

lemma rest_short:
  assumes "r @ x = newlined lns @ tail" and "10 \<notin> set r" and "\<forall>l \<in> set lns. length l < n" and "length tail < n"
  shows "length r < n"
proof (cases lns)
  case Nil
  have "length r \<le> length tail" using arg_cong [OF assms(1), of length] Nil by simp
  then show ?thesis using assms(4) by simp
next
  case (Cons l lns')
  have "length r \<le> length l"
  proof (rule ccontr)
    assume c: "\<not> length r \<le> length l"
    then have "(r @ x) ! length l = r ! length l" by (simp add: nth_append)
    moreover have "(r @ x) ! length l = 10" using assms(1) Cons by (simp add: nth_append)
    ultimately show False using c assms(2) nth_mem [of "length l" r] by simp
  qed
  then show ?thesis using assms(3) Cons by auto
qed

lemma grep_cut:
  assumes bi: "buf @ i = newlined lns @ tail" and l: "\<forall>l \<in> set lns. 10 \<notin> set l \<and> 0 \<notin> set l \<and> length l < 1023"
    and "10 \<notin> set tail" "0 \<notin> set tail" and m: "grep_lines (buf @ take k i) = (l1, r)"
  obtains l2 where "lns = l1 @ l2" "r @ drop k i = newlined l2 @ tail" "10 \<notin> set r" "\<forall>l \<in> set l1. length l < 1024"
proof -
  have "0 \<notin> set (buf @ i)" unfolding bi using l assms(4) by auto
  then have "0 \<notin> set (buf @ take k i)" by (auto dest: in_set_takeD)
  from grep_lines_cuts [OF m this] have c: "buf @ take k i = newlined l1 @ r" "\<forall>l \<in> set l1. 10 \<notin> set l" "10 \<notin> set r"
    by simp_all
  have "newlined l1 @ r @ drop k i = newlined lns @ tail" using bi c(1) by (metis append.assoc append_take_drop_id)
  from newlined_prefix [OF this c(2)] obtain l2 where l2: "lns = l1 @ l2" "r @ drop k i = newlined l2 @ tail"
    using l assms(3) by auto
  have "length x < 1024" if "x \<in> set l1" for x
  proof -
    have "length x < 1023" using l l2(1) that by simp
    then show ?thesis by simp
  qed
  with l2 c(3) show ?thesis by (intro that) auto
qed

context byte_stream
begin

lemma grep_put_wp:
  assumes "streams i out (length (newlined (filter (match pat) lns)) + r) s" and "\<forall>l \<in> set lns. length l < 1024"
    and "\<And>t. streams i (out @ newlined (filter (match pat) lns)) r t \<Longrightarrow> Q () t"
  shows "wpK (foreachK lns (\<lambda>l. whenK (match pat l) (ucall_void os (Uwrite 1 (l @ [10]))))) Q e s"
  using assms
proof (induction lns arbitrary: out s)
  case Nil
  then show ?case by (simp add: wp)
next
  case (Cons l lns)
  have go: "streams i (out @ (if match pat l then l @ [10] else [])) (length (newlined (filter (match pat) lns)) + r) t \<Longrightarrow>
      wpK (foreachK lns (\<lambda>l. whenK (match pat l) (ucall_void os (Uwrite 1 (l @ [10]))))) Q e t" for t
    using Cons.prems by (intro Cons.IH) (auto split: if_splits)
  have "wpK (ucall_void os (Uwrite 1 (l @ [10]))) (\<lambda>_. streams i (out @ l @ [10]) (length (newlined (filter (match pat) lns)) + r)) e s" if "match pat l"
    using Cons.prems(2) that by (intro put_wp [OF Cons.prems(1)]) (simp_all add: add.commute)
  then show ?case unfolding wp_foreach_Cons wp_when using go Cons.prems(1)
    by (auto elim!: wpK_mono)
qed

lemma grep_wp:
  assumes "streams (newlined lns @ tail) out (length (newlined (filter (match pat) lns))) s" and "\<forall>l \<in> set lns. 10 \<notin> set l \<and> 0 \<notin> set l \<and> length l < 1023"
    and "10 \<notin> set tail" "0 \<notin> set tail" "length tail < 1023"
  shows "wpK (grep os pat fd) (\<lambda>_ t. streams [] (out @ newlined (filter (match pat) lns)) 0 t) e s"
  unfolding grep_def
proof (rule wp_loop_measure [where f = "\<lambda>_ t. length (pending (world t))"
      and I = "\<lambda>buf t. \<exists>l1 l2 i. lns = l1 @ l2 \<and> buf @ i = newlined l2 @ tail \<and> 10 \<notin> set buf \<and>
        streams i (out @ newlined (filter (match pat) l1)) (length (newlined (filter (match pat) l2))) t"], goal_cases)
  case 2
  then show ?case using assms(1) by (intro exI [of _ "[]"] exI [of _ lns] exI [of _ "newlined lns @ tail"]) simp
next
  case (1 buf t)
  then obtain l1 l2 i where l: "lns = l1 @ l2" and bi: "buf @ i = newlined l2 @ tail" and nb: "10 \<notin> set buf"
    and st: "streams i (out @ newlined (filter (match pat) l1)) (length (newlined (filter (match pat) l2))) t" by blast
  have l2: "\<forall>l \<in> set l2. 10 \<notin> set l \<and> 0 \<notin> set l \<and> length l < 1023" using assms(2) l by simp
  have short: "length buf < 1023" by (rule rest_short [OF bi nb]) (use l2 assms(5) in simp_all)
  show ?case unfolding wp_bind
  proof (rule read_wp [OF st], goal_cases)
    case (3 k u)
    have n: "sint (of_nat k :: i32) = int k" using 3(1) by simp
    show ?case
    proof (cases "k = 0")
      case True
      then have "i = []" using 3(3) by simp
      then have "l2 = []" using bi nb by (cases l2) auto
      then show ?thesis using True \<open>i = []\<close> 3(4) l by (simp add: wp)
    next
      case False
      obtain m1 r where m: "grep_lines (buf @ take k i) = (m1, r)" by fastforce
      from grep_cut [OF bi l2 assms(3,4) m] obtain m2 where m2: "l2 = m1 @ m2" "r @ drop k i = newlined m2 @ tail"
        and c: "10 \<notin> set r" and len: "\<forall>l \<in> set m1. length l < 1024" .
      have "wpK (foreachK m1 (\<lambda>l. whenK (match pat l) (ucall_void os (Uwrite 1 (l @ [10])))))
          (\<lambda>_. streams (drop k i) ((out @ newlined (filter (match pat) l1)) @ newlined (filter (match pat) m1)) (length (newlined (filter (match pat) m2)))) e u"
        by (rule grep_put_wp [OF _ len]) (use 3(4) m2(1) in simp)
      then have "wpK (foreachK m1 (\<lambda>l. whenK (match pat l) (ucall_void os (Uwrite 1 (l @ [10])))))
          (\<lambda>_ v. streams (drop k i) (out @ newlined (filter (match pat) (l1 @ m1))) (length (newlined (filter (match pat) m2))) v) e u" by simp
      moreover have "(\<exists>l1 l2 i. lns = l1 @ l2 \<and> r @ i = newlined l2 @ tail \<and> 10 \<notin> set r \<and>
          streams i (out @ newlined (filter (match pat) l1)) (length (newlined (filter (match pat) l2))) v) \<and> length (pending (world v)) < length (pending (world t))"
        if "streams (drop k i) (out @ newlined (filter (match pat) (l1 @ m1))) (length (newlined (filter (match pat) m2))) v" for v
      proof (intro conjI exI)
        show "lns = (l1 @ m1) @ m2" using l m2(1) by simp
        show "length (pending (world v)) < length (pending (world t))"
          using that st False 3(2) by (simp add: streams_def)
      qed (use m2(2) c that in simp_all)
      ultimately show ?thesis using False n m
        by (simp only: wp prod.case sum.case m take_take min.idem nat_int of_nat_0_less_iff zero_less_iff_neq_zero if_True not_False_eq_True)
          (erule wpK_mono, simp only: sum.case)
    qed
  qed (use short in simp_all)
qed

end

lemma newlined_bound: "l \<in> set lns \<Longrightarrow> length l < length (newlined lns)"
  by (induction lns) auto

text \<open>
  C23. \<^verbatim>\<open>grep\<close> on the pipes of the kernel prints exactly the complete lines of its input that match, in their order, if the input
  has no zero byte and the output has a reader and room for these lines; what follows the last newline is
  not searched. The input is what the pipe holds, at most 512 bytes, so that no line reaches the size of the buffer.
\<close>

theorem grep_prints:
  assumes "plumbed g (world s)" and "readopen (pipes (world s) (pl_out g)) \<noteq> 0"
    and "pl_input g (world s) = newlined lns @ tail" and "0 \<notin> set (pl_input g (world s))" and "\<forall>l \<in> set (tail # lns). 10 \<notin> set l"
    and "length (pl_output g (world s)) + length (newlined (filter (match pat) lns)) \<le> PIPESIZE"
  shows "\<exists>t. grep (pipe_os k g) pat 0 e s = Ok () t \<and> plumbed g (world t) \<and> pl_input g (world t) = [] \<and>
    pl_output g (world t) = pl_output g (world s) @ newlined (filter (match pat) lns)"
proof -
  have st: "ps.streams g (newlined lns @ tail) (pl_output g (world s)) (length (newlined (filter (match pat) lns))) s"
    using assms by (simp add: ps.streams_def)
  have len: "length (newlined lns) + length tail \<le> 512" using pl_sizes(1) [OF assms(1)] assms(3) by (simp add: PIPESIZE_def)
  have l: "\<forall>l \<in> set lns. 10 \<notin> set l \<and> 0 \<notin> set l \<and> length l < 1023"
  proof
    fix l assume l: "l \<in> set lns"
    then have "set l \<subseteq> set (pl_input g (world s))" using assms(3) by auto
    then have "0 \<notin> set l" using assms(4) by blast
    moreover have "length l < 1023" using newlined_bound [OF l] len by simp
    ultimately show "10 \<notin> set l \<and> 0 \<notin> set l \<and> length l < 1023" using assms(5) l by simp
  qed
  have "10 \<notin> set tail" "0 \<notin> set tail" "length tail < 1023" using assms(3-5) len by auto
  from ps.grep_wp [OF st l this, of k e] show ?thesis by (auto simp: wpK_iff ps.streams_def)
qed

theorem grep_prints_witness:
  "\<exists>t. grep (pipe_os idle_env demo_pl) [98] 0 idle_env \<lparr>world = demo_st [97, 98, 10, 99, 10, 98] [], exited = None, replaced = None\<rparr> = Ok () t \<and>
     pl_output demo_pl (world t) = [97, 98, 10]"
proof -
  let ?s = "\<lparr>world = demo_st [97, 98, 10, 99, 10, 98] [], exited = None, replaced = None\<rparr>"
  have m: "match [98] [97, 98]" "\<not> match [98] [99]"
    by (simp_all add: match_def match_loop.simps matchhere_eqs fits_def)
  have "\<exists>t. grep (pipe_os idle_env demo_pl) [98] 0 idle_env ?s = Ok () t \<and> plumbed demo_pl (world t) \<and> pl_input demo_pl (world t) = [] \<and>
     pl_output demo_pl (world t) = pl_output demo_pl (world ?s) @ newlined (filter (match [98]) [[97, 98], [99]])"
    by (rule grep_prints [where tail = "[98]"])
      (use m demo_plumbed [of "[97, 98, 10, 99, 10, 98]" "[]"] in \<open>simp_all add: PIPESIZE_def\<close>)
  then show ?thesis using m demo_plumbed [of "[97, 98, 10, 99, 10, 98]" "[]"] by (auto simp: PIPESIZE_def)
qed

end
