(* ===== verification/Sh.thy ===== *)
theory Sh
  imports User "HOL-Library.Sublist"
begin

text \<open>
  The shell, \<^verbatim>\<open>user/sh.c\<close>. A pointer into the command line is the part of the line from there to its
  end, so that \<^verbatim>\<open>s < es\<close> is \<open>s \<noteq> []\<close> and a token is a pair of pointers. The recursive functions
  of the parser take fuel and return \<open>None\<close> when it runs out; \<open>Inl\<close> is the message of a \<^verbatim>\<open>panic\<close>. The constructors' calls of
  \<^verbatim>\<open>malloc\<close> are the constructors of \<open>cmd\<close>.
\<close>

section \<open>Commands\<close>

type_synonym ptr = "byte list"

text \<open>Commands over a type of words: in the parser, a word is the pair of pointers to its beginning and its end.\<close>

datatype 't cmd =
    EXEC "'t list"
  | REDIR "'t cmd" 't i32 i32
  | PIPE "'t cmd" "'t cmd"
  | LIST "'t cmd" "'t cmd"
  | BACK "'t cmd"

type_synonym pcmd = "(ptr \<times> ptr) cmd"

definition MAXARGS :: nat where
  "MAXARGS = 10"

section \<open>Tokens\<close>

definition whitespace :: "byte list" where
  "whitespace = [32, 9, 13, 10, 11]"

definition symbols :: "byte list" where
  "symbols = str ''<|>&;()''"

text \<open>The character a pointer points to.\<close>

definition at :: "ptr \<Rightarrow> byte" where
  "at s = (case s of [] \<Rightarrow> 0 | c # _ \<Rightarrow> c)"

definition skip_space :: "ptr \<Rightarrow> ptr" where
  "skip_space s = dropWhile (\<lambda>c. ustrchr whitespace c \<noteq> None) s"

definition skip_word :: "ptr \<Rightarrow> ptr" where
  "skip_word s = dropWhile (\<lambda>c. ustrchr whitespace c = None \<and> ustrchr symbols c = None) s"

text \<open>The token, where it begins and ends, and the rest of the line.\<close>

definition gettoken :: "ptr \<Rightarrow> byte \<times> ptr \<times> ptr \<times> ptr" where
  "gettoken s =
     (let q = skip_space s; c = at q;
          (ret, eq) =
            (if c = 0 then (c, q)
             else if c \<in> set (str ''|();&<'') then (c, tl q)
             else if c = ch CHR ''>'' then
               (if at (tl q) = ch CHR ''>'' then (ch CHR ''+'', tl (tl q)) else (c, tl q))
             else (ch CHR ''a'', skip_word q))
      in (ret, q, eq, skip_space eq))"

definition peek :: "ptr \<Rightarrow> string \<Rightarrow> bool \<times> ptr" where
  "peek s toks = (let s = skip_space s in (at s \<noteq> 0 \<and> ustrchr (str toks) (at s) \<noteq> None, s))"

section \<open>The parser\<close>

type_synonym 'a parse = "(string + 'a \<times> ptr) option"

definition andthen :: "'a parse \<Rightarrow> ('a \<Rightarrow> ptr \<Rightarrow> 'b parse) \<Rightarrow> 'b parse" where
  "andthen r f = (case r of None \<Rightarrow> None | Some (Inl m) \<Rightarrow> Some (Inl m) | Some (Inr (a, s)) \<Rightarrow> f a s)"

lemma andthen_cong [fundef_cong]:
  "r = r' \<Longrightarrow> (\<And>a s. r' = Some (Inr (a, s)) \<Longrightarrow> f a s = g a s) \<Longrightarrow> andthen r f = andthen r' g"
  by (auto simp: andthen_def split: option.split sum.split)

definition redir_of :: "byte \<Rightarrow> pcmd \<Rightarrow> ptr \<Rightarrow> ptr \<Rightarrow> pcmd" where
  "redir_of tok cmd q eq =
     (if tok = ch CHR ''<'' then REDIR cmd (q, eq) 0 0
      else if tok = ch CHR ''>'' then REDIR cmd (q, eq) 0x601 1
      else if tok = ch CHR ''+'' then REDIR cmd (q, eq) 0x201 1
      else cmd)"

fun parseredirs :: "nat \<Rightarrow> pcmd \<Rightarrow> ptr \<Rightarrow> pcmd parse" where
  "parseredirs 0 cmd s = None"
| "parseredirs (Suc n) cmd s =
     (case peek s ''<>'' of
        (False, s) \<Rightarrow> Some (Inr (cmd, s))
      | (True, s) \<Rightarrow>
          case gettoken s of (tok, _, _, s) \<Rightarrow>
          case gettoken s of (a, q, eq, s) \<Rightarrow>
          if a \<noteq> ch CHR ''a'' then Some (Inl ''missing file for redirection'')
          else parseredirs n (redir_of tok cmd q eq) s)"

text \<open>
  \<^verbatim>\<open>parseexec\<close> goes on adding arguments to its \<^verbatim>\<open>execcmd\<close> when redirections already refer to it: \<open>add_arg\<close>
  stores into the command at the bottom.
\<close>

fun add_arg :: "ptr \<times> ptr \<Rightarrow> pcmd \<Rightarrow> pcmd" where
  "add_arg a (EXEC args) = EXEC (args @ [a])"
| "add_arg a (REDIR c w mode fd) = REDIR (add_arg a c) w mode fd"
| "add_arg a c = c"

fun parseargs :: "nat \<Rightarrow> nat \<Rightarrow> pcmd \<Rightarrow> ptr \<Rightarrow> pcmd parse" where
  "parseargs 0 argc ret s = None"
| "parseargs (Suc n) argc ret s =
     (case peek s ''|)&;'' of
        (True, s) \<Rightarrow> Some (Inr (ret, s))
      | (False, s) \<Rightarrow>
          case gettoken s of (tok, q, eq, s) \<Rightarrow>
          if tok = 0 then Some (Inr (ret, s))
          else if tok \<noteq> ch CHR ''a'' then Some (Inl ''syntax'')
          else if argc + 1 \<ge> MAXARGS then Some (Inl ''too many args'')
          else andthen (parseredirs n (add_arg (q, eq) ret) s) (\<lambda>ret s. parseargs n (argc + 1) ret s))"

fun parsebacks :: "nat \<Rightarrow> pcmd \<Rightarrow> ptr \<Rightarrow> pcmd parse" where
  "parsebacks 0 cmd s = None"
| "parsebacks (Suc n) cmd s =
     (case peek s ''&'' of
        (False, s) \<Rightarrow> Some (Inr (cmd, s))
      | (True, s) \<Rightarrow> case gettoken s of (_, _, _, s) \<Rightarrow> parsebacks n (BACK cmd) s)"

fun parseline :: "nat \<Rightarrow> ptr \<Rightarrow> pcmd parse"
  and parsepipe :: "nat \<Rightarrow> ptr \<Rightarrow> pcmd parse"
  and parseexec :: "nat \<Rightarrow> ptr \<Rightarrow> pcmd parse"
  and parseblock :: "nat \<Rightarrow> ptr \<Rightarrow> pcmd parse" where
  "parseline 0 s = None"
| "parseline (Suc n) s =
     andthen (parsepipe n s) (\<lambda>cmd s.
     andthen (parsebacks n cmd s) (\<lambda>cmd s.
     case peek s '';'' of
       (False, s) \<Rightarrow> Some (Inr (cmd, s))
     | (True, s) \<Rightarrow> case gettoken s of (_, _, _, s) \<Rightarrow>
         andthen (parseline n s) (\<lambda>right s. Some (Inr (LIST cmd right, s)))))"
| "parsepipe 0 s = None"
| "parsepipe (Suc n) s =
     andthen (parseexec n s) (\<lambda>cmd s.
     case peek s ''|'' of
       (False, s) \<Rightarrow> Some (Inr (cmd, s))
     | (True, s) \<Rightarrow> case gettoken s of (_, _, _, s) \<Rightarrow>
         andthen (parsepipe n s) (\<lambda>right s. Some (Inr (PIPE cmd right, s))))"
| "parseexec 0 s = None"
| "parseexec (Suc n) s =
     (case peek s ''('' of
        (True, s) \<Rightarrow> parseblock n s
      | (False, s) \<Rightarrow> andthen (parseredirs n (EXEC []) s) (\<lambda>ret s. parseargs n 0 ret s))"
| "parseblock 0 s = None"
| "parseblock (Suc n) s =
     (case peek s ''('' of
        (False, s) \<Rightarrow> Some (Inl ''parseblock'')
      | (True, s) \<Rightarrow> case gettoken s of (_, _, _, s) \<Rightarrow>
          andthen (parseline n s) (\<lambda>cmd s.
          case peek s '')'' of
            (False, s) \<Rightarrow> Some (Inl ''syntax - missing )'')
          | (True, s) \<Rightarrow> case gettoken s of (_, _, _, s) \<Rightarrow> parseredirs n cmd s))"

section \<open>The strings of a command\<close>

text \<open>Storing a zero at a pointer into the line \<open>b\<close>; at its end there is one already.\<close>

definition put_nul :: "ptr \<Rightarrow> byte list \<Rightarrow> byte list" where
  "put_nul p b = b[length b - length p := 0]"

primrec nulterminate :: "pcmd \<Rightarrow> byte list \<Rightarrow> byte list" where
  "nulterminate (EXEC args) b = foldl (\<lambda>b w. put_nul (snd w) b) b args"
| "nulterminate (REDIR c w mode fd) b = put_nul (snd w) (nulterminate c b)"
| "nulterminate (PIPE l r) b = nulterminate r (nulterminate l b)"
| "nulterminate (LIST l r) b = nulterminate r (nulterminate l b)"
| "nulterminate (BACK c) b = nulterminate c b"

text \<open>The string at a pointer into the line \<open>b\<close>.\<close>

definition cstring :: "byte list \<Rightarrow> ptr \<Rightarrow> byte list" where
  "cstring b p = takeWhile (\<lambda>c. c \<noteq> 0) (drop (length b - length p) b)"

text \<open>
  \<^verbatim>\<open>parsecmd\<close> up to the message of an error: the command and the line with its zeros. The parser
  descends at most four calls for every byte of the line.
\<close>

definition parsecmd :: "byte list \<Rightarrow> (string \<times> ptr + pcmd \<times> byte list) option" where
  "parsecmd b =
     (case parseline (4 * length b + 4) b of
        None \<Rightarrow> None
      | Some (Inl m) \<Rightarrow> Some (Inl (m, []))
      | Some (Inr (cmd, s)) \<Rightarrow>
          case peek s '''' of (_, s) \<Rightarrow>
          if s \<noteq> [] then Some (Inl (''syntax'', s)) else Some (Inr (cmd, nulterminate cmd b)))"

section \<open>Running commands\<close>

definition sh_panic :: "'w os \<Rightarrow> string \<Rightarrow> ('w ust, 'a) K" where
  "sh_panic os m = thenK (ufprintf os 2 (ln ''%s'') [Fstr (Some (str m))]) (uexit 1)"

definition fork1 :: "'w os \<Rightarrow> ('w ust, i32) K" where
  "fork1 os = bindK (ucall_int os Ufork) (\<lambda>pid. if pid = -1 then sh_panic os ''fork'' else returnK pid)"

definition pipe_end :: "nat \<Rightarrow> byte list \<Rightarrow> i32" where
  "pipe_end i p = word_of (take 4 (drop (4 * i) p))"

primrec runcmd :: "'w os \<Rightarrow> byte list \<Rightarrow> pcmd \<Rightarrow> ('w ust, unit) K" where
  "runcmd os b (EXEC args) =
     (if args = [] then uexit 1 else
      let argv = map (\<lambda>w. cstring b (fst w)) args in
      thenK (uexec os (hd argv) argv) (
      thenK (ufprintf os 2 (ln ''exec %s failed'') [Fstr (Some (hd argv))]) (uexit 0)))"
| "runcmd os b (REDIR c w mode fd) =
     thenK (ucall_void os (Uclose fd)) (
     bindK (ucall_int os (Uopen (cstring b (fst w)) mode)) (\<lambda>r.
     if sint r < 0 then thenK (ufprintf os 2 (ln ''open %s failed'') [Fstr (Some (cstring b (fst w)))]) (uexit 1) else
     runcmd os b c))"
| "runcmd os b (LIST l r) =
     bindK (fork1 os) (\<lambda>pid.
     if pid = 0 then runcmd os b l else
     thenK (ucall_void os Uwait) (runcmd os b r))"
| "runcmd os b (PIPE l r) =
     bindK (usys os Upipe) (\<lambda>(x, p).
     if sint x < 0 then sh_panic os ''pipe'' else
     bindK (fork1 os) (\<lambda>pid.
     if pid = 0 then
       thenK (ucall_void os (Uclose 1)) (
       thenK (ucall_void os (Udup (pipe_end 1 p))) (
       thenK (ucall_void os (Uclose (pipe_end 0 p))) (
       thenK (ucall_void os (Uclose (pipe_end 1 p))) (
       runcmd os b l)))) else
     bindK (fork1 os) (\<lambda>pid.
     if pid = 0 then
       thenK (ucall_void os (Uclose 0)) (
       thenK (ucall_void os (Udup (pipe_end 0 p))) (
       thenK (ucall_void os (Uclose (pipe_end 0 p))) (
       thenK (ucall_void os (Uclose (pipe_end 1 p))) (
       runcmd os b r)))) else
     thenK (ucall_void os (Uclose (pipe_end 0 p))) (
     thenK (ucall_void os (Uclose (pipe_end 1 p))) (
     thenK (ucall_void os Uwait) (
     thenK (ucall_void os Uwait) (uexit 0)))))))"
| "runcmd os b (BACK c) =
     bindK (fork1 os) (\<lambda>pid.
     if pid = 0 then runcmd os b c else uexit 0)"

definition run_line :: "'w os \<Rightarrow> byte list \<Rightarrow> ('w ust, unit) K" where
  "run_line os line =
     (case parsecmd line of
        None \<Rightarrow> panic ''undefined''
      | Some (Inl (m, s)) \<Rightarrow>
          thenK (whenK (s \<noteq> []) (ufprintf os 2 (ln ''leftovers: %s'') [Fstr (Some s)])) (sh_panic os m)
      | Some (Inr (cmd, b)) \<Rightarrow> runcmd os b cmd)"

definition getcmd :: "'w os \<Rightarrow> ('w ust, byte list option) K" where
  "getcmd os =
     thenK (ucall_void os (Uwrite 2 (str ''$ ''))) (
     bindK (gets os 100) (\<lambda>buf.
     let line = takeWhile (\<lambda>c. c \<noteq> 0) buf in
     returnK (if line = [] then None else Some line)))"

definition sh_main :: "'w os \<Rightarrow> ('w ust, unit) K" where
  "sh_main os =
     thenK (loopK (\<lambda>_.
       bindK (ucall_int os (Uopen (str ''console'') 2)) (\<lambda>fd.
       if sint fd < 0 then returnK (Inr ())
       else if 3 \<le> sint fd then thenK (ucall_void os (Uclose fd)) (returnK (Inr ()))
       else returnK (Inl ()))) ()) (
     thenK (loopK (\<lambda>_.
       bindK (getcmd os) (\<lambda>r.
       case r of
         None \<Rightarrow> returnK (Inr ())
       | Some line \<Rightarrow>
           if take 3 line = str ''cd '' then
             let dir = drop 3 (butlast line) in
             bindK (ucall_int os (Uchdir dir)) (\<lambda>r.
             thenK (whenK (sint r < 0) (ufprintf os 2 (ln ''cannot cd %s'') [Fstr (Some dir)])) (returnK (Inl ())))
           else
             bindK (fork1 os) (\<lambda>pid.
             thenK (whenK (pid = 0) (run_line os line)) (
             thenK (ucall_void os Uwait) (returnK (Inl ())))))) ())
     (uexit 0))"

end
