(* ===== verification/Sh_Parse.thy ===== *)
theory Sh_Parse
  imports Sh
begin

text \<open>
  The shell's parser always ends, with an error or with a command whose words are
  words of the line; the zeros of \<^verbatim>\<open>nulterminate\<close> cut out exactly these words; and every command is the
  result of parsing a line that can be printed from it.
\<close>

section \<open>Tokens\<close>

definition space :: "byte \<Rightarrow> bool" where
  "space c \<longleftrightarrow> ustrchr whitespace c \<noteq> None"

definition wordchar :: "byte \<Rightarrow> bool" where
  "wordchar c \<longleftrightarrow> ustrchr whitespace c = None \<and> ustrchr symbols c = None"

lemma skip_space_suffix [simp]: "suffix (skip_space s) s"
  by (simp add: skip_space_def suffix_dropWhile)

lemma skip_space_Nil [simp]: "skip_space [] = []"
  by (simp add: skip_space_def)

lemma skip_word_suffix [simp]: "suffix (skip_word s) s"
  by (simp add: skip_word_def suffix_dropWhile)

lemma suffix_tl: "suffix (tl s) s"
  by (cases s) (auto simp: suffix_ConsI)

lemma suffix_length: "suffix s t \<Longrightarrow> length s \<le> length t"
  by (auto simp: suffix_def)

lemma suffix_notin: "suffix s t \<Longrightarrow> c \<notin> set t \<Longrightarrow> c \<notin> set s"
  by (auto simp: suffix_def)

lemma at_0: "0 \<notin> set s \<Longrightarrow> at s = 0 \<longleftrightarrow> s = []"
  by (auto simp: at_def split: list.split)

text \<open>A line is free of zero bytes; every parser function moves along it.\<close>

lemma gettoken_moves:
  assumes "gettoken s = (tok, q, eq, s')"
  shows "suffix eq q \<and> suffix q s \<and> suffix s' eq \<and> q = skip_space s \<and> s' = skip_space eq"
proof -
  let ?q = "skip_space s"
  have "suffix (tl (tl ?q)) ?q" by (rule suffix_order.trans [OF suffix_tl suffix_tl])
  then show ?thesis using assms by (auto simp: gettoken_def Let_def suffix_tl split: if_splits)
qed

lemma ustrchr_absent: "ustrchr s c = None \<longleftrightarrow> c \<notin> set s"
  by (induction s) auto

lemma set_symbols: "set symbols = {60, 124, 62, 38, 59, 40, 41}"
  by (simp add: symbols_def str_def ch_def)

lemma set_single: "set (str ''|();&<'') = {124, 40, 41, 59, 38, 60}"
  by (simp add: str_def ch_def)

lemma ch_gt [simp]: "ch CHR ''>'' = 62" "ch CHR ''<'' = 60" "ch CHR ''+'' = 43" "ch CHR ''a'' = 97" "ch CHR ''|'' = 124"
    "ch CHR ''&'' = 38" "ch CHR '';'' = 59" "ch CHR ''('' = 40" "ch CHR '')'' = 41"
  by (simp_all add: ch_def)

lemma skip_space_hd: "skip_space s = c # r \<Longrightarrow> \<not> space c"
  using hd_dropWhile [of "\<lambda>c. ustrchr whitespace c \<noteq> None" s] by (simp add: skip_space_def space_def)

text \<open>The next token, by the first character after the blanks.\<close>

lemma gettoken_cases:
  assumes "skip_space s = c # r" and "c \<noteq> 0"
  shows "gettoken s =
    (if c \<in> set symbols then
       (if c = 62 \<and> at r = 62 then (43, c # r, tl r, skip_space (tl r)) else (c, c # r, r, skip_space r))
     else (97, c # r, skip_word r, skip_space (skip_word r)))"
proof -
  have "\<not> space c" by (rule skip_space_hd [OF assms(1)])
  then have "c \<notin> set symbols \<Longrightarrow> skip_word (c # r) = skip_word r"
    by (simp add: skip_word_def space_def ustrchr_absent)
  moreover have "c \<in> set symbols \<longleftrightarrow> c = 62 \<or> c \<in> set (str ''|();&<'')" by (auto simp: set_symbols set_single)
  ultimately show ?thesis using assms by (auto simp: gettoken_def Let_def at_def set_single)
qed

lemma gettoken_progress:
  assumes "gettoken s = (tok, q, eq, s')" and "0 \<notin> set s" and "skip_space s \<noteq> []"
  shows "length s' < length s \<and> tok \<noteq> 0"
proof -
  obtain c r where q: "skip_space s = c # r" using assms(3) by (cases "skip_space s") auto
  have "0 \<notin> set (c # r)" using assms(2) suffix_notin [OF skip_space_suffix [of s]] q by metis
  then have "suffix eq r \<and> tok \<noteq> 0" using gettoken_cases [OF q] assms(1)
    by (auto simp: set_symbols suffix_tl split: if_splits)
  moreover have "length s' \<le> length eq" "length (c # r) \<le> length s"
    using gettoken_moves [OF assms(1)] suffix_length q by metis+
  ultimately show ?thesis using suffix_length [of eq r] by simp
qed

lemma gettoken_end: "gettoken s = (tok, q, eq, s') \<Longrightarrow> skip_space s = [] \<Longrightarrow> tok = 0 \<and> s' = []"
  by (auto simp: gettoken_def Let_def at_def)

lemma skip_space_idem [simp]: "skip_space (skip_space s) = skip_space s"
  by (induction s) (auto simp: skip_space_def)

lemma peek_moves: "peek s toks = (r, s') \<Longrightarrow> s' = skip_space s \<and> (r \<longrightarrow> s' \<noteq> [])"
  by (auto simp: peek_def Let_def at_def)

section \<open>The parser ends\<close>

text \<open>The outcome of a parser function at \<open>s\<close>: not out of fuel, and no way back.\<close>

definition ends :: "ptr \<Rightarrow> 'a parse \<Rightarrow> bool" where
  "ends s r \<longleftrightarrow> r \<noteq> None \<and> (\<forall>c s'. r = Some (Inr (c, s')) \<longrightarrow> suffix s' s)"

lemma ends_simps [simp]: "ends s (Some (Inl m))" "ends s (Some (Inr (c, s'))) \<longleftrightarrow> suffix s' s" "\<not> ends s None"
  by (simp_all add: ends_def)

lemma ends_mono: "ends s r \<Longrightarrow> suffix s t \<Longrightarrow> ends t r"
  by (auto simp: ends_def intro: suffix_order.trans)

lemma ends_andthen:
  assumes "ends s r" and "\<And>c s'. r = Some (Inr (c, s')) \<Longrightarrow> suffix s' s \<Longrightarrow> ends s (f c s')"
  shows "ends s (andthen r f)"
  using assms by (auto simp: andthen_def ends_def split: option.splits sum.splits)

lemma shorter:
  assumes "suffix s3 s2" "suffix s2 s" "length s2 < length s" "0 \<notin> set s2"
  shows "suffix s3 s \<and> length s3 < length s \<and> 0 \<notin> set s3"
  using suffix_order.trans [OF assms(1,2)] suffix_length [OF assms(1)] suffix_notin [OF assms(1,4)] assms(3) by simp

lemma gettoken_suffix: "gettoken s = (tok, q, eq, s') \<Longrightarrow> suffix s' s"
  using gettoken_moves by (blast intro: suffix_order.trans)

lemma peek_gettoken:
  assumes "peek s toks = (True, s1)" and "gettoken s1 = (tok, q, eq, s2)" and "0 \<notin> set s"
  shows "suffix s2 s \<and> length s2 < length s \<and> 0 \<notin> set s2"
proof -
  have m: "s1 = skip_space s" "s1 \<noteq> []" using peek_moves [OF assms(1)] by auto
  then have z: "0 \<notin> set s1" using assms(3) suffix_notin [OF skip_space_suffix] by blast
  have "length s2 < length s1" using gettoken_progress [OF assms(2) z] m by simp
  moreover have "suffix s2 s" using gettoken_suffix [OF assms(2)] m(1) by (auto intro: suffix_order.trans)
  moreover have "length s1 \<le> length s" using m(1) suffix_length [OF skip_space_suffix] by simp
  ultimately show ?thesis using suffix_notin [of s2 s 0] assms(3) by simp
qed

lemma andthen_assoc: "andthen (andthen r f) g = andthen r (\<lambda>a s. andthen (f a s) g)"
  by (simp add: andthen_def split: option.split sum.split prod.split)

lemma parseredirs_ends:
  assumes "length s < n" and "0 \<notin> set s"
  shows "ends s (parseredirs n cmd s)"
  using assms
proof (induction n arbitrary: cmd s)
  case (Suc n)
  obtain r s1 where p: "peek s ''<>'' = (r, s1)" by fastforce
  obtain tok q1 e1 s2 where t1: "gettoken s1 = (tok, q1, e1, s2)" by (metis prod_cases4)
  obtain a q e s3 where t2: "gettoken s2 = (a, q, e, s3)" by (metis prod_cases4)
  show ?case
  proof (cases r)
    case True
    have s2: "suffix s2 s" "length s2 < length s" "0 \<notin> set s2" using peek_gettoken [of s "''<>''" s1] p True t1 Suc.prems by auto
    have s3: "suffix s3 s" "length s3 < length s" "0 \<notin> set s3"
      using shorter [OF gettoken_suffix [OF t2] s2] by simp_all
    have "ends s3 (parseredirs n (redir_of tok cmd q e) s3)"
      using s3 Suc.prems by (intro Suc.IH) auto
    then have "ends s (parseredirs n (redir_of tok cmd q e) s3)" by (rule ends_mono) (rule s3(1))
    then show ?thesis using p True t1 t2 by simp
  next
    case False
    then show ?thesis using p peek_moves [OF p] by simp
  qed
qed simp

lemma parseargs_ends:
  assumes "length s < n" and "0 \<notin> set s"
  shows "ends s (parseargs n argc ret s)"
  using assms
proof (induction n arbitrary: argc ret s)
  case (Suc n)
  obtain r s1 where p: "peek s ''|)&;'' = (r, s1)" by fastforce
  obtain tok q e s2 where t: "gettoken s1 = (tok, q, e, s2)" by (metis prod_cases4)
  have s1: "s1 = skip_space s" using peek_moves [OF p] by simp
  have s2: "suffix s2 s" using gettoken_suffix [OF t] s1 by (auto intro: suffix_order.trans)
  show ?case
  proof (cases "r \<or> tok = 0")
    case True
    then show ?thesis using p t s1 s2 by (cases r) auto
  next
    case False
    have "s1 \<noteq> []" using gettoken_end [OF t] s1 False by auto
    then have "length s2 < length s1" "0 \<notin> set s1"
      using gettoken_progress [OF t] s1 Suc.prems(2) suffix_notin [OF skip_space_suffix] by auto
    then have l: "length s2 < n" "0 \<notin> set s2"
      using Suc.prems suffix_length [OF skip_space_suffix [of s]] s1 suffix_notin [OF s2] by auto
    have "ends s2 (andthen (parseredirs n (add_arg (q, e) ret) s2) (\<lambda>ret s. parseargs n (argc + 1) ret s))"
    proof (rule ends_andthen [OF parseredirs_ends [OF l]])
      fix c s' assume "suffix s' s2"
      then show "ends s2 (parseargs n (argc + 1) c s')"
        using l suffix_length [of s' s2] suffix_notin [of s' s2 0] by (intro ends_mono [OF Suc.IH]) auto
    qed
    then have "ends s (andthen (parseredirs n (add_arg (q, e) ret) s2) (\<lambda>ret s. parseargs n (argc + 1) ret s))"
      by (rule ends_mono) (rule s2)
    then show ?thesis using p t False by simp
  qed
qed simp

lemma parsebacks_ends:
  assumes "length s < n" and "0 \<notin> set s"
  shows "ends s (parsebacks n cmd s)"
  using assms
proof (induction n arbitrary: cmd s)
  case (Suc n)
  obtain r s1 where p: "peek s ''&'' = (r, s1)" by fastforce
  obtain tok q e s2 where t: "gettoken s1 = (tok, q, e, s2)" by (metis prod_cases4)
  show ?case
  proof (cases r)
    case True
    have s2: "suffix s2 s" "length s2 < length s" "0 \<notin> set s2" using peek_gettoken [of s "''&''" s1] p True t Suc.prems by auto
    then have "ends s2 (parsebacks n (BACK cmd) s2)" using Suc.prems by (intro Suc.IH) auto
    then have "ends s (parsebacks n (BACK cmd) s2)" by (rule ends_mono) (rule s2(1))
    then show ?thesis using p True t by simp
  next
    case False
    then show ?thesis using p peek_moves [OF p] by simp
  qed
qed simp

lemma block_ends:
  assumes IH: "\<And>s. 0 \<notin> set s \<Longrightarrow> 4 * length s + 4 \<le> n \<Longrightarrow> ends s (parseline n s)"
    and "0 \<notin> set s" and "4 * length s + 1 \<le> Suc n"
  shows "ends s (parseblock (Suc n) s)"
proof -
  obtain r s1 where p: "peek s ''('' = (r, s1)" by fastforce
  obtain tok q e s2 where t: "gettoken s1 = (tok, q, e, s2)" by (metis prod_cases4)
  show ?thesis
  proof (cases r)
    case True
    have s2: "suffix s2 s" "length s2 < length s" "0 \<notin> set s2" using peek_gettoken [of s "''(''" s1] p True t assms(2) by auto
    let ?close = "\<lambda>cmd s. case peek s '')'' of (False, s) \<Rightarrow> Some (Inl ''syntax - missing )'')
      | (True, s) \<Rightarrow> case gettoken s of (_, _, _, s) \<Rightarrow> parseredirs n cmd s"
    have "ends s2 (andthen (parseline n s2) ?close)"
    proof (rule ends_andthen [OF IH])
      fix c s3 assume s3: "suffix s3 s2"
      obtain r' s4 where p': "peek s3 '')'' = (r', s4)" by fastforce
      obtain tok' q' e' s5 where t': "gettoken s4 = (tok', q', e', s5)" by (metis prod_cases4)
      show "ends s2 (?close c s3)"
      proof (cases r')
        case True
        have "suffix s5 s3" "length s5 < length s3" "0 \<notin> set s5"
          using peek_gettoken [of s3 "'')''" s4] p' True t' suffix_notin [OF s3 s2(3)] by auto
        moreover from this have "suffix s5 s2" "length s5 < n" using s3 suffix_length [OF s3] s2(2) assms(3) by (auto intro: suffix_order.trans)
        ultimately have "ends s2 (parseredirs n c s5)" by (blast intro: ends_mono parseredirs_ends)
        then show ?thesis using p' True t' by simp
      next
        case False
        then show ?thesis using p' by simp
      qed
    qed (use s2 assms(3) in auto)
    then have "ends s (andthen (parseline n s2) ?close)" by (rule ends_mono) (rule s2(1))
    then show ?thesis using p True t by simp
  next
    case False
    then show ?thesis using p by simp
  qed
qed

lemma exec_ends:
  assumes IH: "\<And>s. 0 \<notin> set s \<Longrightarrow> 4 * length s + 1 \<le> n \<Longrightarrow> ends s (parseblock n s)"
    and "0 \<notin> set s" and "4 * length s + 2 \<le> Suc n"
  shows "ends s (parseexec (Suc n) s)"
proof -
  obtain r s1 where p: "peek s ''('' = (r, s1)" by fastforce
  have s1: "suffix s1 s" using peek_moves [OF p] by simp
  then have l: "length s1 \<le> length s" "0 \<notin> set s1" using suffix_length [of s1 s] suffix_notin [of s1 s 0] assms(2) by auto
  have "ends s1 (andthen (parseredirs n (EXEC []) s1) (\<lambda>ret s. parseargs n 0 ret s))"
  proof (rule ends_andthen [OF parseredirs_ends])
    fix c s2 assume "suffix s2 s1"
    then show "ends s1 (parseargs n 0 c s2)"
      using l assms(3) suffix_length [of s2 s1] suffix_notin [of s2 s1 0] by (intro ends_mono [OF parseargs_ends]) auto
  qed (use l assms(3) in auto)
  moreover have "ends s1 (parseblock n s1)" using l assms(3) by (intro IH) auto
  ultimately have "ends s (andthen (parseredirs n (EXEC []) s1) (\<lambda>ret s. parseargs n 0 ret s))" "ends s (parseblock n s1)"
    using s1 by (blast intro: ends_mono)+
  then show ?thesis using p by (cases r) simp_all
qed

text \<open>A binary operator: a first operand, and after the operator a second one by the same function.\<close>

lemma operator_ends:
  assumes "ends s first" and "0 \<notin> set s"
    and second: "\<And>t. suffix t s \<Longrightarrow> length t < length s \<Longrightarrow> 0 \<notin> set t \<Longrightarrow> ends t (parse t)"
  shows "ends s (andthen first (\<lambda>cmd s.
     case peek s toks of
       (False, s) \<Rightarrow> Some (Inr (cmd, s))
     | (True, s) \<Rightarrow> case gettoken s of (_, _, _, s) \<Rightarrow> andthen (parse s) (\<lambda>right s. Some (Inr (f cmd right, s)))))"
proof (rule ends_andthen [OF assms(1)])
  fix cmd s1 assume s1: "suffix s1 s"
  obtain r s2 where p: "peek s1 toks = (r, s2)" by fastforce
  obtain tok q e s3 where t: "gettoken s2 = (tok, q, e, s3)" by (metis prod_cases4)
  show "ends s (case peek s1 toks of
       (False, s) \<Rightarrow> Some (Inr (cmd, s))
     | (True, s) \<Rightarrow> case gettoken s of (_, _, _, s) \<Rightarrow> andthen (parse s) (\<lambda>right s. Some (Inr (f cmd right, s))))"
  proof (cases r)
    case True
    have s3: "suffix s3 s1" "length s3 < length s1" "0 \<notin> set s3"
      using peek_gettoken [of s1 toks s2] p True t suffix_notin [OF s1 assms(2)] by auto
    then have "suffix s3 s" "length s3 < length s" using s1 suffix_length [OF s1] by (auto intro: suffix_order.trans)
    then have "ends s3 (andthen (parse s3) (\<lambda>right s. Some (Inr (f cmd right, s))))"
      using s3 by (intro ends_andthen second) auto
    then have "ends s (andthen (parse s3) (\<lambda>right s. Some (Inr (f cmd right, s))))"
      by (rule ends_mono) (rule \<open>suffix s3 s\<close>)
    then show ?thesis using p True t by simp
  next
    case False
    then show ?thesis using p peek_moves [OF p] suffix_order.trans [OF skip_space_suffix s1] by simp
  qed
qed

lemma parser_ends:
  "0 \<notin> set s \<Longrightarrow> (4 * length s + 4 \<le> n \<longrightarrow> ends s (parseline n s)) \<and> (4 * length s + 3 \<le> n \<longrightarrow> ends s (parsepipe n s)) \<and>
    (4 * length s + 2 \<le> n \<longrightarrow> ends s (parseexec n s)) \<and> (4 * length s + 1 \<le> n \<longrightarrow> ends s (parseblock n s))"
proof (induction n arbitrary: s)
  case (Suc n)
  note IH = conjunct1 [OF Suc.IH] conjunct1 [OF conjunct2 [OF Suc.IH]]
    conjunct1 [OF conjunct2 [OF conjunct2 [OF Suc.IH]]] conjunct2 [OF conjunct2 [OF conjunct2 [OF Suc.IH]]]
  have "ends s (parsepipe (Suc n) s)" if "4 * length s + 3 \<le> Suc n"
    unfolding parsepipe.simps by (rule operator_ends) (use that Suc.prems IH(2,3) in auto)
  moreover have "ends s (parseline (Suc n) s)" if "4 * length s + 4 \<le> Suc n"
  proof -
    have "ends s (andthen (parsepipe n s) (parsebacks n))"
    proof (rule ends_andthen)
      fix c s1 assume "suffix s1 s"
      then show "ends s (parsebacks n c s1)"
        using that Suc.prems suffix_length [of s1 s] suffix_notin [of s1 s 0] by (intro ends_mono [OF parsebacks_ends]) auto
    qed (use that Suc.prems IH(2) in auto)
    from operator_ends [OF this Suc.prems, where parse = "parseline n" and toks = "'';''" and f = LIST] IH(1) that
    show ?thesis by (simp add: andthen_assoc)
  qed
  moreover have "ends s (parseexec (Suc n) s)" if "4 * length s + 2 \<le> Suc n"
    using exec_ends [OF _ Suc.prems that] IH(4) by auto
  moreover have "ends s (parseblock (Suc n) s)" if "4 * length s + 1 \<le> Suc n"
    using block_ends [OF _ Suc.prems that] IH(1) by auto
  ultimately show ?case by blast
qed simp

lemma parsecmd_Some:
  assumes "0 \<notin> set line"
  shows "\<exists>r. parsecmd line = Some r"
proof -
  have "ends line (parseline (4 * length line + 4) line)" using parser_ends [OF assms] by blast
  then obtain r where r: "parseline (4 * length line + 4) line = Some r" by (auto simp: ends_def)
  then show ?thesis by (auto simp: parsecmd_def split: sum.split prod.split)
qed

text \<open>
  C27. The parser returns on every line, with an error or a command: the recursion is never deeper than
  four calls per byte of the line and every loop makes progress.
\<close>

theorem parsecmd_returns: "0 \<notin> set line \<Longrightarrow> \<exists>r. parsecmd line = Some r"
  by (rule parsecmd_Some)

theorem parsecmd_returns_witness: "\<exists>r. parsecmd (str ''ls | (grep a; wc) > out &'') = Some r"
  by (rule parsecmd_returns) (simp add: str_def ch_def)

section \<open>The words of a command\<close>

text \<open>A word of the line \<open>b\<close>, and commands made of such words and of fewer than \<open>MAXARGS\<close> arguments.\<close>

definition tok_ok :: "byte list \<Rightarrow> ptr \<times> ptr \<Rightarrow> bool" where
  "tok_ok b = (\<lambda>(q, eq). suffix q b \<and> (\<exists>w. q = w @ eq \<and> w \<noteq> [] \<and> list_all wordchar w) \<and> (eq = [] \<or> \<not> wordchar (hd eq)))"

fun args_ok :: "'t cmd \<Rightarrow> bool" where
  "args_ok (EXEC args) \<longleftrightarrow> length args < MAXARGS"
| "args_ok (REDIR c w mode fd) \<longleftrightarrow> args_ok c"
| "args_ok (PIPE l r) \<longleftrightarrow> args_ok l \<and> args_ok r"
| "args_ok (LIST l r) \<longleftrightarrow> args_ok l \<and> args_ok r"
| "args_ok (BACK c) \<longleftrightarrow> args_ok c"

definition cmd_ok :: "byte list \<Rightarrow> pcmd \<Rightarrow> bool" where
  "cmd_ok b c \<longleftrightarrow> (\<forall>a \<in> set_cmd c. tok_ok b a) \<and> args_ok c"

lemma cmd_ok_simps [simp]:
  "cmd_ok b (EXEC args) \<longleftrightarrow> (\<forall>a \<in> set args. tok_ok b a) \<and> length args < MAXARGS"
  "cmd_ok b (REDIR c w mode fd) \<longleftrightarrow> cmd_ok b c \<and> tok_ok b w"
  "cmd_ok b (PIPE l r) \<longleftrightarrow> cmd_ok b l \<and> cmd_ok b r"
  "cmd_ok b (LIST l r) \<longleftrightarrow> cmd_ok b l \<and> cmd_ok b r"
  "cmd_ok b (BACK c) \<longleftrightarrow> cmd_ok b c"
  by (auto simp: cmd_ok_def)

lemma skip_word_eq: "skip_word s = dropWhile wordchar s"
  by (simp add: skip_word_def wordchar_def [abs_def])

lemma skip_word_split: "\<exists>w. s = w @ skip_word s \<and> list_all wordchar w \<and> (skip_word s = [] \<or> \<not> wordchar (hd (skip_word s)))"
  unfolding skip_word_eq using hd_dropWhile [of wordchar s]
  by (intro exI [of _ "takeWhile wordchar s"]) (auto simp: list_all_iff dest: set_takeWhileD)

lemma gettoken_word_ok:
  assumes "gettoken s = (ch CHR ''a'', q, eq, s')" and "suffix s b" and "0 \<notin> set s"
  shows "tok_ok b (q, eq)"
proof -
  have "skip_space s \<noteq> []" using gettoken_end [OF assms(1)] by auto
  then obtain c r where q: "skip_space s = c # r" by (cases "skip_space s") auto
  have "c \<noteq> 0" using assms(3) suffix_notin [OF skip_space_suffix [of s], of 0] q by auto
  have c: "c \<notin> set symbols"
    using gettoken_cases [OF q \<open>c \<noteq> 0\<close>] assms(1) by (auto simp: set_symbols split: if_splits)
  then have e: "q = c # r" "eq = skip_word r" using gettoken_cases [OF q \<open>c \<noteq> 0\<close>] assms(1) by auto
  have "wordchar c" using c skip_space_hd [OF q] by (simp add: wordchar_def space_def ustrchr_absent)
  moreover obtain w where "r = w @ eq" "list_all wordchar w" "eq = [] \<or> \<not> wordchar (hd eq)"
    using skip_word_split [of r] e(2) by blast
  moreover have "suffix q b" using suffix_order.trans [OF skip_space_suffix [of s] assms(2)] q e(1) by simp
  ultimately show ?thesis unfolding tok_ok_def using e(1) by (auto intro!: exI [of _ "c # w"])
qed

fun argc_of :: "'t cmd \<Rightarrow> nat" where
  "argc_of (EXEC args) = length args"
| "argc_of (REDIR c w mode fd) = argc_of c"
| "argc_of _ = 0"

text \<open>The result of a parser function on the line \<open>b\<close> is well-formed, with at most \<open>k\<close> arguments so far.\<close>

definition good :: "byte list \<Rightarrow> nat \<Rightarrow> pcmd parse \<Rightarrow> bool" where
  "good b k r \<longleftrightarrow> (\<forall>c s. r = Some (Inr (c, s)) \<longrightarrow> cmd_ok b c \<and> argc_of c \<le> k \<and> suffix s b)"

lemma good_simps [simp]: "good b k None" "good b k (Some (Inl m))"
  "good b k (Some (Inr (c, s))) \<longleftrightarrow> cmd_ok b c \<and> argc_of c \<le> k \<and> suffix s b"
  by (simp_all add: good_def)

lemma good_andthen:
  assumes "good b j r" and "\<And>c s. cmd_ok b c \<Longrightarrow> argc_of c \<le> j \<Longrightarrow> suffix s b \<Longrightarrow> good b k (f c s)"
  shows "good b k (andthen r f)"
proof (cases r)
  case (Some x)
  then show ?thesis using assms by (cases x) (auto simp: andthen_def)
qed (simp add: andthen_def)

lemma peek_suffix: "peek s toks = (r, s') \<Longrightarrow> suffix s b \<Longrightarrow> suffix s' b"
  using peek_moves [of s toks r s'] suffix_order.trans [OF skip_space_suffix [of s], of b] by simp

lemma token_suffix: "gettoken s = (tok, q, eq, s') \<Longrightarrow> suffix s b \<Longrightarrow> suffix s' b"
  by (rule suffix_order.trans [OF gettoken_suffix])

lemma parseredirs_good:
  assumes line: "0 \<notin> set b" and "cmd_ok b cmd" "argc_of cmd \<le> k" "suffix s b"
  shows "good b k (parseredirs n cmd s)"
  using assms(2-4)
proof (induction n arbitrary: cmd s)
  case (Suc n)
  obtain r s1 where p: "peek s ''<>'' = (r, s1)" by fastforce
  obtain tok q1 e1 s2 where t1: "gettoken s1 = (tok, q1, e1, s2)" by (metis prod_cases4)
  obtain a q e s3 where t2: "gettoken s2 = (a, q, e, s3)" by (metis prod_cases4)
  have s1: "suffix s1 b" using peek_suffix [OF p] Suc.prems by simp
  have s2: "suffix s2 b" using token_suffix [OF t1 s1] .
  have s3: "suffix s3 b" using token_suffix [OF t2 s2] .
  have "tok_ok b (q, e)" if "a = ch CHR ''a''"
    using gettoken_word_ok [of s2 q e s3 b] t2 s2 that suffix_notin [OF s2 line] by simp
  then have "good b k (parseredirs n (redir_of tok cmd q e) s3)" if "a = ch CHR ''a''"
    using that Suc.prems s3 by (intro Suc.IH) (auto simp: redir_of_def)
  then show ?case using p t1 t2 s1 Suc.prems by (cases r) auto
qed simp

lemma add_arg_ok:
  "cmd_ok b c \<Longrightarrow> argc_of c \<le> k \<Longrightarrow> tok_ok b a \<Longrightarrow> k + 1 < MAXARGS \<Longrightarrow> cmd_ok b (add_arg a c) \<and> argc_of (add_arg a c) \<le> k + 1"
  by (induction c) auto

lemma parseargs_good:
  assumes line: "0 \<notin> set b" and "cmd_ok b ret" "argc_of ret \<le> argc" "argc < MAXARGS" "suffix s b"
  shows "good b MAXARGS (parseargs n argc ret s)"
  using assms(2-5)
proof (induction n arbitrary: argc ret s)
  case (Suc n)
  obtain r s1 where p: "peek s ''|)&;'' = (r, s1)" by fastforce
  obtain tok q e s2 where t: "gettoken s1 = (tok, q, e, s2)" by (metis prod_cases4)
  have s1: "suffix s1 b" using peek_suffix [OF p] Suc.prems by simp
  have s2: "suffix s2 b" using token_suffix [OF t s1] .
  have "good b MAXARGS (andthen (parseredirs n (add_arg (q, e) ret) s2) (\<lambda>ret s. parseargs n (argc + 1) ret s))"
    if "tok = ch CHR ''a''" and m: "argc + 1 < MAXARGS"
  proof (rule good_andthen)
    have "tok_ok b (q, e)" using gettoken_word_ok [of s1 q e s2 b] t s1 that suffix_notin [OF s1 line] by simp
    then show "good b (argc + 1) (parseredirs n (add_arg (q, e) ret) s2)"
      using add_arg_ok [OF Suc.prems(1,2) _ m] s2 by (intro parseredirs_good [OF line]) auto
  qed (use m in \<open>auto intro: Suc.IH\<close>)
  then show ?case using p t s1 s2 Suc.prems by (cases r) auto
qed simp

lemma parsebacks_good: "cmd_ok b cmd \<Longrightarrow> argc_of cmd \<le> k \<Longrightarrow> suffix s b \<Longrightarrow> good b k (parsebacks n cmd s)"
proof (induction n arbitrary: cmd s)
  case (Suc n)
  obtain r s1 where p: "peek s ''&'' = (r, s1)" by fastforce
  obtain tok q e s2 where t: "gettoken s1 = (tok, q, e, s2)" by (metis prod_cases4)
  have s1: "suffix s1 b" using peek_suffix [OF p] Suc.prems by simp
  have s2: "suffix s2 b" using token_suffix [OF t s1] .
  show ?case using p t s1 s2 Suc by (cases r) auto
qed simp

lemma operator_good:
  assumes "good b k first" and "\<And>s. suffix s b \<Longrightarrow> good b k (parse s)"
    and f: "\<And>l r. cmd_ok b l \<Longrightarrow> cmd_ok b r \<Longrightarrow> cmd_ok b (f l r) \<and> argc_of (f l r) = 0"
  shows "good b k (andthen first (\<lambda>cmd s.
     case peek s toks of
       (False, s) \<Rightarrow> Some (Inr (cmd, s))
     | (True, s) \<Rightarrow> case gettoken s of (_, _, _, s) \<Rightarrow> andthen (parse s) (\<lambda>right s. Some (Inr (f cmd right, s)))))"
proof (rule good_andthen [OF assms(1)])
  fix cmd s assume c: "cmd_ok b cmd" "argc_of cmd \<le> k" and s: "suffix s b"
  obtain r s1 where p: "peek s toks = (r, s1)" by fastforce
  obtain tok q e s2 where t: "gettoken s1 = (tok, q, e, s2)" by (metis prod_cases4)
  have s1: "suffix s1 b" using peek_suffix [OF p] s by simp
  have s2: "suffix s2 b" using token_suffix [OF t s1] .
  have "good b k (andthen (parse s2) (\<lambda>right s. Some (Inr (f cmd right, s))))"
    by (rule good_andthen [OF assms(2) [OF s2]]) (use f [OF c(1)] in auto)
  then show "good b k (case peek s toks of
       (False, s) \<Rightarrow> Some (Inr (cmd, s))
     | (True, s) \<Rightarrow> case gettoken s of (_, _, _, s) \<Rightarrow> andthen (parse s) (\<lambda>right s. Some (Inr (f cmd right, s))))"
    using p t s1 c by (cases r) auto
qed

lemma block_good:
  assumes line: "0 \<notin> set b" and IH: "\<And>s. suffix s b \<Longrightarrow> good b MAXARGS (parseline n s)" and "suffix s b"
  shows "good b MAXARGS (parseblock (Suc n) s)"
proof -
  obtain r s1 where p: "peek s ''('' = (r, s1)" by fastforce
  obtain tok q e s2 where t: "gettoken s1 = (tok, q, e, s2)" by (metis prod_cases4)
  have s2: "suffix s2 b" using token_suffix [OF t peek_suffix [OF p]] assms(3) by simp
  let ?close = "\<lambda>cmd s. case peek s '')'' of (False, s) \<Rightarrow> Some (Inl ''syntax - missing )'')
    | (True, s) \<Rightarrow> case gettoken s of (_, _, _, s) \<Rightarrow> parseredirs n cmd s"
  have "good b MAXARGS (andthen (parseline n s2) ?close)"
  proof (rule good_andthen [OF IH [OF s2]])
    fix c s3 assume c: "cmd_ok b c" "argc_of c \<le> MAXARGS" and s3: "suffix s3 b"
    obtain r' s4 where p': "peek s3 '')'' = (r', s4)" by fastforce
    obtain tok' q' e' s5 where t': "gettoken s4 = (tok', q', e', s5)" by (metis prod_cases4)
    have "suffix s5 b" using token_suffix [OF t' peek_suffix [OF p' s3]] .
    then have "good b MAXARGS (parseredirs n c s5)" by (rule parseredirs_good [OF line c])
    then show "good b MAXARGS (?close c s3)" using p' t' by (cases r') auto
  qed
  then show ?thesis using p t by (cases r) auto
qed

lemma parser_good:
  assumes line: "0 \<notin> set b" and "suffix s b"
  shows "good b MAXARGS (parseline n s) \<and> good b MAXARGS (parsepipe n s) \<and>
    good b MAXARGS (parseexec n s) \<and> good b MAXARGS (parseblock n s)"
  using assms(2)
proof (induction n arbitrary: s)
  case (Suc n)
  have "good b MAXARGS (parsepipe (Suc n) s)"
    unfolding parsepipe.simps by (rule operator_good) (use Suc in auto)
  moreover have "good b MAXARGS (parseline (Suc n) s)"
  proof -
    have "good b MAXARGS (andthen (parsepipe n s) (parsebacks n))"
      using Suc by (intro good_andthen [of b MAXARGS]) (auto intro: parsebacks_good)
    from operator_good [OF this, where parse = "parseline n" and toks = "'';''" and f = LIST] Suc.IH
    show ?thesis by (simp add: andthen_assoc)
  qed
  moreover have "good b MAXARGS (parseexec (Suc n) s)"
  proof -
    obtain r s1 where p: "peek s ''('' = (r, s1)" by fastforce
    have s1: "suffix s1 b" using peek_suffix [OF p] Suc.prems by simp
    have "good b 0 (parseredirs n (EXEC []) s1)"
      by (rule parseredirs_good [OF line]) (simp_all add: MAXARGS_def s1)
    then have "good b MAXARGS (andthen (parseredirs n (EXEC []) s1) (\<lambda>ret s. parseargs n 0 ret s))"
      by (rule good_andthen) (rule parseargs_good [OF line], simp_all add: MAXARGS_def)
    then show ?thesis using p s1 Suc.IH by (cases r) auto
  qed
  moreover have "good b MAXARGS (parseblock (Suc n) s)"
    using Suc by (intro block_good [OF line]) auto
  ultimately show ?case by blast
qed simp

section \<open>The zeros\<close>

text \<open>A line after some stores: the words of \<open>b\<close> are unchanged and the bytes at \<open>Z\<close> are zero.\<close>

definition zeroed :: "byte list \<Rightarrow> nat set \<Rightarrow> byte list \<Rightarrow> bool" where
  "zeroed b Z b' \<longleftrightarrow> length b' = length b \<and> (\<forall>i < length b. wordchar (b ! i) \<longrightarrow> b' ! i = b ! i) \<and>
     (\<forall>i \<in> Z. i < length b \<longrightarrow> b' ! i = 0)"

definition end_of :: "byte list \<Rightarrow> ptr \<times> ptr \<Rightarrow> nat" where
  "end_of b a = length b - length (snd a)"

lemma tok_ok_end: "tok_ok b a \<Longrightarrow> end_of b a < length b \<Longrightarrow> \<not> wordchar (b ! end_of b a)"
  by (auto simp: tok_ok_def end_of_def suffix_def nth_append hd_conv_nth)

lemma put_nul_zeroed: "zeroed b Z b' \<Longrightarrow> tok_ok b a \<Longrightarrow> zeroed b (insert (end_of b a) Z) (put_nul (snd a) b')"
  using tok_ok_end [of b a]
  by (cases "end_of b a < length b") (auto simp: zeroed_def put_nul_def nth_list_update end_of_def list_update_beyond)

lemma args_zeroed:
  "zeroed b Z b' \<Longrightarrow> \<forall>a \<in> set args. tok_ok b a \<Longrightarrow>
   zeroed b (end_of b ` set args \<union> Z) (foldl (\<lambda>b w. put_nul (snd w) b) b' args)"
proof (induction args arbitrary: Z b')
  case (Cons a args)
  from Cons.IH [OF put_nul_zeroed [OF Cons.prems(1)]] Cons.prems(2) show ?case by simp
qed simp

lemma nulterminate_zeroed:
  "zeroed b Z b' \<Longrightarrow> \<forall>a \<in> set_cmd c. tok_ok b a \<Longrightarrow> zeroed b (end_of b ` set_cmd c \<union> Z) (nulterminate c b')"
proof (induction c arbitrary: Z b')
  case (EXEC args)
  then show ?case by (simp add: args_zeroed)
next
  case (REDIR c a mode fd)
  then have "zeroed b (end_of b ` set_cmd c \<union> Z) (nulterminate c b')" by simp
  from put_nul_zeroed [OF this, of a] show ?case using REDIR.prems(2) by simp
next
  case (PIPE l r)
  then have "zeroed b (end_of b ` set_cmd l \<union> Z) (nulterminate l b')" by simp
  from PIPE.IH(2) [OF this] show ?case using PIPE.prems(2) by (simp add: image_Un Un_ac)
next
  case (LIST l r)
  then have "zeroed b (end_of b ` set_cmd l \<union> Z) (nulterminate l b')" by simp
  from LIST.IH(2) [OF this] show ?case using LIST.prems(2) by (simp add: image_Un Un_ac)
qed simp

lemma wordchar_0: "c = 0 \<Longrightarrow> wordchar c"
  by (simp add: wordchar_def whitespace_def symbols_def str_def ch_def)

lemma zeroed_cstring:
  assumes "zeroed b Z b'" and "tok_ok b (q, eq)" and "end_of b (q, eq) \<in> Z" and "0 \<notin> set b"
  shows "cstring b' q @ eq = q"
proof -
  from assms(2) obtain w u where b: "b = u @ w @ eq" and q: "q = w @ eq" and w: "list_all wordchar w"
    by (auto simp: tok_ok_def suffix_def)
  have len: "length b' = length b" using assms(1) by (simp add: zeroed_def)
  let ?d = "drop (length u) b'"
  have tk: "take (length w) ?d = w"
  proof (rule nth_equalityI)
    fix i assume "i < length (take (length w) ?d)"
    then have i: "i < length w" by simp
    then have "wordchar (b ! (length u + i))" using w by (simp add: b nth_append list_all_length)
    then show "take (length w) ?d ! i = w ! i" using assms(1) i by (simp add: zeroed_def b len nth_append)
  qed (simp add: len b)
  have "takeWhile (\<lambda>c. c \<noteq> 0) ?d = w"
  proof (cases eq)
    case Nil
    then have "?d = w" using tk len b by simp
    moreover have "0 \<notin> set w" using assms(4) b by auto
    ultimately show ?thesis by (auto simp: takeWhile_eq_all_conv)
  next
    case (Cons c r)
    then have "b' ! (length u + length w) = 0" using assms(1,3) by (simp add: zeroed_def end_of_def b)
    then have "drop (length w) ?d = 0 # drop (Suc (length w)) ?d"
      using Cons_nth_drop_Suc [of "length w" ?d] len b Cons by (simp add: add.commute)
    then have "?d = w @ 0 # drop (Suc (length w)) ?d" using append_take_drop_id [of "length w" ?d] tk by simp
    moreover have "0 \<notin> set w" using assms(4) b by auto
    then have "takeWhile (\<lambda>c. c \<noteq> 0) (w @ 0 # r') = w" for r' by (subst takeWhile_append2) auto
    ultimately show ?thesis by metis
  qed
  then show ?thesis using len b q by (simp add: cstring_def)
qed

lemma parsed_words:
  assumes "parsecmd line = Some (Inr (c, b))" and "0 \<notin> set line"
  shows "args_ok c \<and> (\<forall>(q, eq) \<in> set_cmd c. tok_ok line (q, eq) \<and> cstring b q @ eq = q)"
proof -
  obtain s where p: "parseline (4 * length line + 4) line = Some (Inr (c, s))" and b: "b = nulterminate c line"
    using assms(1) by (auto simp: parsecmd_def split: option.splits sum.splits prod.splits if_splits)
  have "cmd_ok line c" using parser_good [OF assms(2), of line "4 * length line + 4"] p by simp
  then have ok: "\<forall>a \<in> set_cmd c. tok_ok line a" "args_ok c" by (simp_all add: cmd_ok_def)
  have "zeroed line {} line" by (simp add: zeroed_def)
  from nulterminate_zeroed [OF this ok(1)] have z: "zeroed line (end_of line ` set_cmd c) b" by (simp add: b)
  show ?thesis using ok zeroed_cstring [OF z _ _ assms(2)] by auto
qed

text \<open>
  C26. The words of a parsed command are words of the line, followed by a blank, a symbol or the end of
  the line; after \<^verbatim>\<open>nulterminate\<close> the string at the beginning of each is exactly that word, although all
  strings share the line; and no command has more arguments than \<^verbatim>\<open>argv\<close> has room for.
\<close>

theorem parsecmd_words:
  assumes "parsecmd line = Some (Inr (c, b))" and "0 \<notin> set line"
  shows "args_ok c \<and> (\<forall>(q, eq) \<in> set_cmd c. tok_ok line (q, eq) \<and> cstring b q @ eq = q)"
  using assms by (rule parsed_words)

theorem parsecmd_words_witness:
  "parsecmd [97, 62, 98] = Some (Inr (REDIR (EXEC [([97, 62, 98], [62, 98])]) ([98], []) 0x601 1, [97, 0, 98])) \<and>
   cstring [97, 0, 98] [97, 62, 98] = [97]"
proof -
  have p: "parsecmd [97, 62, 98] = Some (Inr (REDIR (EXEC [([97, 62, 98], [62, 98])]) ([98], []) 0x601 1, [97, 0, 98]))"
    by code_simp
  from parsecmd_words [OF this] show ?thesis using p by simp
qed

section \<open>Running a line\<close>

text \<open>
  A computation of a user program that returns or gives up the process, and one that always gives it
  up: by \<^verbatim>\<open>exit\<close>, or by an \<^verbatim>\<open>exec\<close> with arguments from the set \<open>A\<close> that succeeds.
\<close>

definition ended :: "byte list list set \<Rightarrow> 'w ust \<Rightarrow> bool" where
  "ended A t \<longleftrightarrow> (\<exists>n. exited t = Some n) \<or> (\<exists>argv \<in> A. argv \<noteq> [] \<and> replaced t = Some (hd argv, argv))"

definition exit_or :: "byte list list set \<Rightarrow> bool \<Rightarrow> ('w ust, 'a) K \<Rightarrow> bool" where
  "exit_or A ret m \<longleftrightarrow> (\<forall>e s. ret \<and> (\<exists>x t. m e s = Ok x t) \<or> (\<exists>t. m e s = Gone t \<and> ended A t))"

abbreviation exits :: "byte list list set \<Rightarrow> ('w ust, 'a) K \<Rightarrow> bool" where
  "exits A \<equiv> exit_or A False"

lemma exit_or_basic [simp, intro]: "exit_or A True (usys os c)" "exit_or A True (returnK x)" "exit_or A ret (uexit n)"
  by (auto simp: exit_or_def ended_def usys_def returnK_def uexit_def split: prod.splits)

lemma exit_or_mono: "exit_or A ret m \<Longrightarrow> A \<subseteq> B \<Longrightarrow> exit_or B ret m"
  unfolding exit_or_def ended_def by blast

lemma exit_or_bind [intro]:
  assumes "exit_or A True m" and f: "\<And>x. exit_or A ret (f x)"
  shows "exit_or A ret (bindK m f)"
  unfolding exit_or_def
proof (intro allI)
  fix e s
  from assms(1) consider x t where "m e s = Ok x t" | t where "m e s = Gone t" "ended A t"
    unfolding exit_or_def by blast
  then show "ret \<and> (\<exists>x t. bindK m f e s = Ok x t) \<or> (\<exists>t. bindK m f e s = Gone t \<and> ended A t)"
  proof cases
    case (1 x t)
    then show ?thesis using f [of x] by (simp add: bindK_def exit_or_def)
  next
    case 2
    then show ?thesis by (simp add: bindK_def)
  qed
qed

lemma exit_or_then [intro]: "exit_or A True m \<Longrightarrow> exit_or A ret n \<Longrightarrow> exit_or A ret (thenK m n)"
  unfolding thenK_def by (rule exit_or_bind)

lemma exit_or_calls [simp, intro]: "exit_or A True (ucall_int os c)" "exit_or A True (ucall_void os c)"
  unfolding ucall_int_def ucall_void_def by (rule exit_or_bind; simp)+

lemma uexec_exits: "argv \<in> A \<Longrightarrow> argv \<noteq> [] \<Longrightarrow> exit_or A True (uexec os (hd argv) argv)"
  unfolding uexec_def by (rule exit_or_bind, simp) (auto simp: exit_or_def ended_def returnK_def)

lemma exit_or_foreach: "(\<And>b. exit_or A True (f b)) \<Longrightarrow> exit_or A True (foreachK bs f)"
  by (induction bs) (auto intro: exit_or_then)

lemma exit_or_printf: "vprintf False (str fmt) args \<noteq> None \<Longrightarrow> exit_or A True (ufprintf os fd fmt args)"
  by (auto simp: ufprintf_def exit_or_foreach)

lemma sh_formats:
  "vprintf False (str (ln ''%s'')) [Fstr x] \<noteq> None" "vprintf False (str (ln ''exec %s failed'')) [Fstr x] \<noteq> None"
  "vprintf False (str (ln ''open %s failed'')) [Fstr x] \<noteq> None" "vprintf False (str (ln ''leftovers: %s'')) [Fstr x] \<noteq> None"
  by (simp_all add: str_def ch_def)

lemmas exit_or_formats [simp] = sh_formats [THEN exit_or_printf, simplified]

lemma sh_panic_exits [simp]: "exit_or A ret (sh_panic os m)"
  unfolding sh_panic_def by (rule exit_or_then) auto

lemma fork1_exits [simp]: "exit_or A True (fork1 os)"
  unfolding fork1_def by (rule exit_or_bind) simp_all

text \<open>The programs a command may start, with their arguments.\<close>

primrec programs :: "byte list \<Rightarrow> pcmd \<Rightarrow> byte list list set" where
  "programs b (EXEC args) = {map (\<lambda>w. cstring b (fst w)) args}"
| "programs b (REDIR c w mode fd) = programs b c"
| "programs b (PIPE l r) = programs b l \<union> programs b r"
| "programs b (LIST l r) = programs b l \<union> programs b r"
| "programs b (BACK c) = programs b c"

lemma runcmd_exits: "exits (programs b c) (runcmd os b c)"
proof (induction c)
  case (EXEC args)
  then show ?case by (auto simp: Let_def intro!: exit_or_then uexec_exits)
next
  case (REDIR c w mode fd)
  then show ?case by (auto intro!: exit_or_then exit_or_bind)
next
  case (PIPE l r)
  note l = exit_or_mono [OF PIPE.IH(1), of "programs b l \<union> programs b r"] and r = exit_or_mono [OF PIPE.IH(2), of "programs b l \<union> programs b r"]
  show ?case using l r by (auto intro!: exit_or_then exit_or_bind)
next
  case (LIST l r)
  note l = exit_or_mono [OF LIST.IH(1), of "programs b l \<union> programs b r"] and r = exit_or_mono [OF LIST.IH(2), of "programs b l \<union> programs b r"]
  show ?case using l r by (auto intro!: exit_or_then exit_or_bind)
next
  case (BACK c)
  then show ?case by (auto intro!: exit_or_then exit_or_bind)
qed

text \<open>
  C28. The child that runs a line never returns into the loop of the shell, whatever the line is and whatever the
  system calls return: it ends in \<^verbatim>\<open>exit\<close>, or in an \<^verbatim>\<open>exec\<close> that succeeds, and then the program that
  replaces it is one of the commands of the line with the words of this command as its arguments.
\<close>

theorem run_line_ends:
  assumes "0 \<notin> set line"
  shows "\<exists>t. run_line os line e s = Gone t \<and>
    ((\<exists>status. exited t = Some status) \<or>
     (\<exists>cmd b argv. parsecmd line = Some (Inr (cmd, b)) \<and> argv \<in> programs b cmd \<and> argv \<noteq> [] \<and> replaced t = Some (hd argv, argv)))"
proof -
  obtain r where r: "parsecmd line = Some r" using parsecmd_Some [OF assms] by blast
  show ?thesis
  proof (cases r)
    case (Inl m)
    have "exits {} (run_line os line)"
      unfolding run_line_def r Inl by (auto simp: whenK_def split: prod.split)
    then show ?thesis by (fastforce simp: exit_or_def ended_def)
  next
    case (Inr c)
    obtain cmd b where c: "c = (cmd, b)" by (cases c)
    have "run_line os line = runcmd os b cmd" by (simp add: run_line_def r Inr c)
    then have "exits (programs b cmd) (run_line os line)" using runcmd_exits by metis
    then obtain t where "run_line os line e s = Gone t" "ended (programs b cmd) t" unfolding exit_or_def by blast
    then show ?thesis using r Inr c by (auto simp: ended_def)
  qed
qed

theorem run_line_ends_witness:
  "\<exists>t. run_line (\<lambda>c w. ((0, []), w)) [108, 115] idle_env \<lparr>world = (), exited = None, replaced = None\<rparr> = Gone t \<and>
     ((\<exists>status. exited t = Some status) \<or> replaced t = Some ([108, 115], [[108, 115]]))"
proof -
  have p: "parsecmd [108, 115] = Some (Inr (EXEC [([108, 115], [])], [108, 115]))" by code_simp
  have c: "cstring [108, 115] [108, 115] = [108, 115]" by code_simp
  have z: "0 \<notin> set [108, 115 :: byte]" by simp
  show ?thesis
    using run_line_ends [OF z, of "\<lambda>c w. ((0, []), w)" idle_env "\<lparr>world = (), exited = None, replaced = None\<rparr>"] p c by auto
qed

end
