(* ===== verification/Sh_Print.thy ===== *)
theory Sh_Print
  imports Sh_Parse
begin

text \<open>
  Printing commands, and that the shell's parser reads back what is printed.
\<close>

section \<open>Printing\<close>

definition word_ok :: "byte list \<Rightarrow> bool" where
  "word_ok w \<longleftrightarrow> w \<noteq> [] \<and> list_all wordchar w \<and> 0 \<notin> set w"

definition redir_sym :: "i32 \<Rightarrow> byte list" where
  "redir_sym mode = (if mode = 0 then [60] else if mode = 0x601 then [62] else [62, 62])"

definition redir_ok :: "i32 \<Rightarrow> i32 \<Rightarrow> bool" where
  "redir_ok mode fd \<longleftrightarrow> mode = 0 \<and> fd = 0 \<or> mode = 0x601 \<and> fd = 1 \<or> mode = 0x201 \<and> fd = 1"

fun printable :: "byte list cmd \<Rightarrow> bool" where
  "printable (EXEC ws) \<longleftrightarrow> length ws < MAXARGS \<and> list_all word_ok ws"
| "printable (REDIR c w mode fd) \<longleftrightarrow> printable c \<and> word_ok w \<and> redir_ok mode fd"
| "printable (PIPE l r) \<longleftrightarrow> printable l \<and> printable r"
| "printable (LIST l r) \<longleftrightarrow> printable l \<and> printable r"
| "printable (BACK c) \<longleftrightarrow> printable c"

definition paren :: "bool \<Rightarrow> byte list \<Rightarrow> byte list" where
  "paren p t = (if p then [40] @ t @ [41] else t)"

abbreviation words :: "byte list list \<Rightarrow> byte list" where
  "words ws \<equiv> concat (map (\<lambda>w. w @ [32]) ws)"

text \<open>The operators in the order in which they bind: \<^verbatim>\<open>;\<close>, \<^verbatim>\<open>&\<close>, \<^verbatim>\<open>|\<close> and redirection.\<close>

fun show_cmd :: "nat \<Rightarrow> byte list cmd \<Rightarrow> byte list" where
  "show_cmd p (EXEC ws) = words ws"
| "show_cmd p (REDIR c w mode fd) = show_cmd 3 c @ redir_sym mode @ w @ [32]"
| "show_cmd p (PIPE l r) = paren (2 < p) (show_cmd 3 l @ [124] @ show_cmd 2 r)"
| "show_cmd p (BACK c) = paren (1 < p) (show_cmd 1 c @ [38])"
| "show_cmd p (LIST l r) = paren (0 < p) (show_cmd 1 l @ [59] @ show_cmd 0 r)"

section \<open>Tokens of printed text\<close>

definition text_of :: "ptr \<times> ptr \<Rightarrow> byte list" where
  "text_of = (\<lambda>(q, eq). take (length q - length eq) q)"

lemma space_iff: "space c \<longleftrightarrow> c \<in> {32, 9, 13, 10, 11}"
  by (auto simp: space_def ustrchr_absent whitespace_def)

lemma wordchar_iff: "wordchar c \<longleftrightarrow> \<not> space c \<and> c \<notin> set symbols"
  by (simp add: wordchar_def space_def ustrchr_absent)

lemma skip_space_Cons: "skip_space (c # s) = (if space c then skip_space s else c # s)"
  by (simp add: skip_space_def space_def)

lemma skip_space_simps [simp]:
  "skip_space (32 # s) = skip_space s" "skip_space (60 # s) = 60 # s" "skip_space (62 # s) = 62 # s"
  "skip_space (124 # s) = 124 # s" "skip_space (38 # s) = 38 # s" "skip_space (59 # s) = 59 # s"
  "skip_space (40 # s) = 40 # s" "skip_space (41 # s) = 41 # s"
  by (simp_all add: skip_space_Cons space_iff)

lemma word_okE:
  assumes "word_ok w"
  obtains c v where "w = c # v" "wordchar c" "c \<noteq> 0" "list_all wordchar v" "\<not> space c" "c \<notin> {60, 62, 124, 38, 59, 40, 41}"
  using assms that by (cases w) (auto simp: word_ok_def wordchar_iff set_symbols)

lemma skip_space_word: "word_ok w \<Longrightarrow> skip_space (w @ s) = w @ s"
  by (erule word_okE) (simp add: skip_space_Cons)

lemma gettoken_word: "word_ok w \<Longrightarrow> gettoken (w @ 32 # s) = (97, w @ 32 # s, 32 # s, skip_space s)"
proof (erule word_okE)
  fix c v assume w: "w = c # v" "wordchar c" "c \<noteq> 0" "list_all wordchar v" "\<not> space c"
  then have "skip_space (w @ 32 # s) = c # v @ 32 # s" by (simp add: skip_space_Cons)
  moreover have "c \<notin> set symbols" using w(2) by (simp add: wordchar_iff)
  moreover have "skip_word (v @ 32 # s) = 32 # s" unfolding skip_word_eq using w(4)
    by (subst dropWhile_append2) (auto simp: list_all_iff wordchar_iff space_iff)
  ultimately show ?thesis using w(1,3) by (simp add: gettoken_cases)
qed

lemma text_of_word [simp]: "text_of (w @ s, s) = w"
  by (simp add: text_of_def)

lemma gettoken_skip [simp]: "gettoken (skip_space s) = gettoken s"
  by (simp add: gettoken_def)

lemma peek_skip [simp]: "peek (skip_space s) toks = peek s toks"
  by (simp add: peek_def)

lemma gettoken_sym: "c \<in> {60, 124, 38, 59, 40, 41} \<Longrightarrow> gettoken (c # s) = (c, c # s, s, skip_space s)"
  using gettoken_cases [of "c # s" c s] by (auto simp: set_symbols)

lemma gettoken_redir:
  assumes "word_ok w" and "redir_ok mode fd"
  shows "\<exists>tok q e. gettoken (redir_sym mode @ w @ s) = (tok, q, e, w @ s) \<and> (\<forall>c q e. redir_of tok c q e = REDIR c (q, e) mode fd)"
proof -
  have a: "at (w @ s) \<noteq> 62" using assms(1) by (elim word_okE) (simp add: at_def)
  show ?thesis using assms(2) a skip_space_word [OF assms(1), of s]
      gettoken_cases [of "60 # w @ s" 60 "w @ s"] gettoken_cases [of "62 # w @ s" 62 "w @ s"] gettoken_cases [of "62 # 62 # w @ s" 62 "62 # w @ s"]
    by (auto simp: redir_ok_def redir_sym_def redir_of_def set_symbols at_def)
qed

text \<open>The next character after the blanks is one of \<open>T\<close>, or the text ends.\<close>

definition follow :: "byte set \<Rightarrow> byte list \<Rightarrow> bool" where
  "follow T s \<longleftrightarrow> skip_space s = [] \<or> hd (skip_space s) \<in> T"

lemma follow_simps [simp]: "follow T []" "follow T (skip_space s) = follow T s"
  by (simp_all add: follow_def)

lemma peek_no: "follow T s \<Longrightarrow> T \<inter> set (str toks) = {} \<Longrightarrow> peek s toks = (False, skip_space s)"
  by (cases "skip_space s") (auto simp: follow_def peek_def Let_def at_def ustrchr_absent)

lemma peek_yes: "skip_space s = c # r \<Longrightarrow> c \<in> set (str toks) \<Longrightarrow> c \<noteq> 0 \<Longrightarrow> peek s toks = (True, c # r)"
  by (simp add: peek_def Let_def at_def ustrchr_absent)

section \<open>Redirections and arguments\<close>

type_synonym redir = "byte list \<times> i32 \<times> i32"

definition redirs :: "redir list \<Rightarrow> byte list" where
  "redirs rs = concat (map (\<lambda>(w, mode, fd). redir_sym mode @ w @ [32]) rs)"

definition wrap :: "byte list cmd \<Rightarrow> redir list \<Rightarrow> byte list cmd" where
  "wrap c rs = foldl (\<lambda>c (w, mode, fd). REDIR c w mode fd) c rs"

definition redirs_ok :: "redir list \<Rightarrow> bool" where
  "redirs_ok rs \<longleftrightarrow> list_all (\<lambda>(w, mode, fd). word_ok w \<and> redir_ok mode fd) rs"

lemma redirs_simps [simp]:
  "redirs [] = []" "redirs ((w, mode, fd) # rs) = redir_sym mode @ w @ 32 # redirs rs"
  "wrap c [] = c" "wrap c ((w, mode, fd) # rs) = wrap (REDIR c w mode fd) rs"
  "redirs_ok []" "redirs_ok ((w, mode, fd) # rs) \<longleftrightarrow> word_ok w \<and> redir_ok mode fd \<and> redirs_ok rs"
  by (simp_all add: redirs_def wrap_def redirs_ok_def)

text \<open>A parser function has read a command with the words of \<open>c\<close> and stands before \<open>rest\<close>.\<close>

definition reads :: "pcmd parse \<Rightarrow> byte list cmd \<Rightarrow> byte list \<Rightarrow> bool" where
  "reads r c rest \<longleftrightarrow> (\<exists>c'. r = Some (Inr (c', skip_space rest)) \<and> map_cmd text_of c' = c)"

lemma reads_skip [simp]: "reads r c (skip_space s) = reads r c s"
  by (simp add: reads_def)

lemma set_toks [simp]: "set (str ''<>'') = {60, 62}" "set (str ''|)&;'') = {124, 41, 38, 59}" "set (str ''('') = {40}"
  "set (str '')'') = {41}" "set (str ''&'') = {38}" "set (str '';'') = {59}" "set (str ''|'') = {124}"
  by (simp_all add: str_def)

lemma parseredirs_skip: "parseredirs n cmd (skip_space s) = parseredirs n cmd s"
  by (cases n) simp_all

lemma parseargs_skip: "parseargs n argc ret (skip_space s) = parseargs n argc ret s"
  by (cases n) simp_all

lemma redir_sym_first: "\<exists>c r. redir_sym mode @ s = c # r \<and> c \<in> {60, 62} \<and> skip_space (c # r) = c # r"
  by (simp add: redir_sym_def)

lemma parseredirs_reads:
  assumes "redirs_ok rs" and "length rs < n" and "follow (- {60, 62}) rest"
  shows "reads (parseredirs n cmd (redirs rs @ rest)) (wrap (map_cmd text_of cmd) rs) rest"
  using assms(1,2)
proof (induction rs arbitrary: cmd n)
  case Nil
  then obtain m where n: "n = Suc m" by (cases n) auto
  show ?case using peek_no [OF assms(3), of "''<>''"] by (simp add: n reads_def)
next
  case (Cons x rs)
  obtain w mode fd where x: "x = (w, mode, fd)" by (cases x)
  obtain m where n: "n = Suc m" using Cons.prems(2) by (cases n) auto
  let ?s = "w @ 32 # redirs rs @ rest"
  obtain tok q e where t: "gettoken (redir_sym mode @ ?s) = (tok, q, e, ?s)"
    and r: "\<forall>c q e. redir_of tok c q e = REDIR c (q, e) mode fd"
    using gettoken_redir [of w mode fd "32 # redirs rs @ rest"] Cons.prems(1) by (auto simp: x)
  obtain c r' where "redir_sym mode @ ?s = c # r'" "c \<in> {60, 62}" "skip_space (c # r') = c # r'" using redir_sym_first by blast
  then have p: "peek (redir_sym mode @ ?s) ''<>'' = (True, redir_sym mode @ ?s)"
    using peek_yes [of "c # r'" c r' "''<>''"] by auto
  have w: "gettoken ?s = (97, ?s, 32 # redirs rs @ rest, skip_space (redirs rs @ rest))"
    using Cons.prems(1) by (intro gettoken_word) (simp add: x)
  have "reads (parseredirs m (REDIR cmd (?s, 32 # redirs rs @ rest) mode fd) (redirs rs @ rest)) (wrap (map_cmd text_of cmd) (x # rs)) rest"
    using Cons.IH [of m "REDIR cmd (?s, 32 # redirs rs @ rest) mode fd"] Cons.prems x n by simp
  then show ?case using t p w r by (simp add: x n parseredirs_skip)
qed

lemma parseargs_stop:
  assumes "follow {124, 41, 38, 59} rest" and "0 < n"
  shows "parseargs n argc ret rest = Some (Inr (ret, skip_space rest))"
proof -
  obtain m where n: "n = Suc m" using assms(2) by (cases n) auto
  show ?thesis
  proof (cases "skip_space rest")
    case Nil
    obtain tok q e s where t: "gettoken rest = (tok, q, e, s)" by (metis prod_cases4)
    then have "tok = 0" "s = []" using gettoken_end [OF t Nil] by auto
    moreover have "gettoken [] = (tok, q, e, s)" using t gettoken_skip [of rest] Nil by simp
    moreover have "peek rest ''|)&;'' = (False, [])" using Nil by (simp add: peek_def at_def)
    ultimately show ?thesis by (simp add: n Nil)
  next
    case (Cons c r)
    then have "c \<in> {124, 41, 38, 59}" using assms(1) by (simp add: follow_def)
    then have "peek rest ''|)&;'' = (True, c # r)" using Cons by (intro peek_yes) auto
    then show ?thesis by (simp add: n Cons)
  qed
qed

lemma parseargs_reads:
  assumes "list_all word_ok ws" and "redirs_ok rs" and "ws = [] \<longrightarrow> rs = []" and "follow {124, 41, 38, 59} rest"
    and "argc + length ws < MAXARGS" and "length ws + length rs < n"
  shows "reads (parseargs n argc (EXEC args) (words ws @ redirs rs @ rest)) (wrap (EXEC (map text_of args @ ws)) rs) rest"
  using assms
proof (induction ws arbitrary: args n argc)
  case Nil
  then show ?case by (simp add: parseargs_stop reads_def)
next
  case (Cons w ws)
  obtain m where n: "n = Suc m" using Cons.prems by (cases n) auto
  let ?r = "words ws @ redirs rs @ rest"
  let ?s = "w @ 32 # ?r" and ?a = "EXEC (args @ [(w @ 32 # ?r, 32 # ?r)])"
  have w: "word_ok w" using Cons.prems by simp
  have t: "gettoken ?s = (97, ?s, 32 # ?r, skip_space ?r)" using w by (rule gettoken_word)
  have p: "peek ?s ''|)&;'' = (False, ?s)"
    using w by (elim word_okE) (simp add: peek_def Let_def skip_space_Cons at_def ustrchr_absent)
  have go: "parseargs n argc (EXEC args) (words (w # ws) @ redirs rs @ rest) =
      andthen (parseredirs m ?a ?r) (\<lambda>ret s. parseargs m (argc + 1) ret s)"
    using t p Cons.prems(5) by (simp add: n parseredirs_skip)
  show ?case
  proof (cases ws)
    case Nil
    have "reads (parseredirs m ?a (redirs rs @ rest)) (wrap (map_cmd text_of ?a) rs) rest"
      using Cons.prems(2,4,6) n by (intro parseredirs_reads) (auto simp: follow_def)
    then obtain c' where "parseredirs m ?a (redirs rs @ rest) = Some (Inr (c', skip_space rest))" "map_cmd text_of c' = wrap (map_cmd text_of ?a) rs"
      by (auto simp: reads_def)
    then show ?thesis using go Nil Cons.prems(4,6) n by (simp add: andthen_def parseargs_stop reads_def)
  next
    case c: (Cons v vs)
    have "word_ok v" using Cons.prems(1) c by simp
    then have "follow (- {60, 62}) ?r" by (elim word_okE) (simp add: c follow_def skip_space_Cons)
    then have "reads (parseredirs m ?a (redirs [] @ ?r)) (wrap (map_cmd text_of ?a) []) ?r"
      using Cons.prems(6) n by (intro parseredirs_reads) auto
    then have "parseredirs m ?a ?r = Some (Inr (?a, skip_space ?r))"
      using \<open>follow (- {60, 62}) ?r\<close> Cons.prems(6) n peek_no [of "- {60, 62}" ?r "''<>''"] by (cases m) auto
    moreover have "reads (parseargs m (argc + 1) ?a ?r) (wrap (EXEC (map text_of (args @ [(?s, 32 # ?r)]) @ ws)) rs) rest"
      using Cons.prems c n by (intro Cons.IH) auto
    ultimately show ?thesis using go by (simp add: andthen_def parseargs_skip)
  qed
qed

section \<open>The levels of the grammar\<close>

lemma parser_skip:
  "parseblock n (skip_space s) = parseblock n s" "parseexec n (skip_space s) = parseexec n s"
  by (cases n, simp_all)+

lemma parsepipe_skip: "parsepipe n (skip_space s) = parsepipe n s"
  by (cases n) (simp_all add: parser_skip)

lemma parseline_skip: "parseline n (skip_space s) = parseline n s"
  by (cases n) (simp_all add: parsepipe_skip)

text \<open>
  What \<^verbatim>\<open>parseexec\<close>, \<^verbatim>\<open>parsepipe\<close>, \<^verbatim>\<open>parseline\<close> up to its semicolon, and \<^verbatim>\<open>parseline\<close> read, when enough fuel is
  given and a character follows that they leave to their caller.
\<close>

definition exec_reads :: "byte list cmd \<Rightarrow> bool" where
  "exec_reads c \<longleftrightarrow> (\<forall>n rs rest. redirs_ok rs \<longrightarrow> follow {124, 41, 38, 59} rest \<longrightarrow>
     4 * length (show_cmd 3 c @ redirs rs @ rest) + 2 \<le> n \<longrightarrow>
     reads (parseexec n (show_cmd 3 c @ redirs rs @ rest)) (wrap c rs) rest)"

definition pipe_reads :: "byte list cmd \<Rightarrow> bool" where
  "pipe_reads c \<longleftrightarrow> (\<forall>n rest. follow {41, 38, 59} rest \<longrightarrow> 4 * length (show_cmd 2 c @ rest) + 3 \<le> n \<longrightarrow>
     reads (parsepipe n (show_cmd 2 c @ rest)) c rest)"

definition back_reads :: "byte list cmd \<Rightarrow> bool" where
  "back_reads c \<longleftrightarrow> (\<forall>n k rest. follow {41, 59} rest \<longrightarrow> 4 * length (show_cmd 1 c @ replicate k 38 @ rest) + 3 \<le> n \<longrightarrow>
     reads (andthen (parsepipe n (show_cmd 1 c @ replicate k 38 @ rest)) (parsebacks n)) ((BACK ^^ k) c) rest)"

definition line_reads :: "byte list cmd \<Rightarrow> bool" where
  "line_reads c \<longleftrightarrow> (\<forall>n rest. follow {41} rest \<longrightarrow> 4 * length (show_cmd 0 c @ rest) + 4 \<le> n \<longrightarrow>
     reads (parseline n (show_cmd 0 c @ rest)) c rest)"

lemmas exec_readsD = exec_reads_def [THEN iffD1, rule_format]
  and pipe_readsD = pipe_reads_def [THEN iffD1, rule_format]
  and back_readsD = back_reads_def [THEN iffD1, rule_format]
  and line_readsD = line_reads_def [THEN iffD1, rule_format]

lemma readsE:
  assumes "reads r c rest"
  obtains c' where "r = Some (Inr (c', skip_space rest))" "map_cmd text_of c' = c"
  using assms by (auto simp: reads_def)

lemma follow_mono: "follow T s \<Longrightarrow> T \<subseteq> U \<Longrightarrow> follow U s"
  by (auto simp: follow_def)

lemma redirs_first:
  assumes "follow {124, 41, 38, 59} rest"
  shows "peek (redirs rs @ rest) ''('' = (False, skip_space (redirs rs @ rest))"
proof (cases rs)
  case Nil
  then show ?thesis using peek_no [OF assms, of "''(''"] by simp
next
  case (Cons x xs)
  obtain w mode fd where x: "x = (w, mode, fd)" by (cases x)
  show ?thesis by (auto simp: Cons x redir_sym_def peek_def Let_def at_def ustrchr_absent)
qed

lemma exec_reads_words:
  assumes "list_all word_ok ws" and "length ws < MAXARGS"
  shows "exec_reads (EXEC ws)"
  unfolding exec_reads_def
proof (intro allI impI)
  fix n rs rest
  assume rs: "redirs_ok rs" and f: "follow {124, 41, 38, 59} rest"
    and n: "4 * length (show_cmd 3 (EXEC ws) @ redirs rs @ rest) + 2 \<le> n"
  let ?s = "words ws @ redirs rs @ rest"
  obtain m where m: "n = Suc m" using n by (cases n) auto
  have "length rs \<le> length (redirs rs)" by (induction rs) (auto simp: redir_sym_def)
  moreover have "length ws \<le> length (words ws)" by (induction ws) auto
  ultimately have l: "length ws + length rs < m" using n m by simp
  show "reads (parseexec n (show_cmd 3 (EXEC ws) @ redirs rs @ rest)) (wrap (EXEC ws) rs) rest"
  proof (cases ws)
    case Nil
    have "reads (parseredirs m (EXEC []) (redirs rs @ rest)) (wrap (map_cmd text_of (EXEC [])) rs) rest"
      using rs f l by (intro parseredirs_reads) (auto elim: follow_mono)
    then obtain c' where "parseredirs m (EXEC []) (redirs rs @ rest) = Some (Inr (c', skip_space rest))"
      "map_cmd text_of c' = wrap (EXEC []) rs" by (auto elim: readsE)
    then show ?thesis using redirs_first [OF f] f l
      by (simp add: m Nil parseredirs_skip parseargs_skip andthen_def parseargs_stop reads_def)
  next
    case (Cons w vs)
    then have "word_ok w" using assms(1) by simp
    then have k: "skip_space ?s = ?s" "peek ?s ''('' = (False, ?s)" "peek ?s ''<>'' = (False, ?s)"
      by (elim word_okE, simp add: Cons skip_space_Cons peek_def Let_def at_def ustrchr_absent)+
    then have "parseredirs m (EXEC []) ?s = Some (Inr (EXEC [], ?s))" using l by (cases m) auto
    moreover have "reads (parseargs m 0 (EXEC []) ?s) (wrap (EXEC (map text_of [] @ ws)) rs) rest"
      using assms rs f l Cons by (intro parseargs_reads) auto
    ultimately show ?thesis using k by (simp add: m andthen_def)
  qed
qed

lemma exec_reads_block:
  assumes "line_reads c" and show3: "show_cmd 3 c = 40 # show_cmd 0 c @ [41]"
  shows "exec_reads c"
  unfolding exec_reads_def
proof (intro allI impI)
  fix n rs rest
  assume rs: "redirs_ok rs" and f: "follow {124, 41, 38, 59} rest"
    and n: "4 * length (show_cmd 3 c @ redirs rs @ rest) + 2 \<le> n"
  let ?x = "redirs rs @ rest"
  obtain m where m: "n = Suc (Suc m)" using n by (cases n; cases "n - 1") auto
  have "length rs \<le> length (redirs rs)" by (induction rs) (auto simp: redir_sym_def)
  then have l: "length rs < m" "4 * length (show_cmd 0 c @ 41 # ?x) + 4 \<le> m" using n m show3 by simp_all
  have "reads (parseline m (show_cmd 0 c @ 41 # ?x)) c (41 # ?x)"
    using assms(1) l(2) by (simp add: line_reads_def follow_def)
  then obtain c' where c': "parseline m (show_cmd 0 c @ 41 # ?x) = Some (Inr (c', 41 # ?x))" "map_cmd text_of c' = c"
    by (auto elim: readsE)
  have "reads (parseredirs m c' ?x) (wrap (map_cmd text_of c') rs) rest"
    using rs f l by (intro parseredirs_reads) (auto elim: follow_mono)
  then have "reads (parseblock (Suc m) (40 # show_cmd 0 c @ 41 # ?x)) (wrap c rs) rest"
    using c' by (simp add: peek_yes gettoken_sym parseline_skip parseredirs_skip andthen_def)
  then show "reads (parseexec n (show_cmd 3 c @ redirs rs @ rest)) (wrap c rs) rest"
    by (simp add: m show3 peek_yes del: parseblock.simps)
qed

lemma pipe_reads_exec:
  assumes "exec_reads c" and "show_cmd 2 c = show_cmd 3 c"
  shows "pipe_reads c"
  unfolding pipe_reads_def
proof (intro allI impI)
  fix n rest assume f: "follow {41, 38, 59} rest" and n: "4 * length (show_cmd 2 c @ rest) + 3 \<le> n"
  obtain m where m: "n = Suc m" using n by (cases n) auto
  have "reads (parseexec m (show_cmd 3 c @ redirs [] @ rest)) (wrap c []) rest"
    using assms n m follow_mono [OF f, of "{124, 41, 38, 59}"] by (intro exec_readsD) auto
  then obtain c' where "parseexec m (show_cmd 3 c @ rest) = Some (Inr (c', skip_space rest))" "map_cmd text_of c' = c"
    by (auto elim: readsE)
  then show "reads (parsepipe n (show_cmd 2 c @ rest)) c rest"
    using assms(2) peek_no [OF f, of "''|''"] by (simp add: m andthen_def reads_def)
qed

lemma pipe_reads_pipe:
  assumes "exec_reads l" and "pipe_reads r"
  shows "pipe_reads (PIPE l r)"
  unfolding pipe_reads_def
proof (intro allI impI)
  fix n rest assume f: "follow {41, 38, 59} rest" and n: "4 * length (show_cmd 2 (PIPE l r) @ rest) + 3 \<le> n"
  obtain m where m: "n = Suc m" using n by (cases n) auto
  let ?r = "show_cmd 2 r @ rest"
  have s: "show_cmd 2 (PIPE l r) @ rest = show_cmd 3 l @ 124 # ?r" by (simp add: paren_def)
  have "reads (parseexec m (show_cmd 3 l @ redirs [] @ 124 # ?r)) (wrap l []) (124 # ?r)"
    using assms(1) n m s by (intro exec_readsD) (auto simp: follow_def)
  then obtain l' where l': "parseexec m (show_cmd 3 l @ 124 # ?r) = Some (Inr (l', 124 # ?r))" "map_cmd text_of l' = l"
    by (auto elim: readsE)
  have "reads (parsepipe m ?r) r rest" using assms(2) f n m s by (intro pipe_readsD) auto
  then obtain r' where r': "parsepipe m ?r = Some (Inr (r', skip_space rest))" "map_cmd text_of r' = r"
    by (auto elim: readsE)
  show "reads (parsepipe n (show_cmd 2 (PIPE l r) @ rest)) (PIPE l r) rest"
    using l' r' unfolding s by (simp add: m andthen_def peek_yes gettoken_sym parsepipe_skip reads_def)
qed

lemma parsebacks_skip: "parsebacks n cmd (skip_space s) = parsebacks n cmd s"
  by (cases n) simp_all

lemma parsebacks_reads:
  "follow {41, 59} rest \<Longrightarrow> k < n \<Longrightarrow> parsebacks n cmd (replicate k 38 @ rest) = Some (Inr ((BACK ^^ k) cmd, skip_space rest))"
proof (induction k arbitrary: n cmd)
  case 0
  then show ?case using peek_no [OF 0(1), of "''&''"] by (cases n) auto
next
  case (Suc k)
  obtain m where m: "n = Suc m" using Suc.prems(2) by (cases n) auto
  have "parsebacks m (BACK cmd) (skip_space (replicate k 38 @ rest)) = Some (Inr ((BACK ^^ Suc k) cmd, skip_space rest))"
    using Suc m by (simp add: parsebacks_skip funpow_swap1)
  then show ?case by (simp add: m peek_yes gettoken_sym)
qed

lemma map_cmd_backs: "map_cmd f ((BACK ^^ k) c) = (BACK ^^ k) (map_cmd f c)"
  by (induction k) auto

lemma follow_amps: "follow {41, 59} rest \<Longrightarrow> follow {41, 38, 59} (replicate k 38 @ rest)"
  by (cases k) (auto simp: follow_def)

lemma back_reads_pipe:
  assumes "pipe_reads c" and "show_cmd 1 c = show_cmd 2 c"
  shows "back_reads c"
  unfolding back_reads_def
proof (intro allI impI)
  fix n k rest
  assume f: "follow {41, 59} rest" and n: "4 * length (show_cmd 1 c @ replicate k 38 @ rest) + 3 \<le> n"
  have "reads (parsepipe n (show_cmd 2 c @ replicate k 38 @ rest)) c (replicate k 38 @ rest)"
    using assms n follow_amps [OF f] by (simp add: pipe_reads_def)
  then obtain c' where c': "parsepipe n (show_cmd 2 c @ replicate k 38 @ rest) = Some (Inr (c', skip_space (replicate k 38 @ rest)))"
    "map_cmd text_of c' = c" by (auto elim: readsE)
  have "parsebacks n c' (skip_space (replicate k 38 @ rest)) = Some (Inr ((BACK ^^ k) c', skip_space rest))"
    using parsebacks_reads [OF f, of k n c'] n by (simp add: parsebacks_skip)
  then show "reads (andthen (parsepipe n (show_cmd 1 c @ replicate k 38 @ rest)) (parsebacks n)) ((BACK ^^ k) c) rest"
    using c' assms(2) by (simp add: andthen_def reads_def map_cmd_backs)
qed

lemma back_reads_back:
  assumes "back_reads c"
  shows "back_reads (BACK c)"
  unfolding back_reads_def
proof (intro allI impI)
  fix n k rest
  assume f: "follow {41, 59} rest" and n: "4 * length (show_cmd 1 (BACK c) @ replicate k 38 @ rest) + 3 \<le> n"
  have s: "show_cmd 1 (BACK c) @ replicate k 38 @ rest = show_cmd 1 c @ replicate (Suc k) 38 @ rest" by (simp add: paren_def)
  show "reads (andthen (parsepipe n (show_cmd 1 (BACK c) @ replicate k 38 @ rest)) (parsebacks n)) ((BACK ^^ k) (BACK c)) rest"
    using back_readsD [OF assms f n [unfolded s]] unfolding s by (simp only: funpow_Suc_right comp_apply)
qed

lemma line_unfold:
  "parseline (Suc m) s = andthen (andthen (parsepipe m s) (parsebacks m)) (\<lambda>cmd s.
     case peek s '';'' of
       (False, s) \<Rightarrow> Some (Inr (cmd, s))
     | (True, s) \<Rightarrow> case gettoken s of (_, _, _, s) \<Rightarrow>
         andthen (parseline m s) (\<lambda>right s. Some (Inr (LIST cmd right, s))))"
  by (simp add: andthen_assoc)

lemma line_reads_back:
  assumes "back_reads c" and "show_cmd 0 c = show_cmd 1 c"
  shows "line_reads c"
  unfolding line_reads_def
proof (intro allI impI)
  fix n rest assume f: "follow {41} rest" and n: "4 * length (show_cmd 0 c @ rest) + 4 \<le> n"
  obtain m where m: "n = Suc m" using n by (cases n) auto
  have "reads (andthen (parsepipe m (show_cmd 1 c @ replicate 0 38 @ rest)) (parsebacks m)) ((BACK ^^ 0) c) rest"
    using assms n m follow_mono [OF f, of "{41, 59}"] by (intro back_readsD) auto
  then obtain c' where "andthen (parsepipe m (show_cmd 1 c @ rest)) (parsebacks m) = Some (Inr (c', skip_space rest))"
    "map_cmd text_of c' = c" by (auto elim: readsE)
  then show "reads (parseline n (show_cmd 0 c @ rest)) c rest"
    unfolding m line_unfold using assms(2) peek_no [OF f, of "'';''"] by (simp add: andthen_def reads_def)
qed

lemma line_reads_list:
  assumes "back_reads l" and "line_reads r"
  shows "line_reads (LIST l r)"
  unfolding line_reads_def
proof (intro allI impI)
  fix n rest assume f: "follow {41} rest" and n: "4 * length (show_cmd 0 (LIST l r) @ rest) + 4 \<le> n"
  obtain m where m: "n = Suc m" using n by (cases n) auto
  let ?r = "show_cmd 0 r @ rest"
  have s: "show_cmd 0 (LIST l r) @ rest = show_cmd 1 l @ 59 # ?r" by (simp add: paren_def)
  have "reads (andthen (parsepipe m (show_cmd 1 l @ replicate 0 38 @ 59 # ?r)) (parsebacks m)) ((BACK ^^ 0) l) (59 # ?r)"
    using assms(1) n m s by (intro back_readsD) (auto simp: follow_def)
  then obtain l' where l': "andthen (parsepipe m (show_cmd 1 l @ 59 # ?r)) (parsebacks m) = Some (Inr (l', 59 # ?r))"
    "map_cmd text_of l' = l" by (auto elim: readsE)
  have "reads (parseline m ?r) r rest" using assms(2) f n m s by (intro line_readsD) auto
  then obtain r' where r': "parseline m ?r = Some (Inr (r', skip_space rest))" "map_cmd text_of r' = r"
    by (auto elim: readsE)
  show "reads (parseline n (show_cmd 0 (LIST l r) @ rest)) (LIST l r) rest"
    using l' r' unfolding s m line_unfold by (simp add: andthen_def peek_yes gettoken_sym parseline_skip reads_def)
qed

lemma simple_reads:
  assumes "exec_reads c" "show_cmd 2 c = show_cmd 3 c" "show_cmd 1 c = show_cmd 2 c" "show_cmd 0 c = show_cmd 1 c"
  shows "exec_reads c \<and> pipe_reads c \<and> back_reads c \<and> line_reads c"
proof -
  have p: "pipe_reads c" using assms(1,2) by (rule pipe_reads_exec)
  have b: "back_reads c" using p assms(3) by (rule back_reads_pipe)
  have "line_reads c" using b assms(4) by (rule line_reads_back)
  then show ?thesis using assms(1) p b by simp
qed

lemma printable_reads: "printable c \<Longrightarrow> exec_reads c \<and> pipe_reads c \<and> back_reads c \<and> line_reads c"
proof (induction c)
  case (EXEC ws)
  then have "exec_reads (EXEC ws)" by (intro exec_reads_words) auto
  then show ?case using simple_reads by simp
next
  case (REDIR c w mode fd)
  have "exec_reads (REDIR c w mode fd)"
    unfolding exec_reads_def
  proof (intro allI impI)
    fix n rs rest
    assume rs: "redirs_ok rs" and f: "follow {124, 41, 38, 59} rest"
      and n: "4 * length (show_cmd 3 (REDIR c w mode fd) @ redirs rs @ rest) + 2 \<le> n"
    have "reads (parseexec n (show_cmd 3 c @ redirs ((w, mode, fd) # rs) @ rest)) (wrap c ((w, mode, fd) # rs)) rest"
      using REDIR rs f n by (intro exec_readsD) auto
    then show "reads (parseexec n (show_cmd 3 (REDIR c w mode fd) @ redirs rs @ rest)) (wrap (REDIR c w mode fd) rs) rest"
      by simp
  qed
  then show ?case using simple_reads by simp
next
  case (PIPE l r)
  then have p: "pipe_reads (PIPE l r)" by (intro pipe_reads_pipe) auto
  then have "back_reads (PIPE l r)" by (rule back_reads_pipe) (simp add: paren_def)
  then have l: "line_reads (PIPE l r)" by (rule line_reads_back) (simp add: paren_def)
  then have "exec_reads (PIPE l r)" by (rule exec_reads_block) (simp add: paren_def)
  then show ?case using p \<open>back_reads (PIPE l r)\<close> l by simp
next
  case (LIST l r)
  then have l: "line_reads (LIST l r)" by (intro line_reads_list) auto
  then have e: "exec_reads (LIST l r)" by (rule exec_reads_block) (simp add: paren_def)
  then have p: "pipe_reads (LIST l r)" by (rule pipe_reads_exec) (simp add: paren_def)
  then have "back_reads (LIST l r)" by (rule back_reads_pipe) (simp add: paren_def)
  then show ?case using l e p by simp
next
  case (BACK c)
  then have b: "back_reads (BACK c)" by (intro back_reads_back) auto
  then have l: "line_reads (BACK c)" by (rule line_reads_back) (simp add: paren_def)
  then have e: "exec_reads (BACK c)" by (rule exec_reads_block) (simp add: paren_def)
  then have "pipe_reads (BACK c)" by (rule pipe_reads_exec) (simp add: paren_def)
  then show ?case using l e b by simp
qed

section \<open>The round trip\<close>

lemma show_cmd_no_zero: "printable c \<Longrightarrow> 0 \<notin> set (show_cmd p c)"
  by (induction c arbitrary: p) (auto simp: word_ok_def list_all_iff redir_sym_def paren_def)

lemma printed_parse:
  assumes "printable c"
  obtains c' where "parsecmd (show_cmd 0 c) = Some (Inr (c', nulterminate c' (show_cmd 0 c)))" "map_cmd text_of c' = c"
proof -
  have "reads (parseline (4 * length (show_cmd 0 c) + 4) (show_cmd 0 c @ [])) c []"
    using printable_reads [OF assms] by (intro line_readsD) auto
  then obtain c' where "parseline (4 * length (show_cmd 0 c) + 4) (show_cmd 0 c) = Some (Inr (c', []))" "map_cmd text_of c' = c"
    by (auto elim: readsE)
  then show ?thesis using that [of c'] by (simp add: parsecmd_def peek_def)
qed

text \<open>
  C25. Every command with well-formed words is read back from its printed form: the parser returns a
  tree of the same shape, and after \<^verbatim>\<open>nulterminate\<close> the strings its pointers lead to are the words of the
  command. Precedence, grouping and the order of redirections are those of the printer.
\<close>

theorem parse_show:
  assumes "printable c"
  shows "\<exists>c' b. parsecmd (show_cmd 0 c) = Some (Inr (c', b)) \<and> map_cmd (\<lambda>(q, eq). cstring b q) c' = c"
proof -
  obtain c' where p: "parsecmd (show_cmd 0 c) = Some (Inr (c', nulterminate c' (show_cmd 0 c)))" "map_cmd text_of c' = c"
    using printed_parse [OF assms] .
  have "(\<lambda>(q, eq). cstring (nulterminate c' (show_cmd 0 c)) q) a = text_of a" if "a \<in> set_cmd c'" for a
  proof (cases a)
    case (Pair q eq)
    have "cstring (nulterminate c' (show_cmd 0 c)) q @ eq = q"
      using parsed_words [OF p(1) show_cmd_no_zero [OF assms]] that Pair by auto
    then show ?thesis unfolding Pair prod.case by (metis text_of_word)
  qed
  then have "map_cmd (\<lambda>(q, eq). cstring (nulterminate c' (show_cmd 0 c)) q) c' = map_cmd text_of c'"
    by (rule cmd.map_cong0)
  then show ?thesis using p by metis
qed

theorem parse_show_witness:
  "\<exists>c' b. parsecmd (str ''(ls ;cat <in >>out )|wc -l &'') = Some (Inr (c', b)) \<and>
     map_cmd (\<lambda>(q, eq). cstring b q) c' =
       BACK (PIPE (LIST (EXEC [str ''ls'']) (REDIR (REDIR (EXEC [str ''cat'']) (str ''in'') 0 0) (str ''out'') 0x201 1))
         (EXEC [str ''wc'', str ''-l'']))"
proof -
  let ?c = "BACK (PIPE (LIST (EXEC [str ''ls'']) (REDIR (REDIR (EXEC [str ''cat'']) (str ''in'') 0 0) (str ''out'') 0x201 1))
         (EXEC [str ''wc'', str ''-l'']))"
  have "printable ?c"
    by (simp add: word_ok_def redir_ok_def wordchar_iff space_iff set_symbols str_def ch_def MAXARGS_def)
  from parse_show [OF this] show ?thesis
    by (simp add: paren_def redir_sym_def str_def ch_def)
qed

end
