(* ===== verification/Mkfs.thy ===== *)
theory Mkfs
  imports Fs
begin

text \<open>
  \<^verbatim>\<open>mkfs/mkfs.c\<close>, the program that builds the file system image on the development host. The image is a
  map from byte offsets to the sectors that have been written; reading a sector that was never
  written fails, as \<^verbatim>\<open>read\<close> does behind the end of the file, and writing never fails. The flag \<open>h\<close> says
  whether the host is big-endian: integers in \<^verbatim>\<open>struct\<close>s are host values, and the bytes of the image are
  those of their representation in the host's memory. \<^verbatim>\<open>die\<close> and a failed \<^verbatim>\<open>assert\<close> are panics.
\<close>

section \<open>Byte order\<close>

definition host_bytes :: "bool \<Rightarrow> nat \<Rightarrow> 'a::len word \<Rightarrow> byte list" where
  "host_bytes h n w = (if h then rev (bytes_of n w) else bytes_of n w)"

definition host_word :: "bool \<Rightarrow> byte list \<Rightarrow> 'a::len word" where
  "host_word h bs = word_of (if h then rev bs else bs)"

definition xshort :: "bool \<Rightarrow> u16 \<Rightarrow> u16" where
  "xshort h x = host_word h [ucast x, ucast (drop_bit 8 x)]"

definition xint :: "bool \<Rightarrow> u32 \<Rightarrow> u32" where
  "xint h x = host_word h [ucast x, ucast (drop_bit 8 x), ucast (drop_bit 16 x), ucast (drop_bit 24 x)]"

section \<open>The image\<close>

definition FSSIZE :: nat where [simp]: "FSSIZE = 2000"
definition NINODES :: nat where [simp]: "NINODES = 200"
definition nbitmap :: nat where [simp]: "nbitmap = FSSIZE div (BSIZE * 8) + 1"
definition ninodeblocks :: nat where [simp]: "ninodeblocks = NINODES div IPB + 1"
definition nlog :: nat where [simp]: "nlog = LOGSIZE"
definition nmeta :: nat where [simp]: "nmeta = 2 + nlog + ninodeblocks + nbitmap"
definition nblocks :: nat where [simp]: "nblocks = FSSIZE - nmeta"

record mkfs_st =
  image :: "u32 \<Rightarrow> byte list option"
  msb :: superblock
  freeinode :: u32
  freeblock :: u32

definition wsect :: "u32 \<Rightarrow> byte list \<Rightarrow> (mkfs_st, unit) K" where
  "wsect sec buf = modifyK (\<lambda>s. s\<lparr>image := (image s)(sec * of_nat BSIZE \<mapsto> buf)\<rparr>)"

definition rsect :: "u32 \<Rightarrow> (mkfs_st, byte list) K" where
  "rsect sec =
     bindK (getsK (\<lambda>s. image s (sec * of_nat BSIZE))) (\<lambda>b.
     case b of None \<Rightarrow> panic ''read'' | Some buf \<Rightarrow> returnK buf)"

section \<open>Inodes\<close>

record dinode =
  d_type :: u16
  d_major :: u16
  d_minor :: u16
  d_nlink :: u16
  d_size :: u32
  d_addrs :: "u32 list"

definition din_bytes :: "bool \<Rightarrow> dinode \<Rightarrow> byte list" where
  "din_bytes h d = host_bytes h 2 (d_type d) @ host_bytes h 2 (d_major d) @ host_bytes h 2 (d_minor d) @
     host_bytes h 2 (d_nlink d) @ host_bytes h 4 (d_size d) @ concat (map (host_bytes h 4) (d_addrs d))"

definition din_of :: "bool \<Rightarrow> byte list \<Rightarrow> dinode" where
  "din_of h bs = (let f = (\<lambda>n i. take n (drop i bs)) in
     \<lparr>d_type = host_word h (f 2 0), d_major = host_word h (f 2 2), d_minor = host_word h (f 2 4),
      d_nlink = host_word h (f 2 6), d_size = host_word h (f 4 8),
      d_addrs = map (\<lambda>i. host_word h (f 4 (12 + 4 * i))) [0..<Suc NDIRECT]\<rparr>)"

definition winode :: "bool \<Rightarrow> u32 \<Rightarrow> dinode \<Rightarrow> (mkfs_st, unit) K" where
  "winode h inum ip =
     bindK (getsK (\<lambda>s. IBLOCK inum (msb s))) (\<lambda>bn.
     bindK (rsect bn) (\<lambda>buf.
     wsect bn (put_bytes buf (dinode_off inum) (din_bytes h ip))))"

definition rinode :: "bool \<Rightarrow> u32 \<Rightarrow> (mkfs_st, dinode) K" where
  "rinode h inum =
     bindK (getsK (\<lambda>s. IBLOCK inum (msb s))) (\<lambda>bn.
     bindK (rsect bn) (\<lambda>buf. returnK (din_of h (take 64 (drop (dinode_off inum) buf)))))"

definition mk_ialloc :: "bool \<Rightarrow> u16 \<Rightarrow> (mkfs_st, u32) K" where
  "mk_ialloc h type =
     bindK (getsK freeinode) (\<lambda>inum.
     thenK (modifyK (\<lambda>s. s\<lparr>freeinode := inum + 1\<rparr>)) (
     thenK (winode h inum \<lparr>d_type = xshort h type, d_major = 0, d_minor = 0, d_nlink = xshort h 1,
       d_size = xint h 0, d_addrs = replicate (Suc NDIRECT) 0\<rparr>)
     (returnK inum)))"

section \<open>Blocks\<close>

primrec mark_used :: "nat \<Rightarrow> byte list \<Rightarrow> byte list" where
  "mark_used 0 buf = buf"
| "mark_used (Suc i) buf = (let buf = mark_used i buf in buf[i div 8 := buf ! (i div 8) OR push_bit (i mod 8) 1])"

definition mk_balloc :: "nat \<Rightarrow> (mkfs_st, unit) K" where
  "mk_balloc used =
     (if \<not> used < BSIZE * 8 then panic ''assert'' else
      bindK (getsK (\<lambda>s. sb_bmapstart (msb s))) (\<lambda>sec.
      wsect sec (mark_used used (replicate BSIZE 0))))"

definition take_block :: "(mkfs_st, u32) K" where
  "take_block = bindK (getsK freeblock) (\<lambda>b. thenK (modifyK (\<lambda>s. s\<lparr>freeblock := b + 1\<rparr>)) (returnK b))"

text \<open>The sector of block \<open>fbn\<close> of a file, allocated when there is none.\<close>

definition file_sector :: "bool \<Rightarrow> dinode \<Rightarrow> nat \<Rightarrow> (mkfs_st, dinode \<times> u32) K" where
  "file_sector h din fbn =
     (let slot = (if fbn < NDIRECT then fbn else NDIRECT) in
      bindK (if xint h (d_addrs din ! slot) = 0
             then bindK take_block (\<lambda>b. returnK (din\<lparr>d_addrs := (d_addrs din)[slot := xint h b]\<rparr>))
             else returnK din) (\<lambda>din.
      let x = xint h (d_addrs din ! slot) in
      if fbn < NDIRECT then returnK (din, x) else
      bindK (rsect x) (\<lambda>indirect.
      let i = 4 * (fbn - NDIRECT) in
      if host_word h (take 4 (drop i indirect)) = (0 :: u32) then
        bindK take_block (\<lambda>b.
        thenK (wsect x (put_bytes indirect i (host_bytes h 4 (xint h b))))
          (returnK (din, xint h (xint h b))))
      else returnK (din, xint h (host_word h (take 4 (drop i indirect)))))))"

definition iappend_body :: "bool \<Rightarrow> dinode \<times> u32 \<times> byte list \<Rightarrow> (mkfs_st, dinode \<times> u32 \<times> byte list + dinode \<times> u32) K" where
  "iappend_body h = (\<lambda>(din, off, p).
     if p = [] then returnK (Inr (din, off)) else
     let fbn = unat off div BSIZE in
     if \<not> fbn < MAXFILE then panic ''assert'' else
     bindK (file_sector h din fbn) (\<lambda>(din, x).
     let n1 = min (length p) ((fbn + 1) * BSIZE - unat off) in
     bindK (rsect x) (\<lambda>buf.
     thenK (wsect x (put_bytes buf (unat off - fbn * BSIZE) (take n1 p)))
       (returnK (Inl (din, off + of_nat n1, drop n1 p))))))"

definition iappend :: "bool \<Rightarrow> u32 \<Rightarrow> byte list \<Rightarrow> (mkfs_st, unit) K" where
  "iappend h inum p =
     bindK (rinode h inum) (\<lambda>din.
     bindK (loopK (iappend_body h) (din, xint h (d_size din), p)) (\<lambda>(din, off).
     winode h inum (din\<lparr>d_size := xint h off\<rparr>)))"

section \<open>The program\<close>

definition make_sb :: "bool \<Rightarrow> superblock" where
  "make_sb h = \<lparr>sb_magic = FSMAGIC, sb_size = xint h (of_nat FSSIZE), sb_nblocks = xint h (of_nat nblocks),
     sb_ninodes = xint h (of_nat NINODES), sb_nlog = xint h (of_nat nlog), sb_logstart = xint h 2,
     sb_inodestart = xint h (of_nat (2 + nlog)), sb_bmapstart = xint h (of_nat (2 + nlog + ninodeblocks))\<rparr>"

definition sb_bytes :: "bool \<Rightarrow> superblock \<Rightarrow> byte list" where
  "sb_bytes h b = concat (map (host_bytes h 4) [sb_magic b, sb_size b, sb_nblocks b, sb_ninodes b, sb_nlog b,
     sb_logstart b, sb_inodestart b, sb_bmapstart b])"

definition make_dirent :: "bool \<Rightarrow> u32 \<Rightarrow> byte list \<Rightarrow> byte list" where
  "make_dirent h inum name = host_bytes h 2 (xshort h (ucast inum)) @ take DIRSIZ (name @ replicate DIRSIZ 0)"

fun chunks :: "byte list \<Rightarrow> byte list list" where
  "chunks bs = (if bs = [] then [] else take BSIZE bs # chunks (drop BSIZE bs))"

declare chunks.simps [simp del]

text \<open>One file of the command line; \<open>files\<close> gives the content of the files on the host.\<close>

definition add_file :: "(byte list \<Rightarrow> byte list option) \<Rightarrow> bool \<Rightarrow> u32 \<Rightarrow> byte list \<Rightarrow> (mkfs_st, unit) K" where
  "add_file files h rootino arg =
     (let short = (if take 5 arg = [117, 115, 101, 114, 47] then drop 5 arg else arg) in
      if 47 \<in> set short then panic ''assert'' else
      case files arg of
        None \<Rightarrow> panic ''open''
      | Some bs \<Rightarrow>
          let name = (if short \<noteq> [] \<and> hd short = 95 then tl short else short) in
          bindK (mk_ialloc h T_FILE) (\<lambda>inum.
          thenK (iappend h rootino (make_dirent h inum name))
            (foreachK (chunks bs) (iappend h inum))))"

definition fix_root :: "bool \<Rightarrow> u32 \<Rightarrow> (mkfs_st, unit) K" where
  "fix_root h rootino =
     bindK (rinode h rootino) (\<lambda>din.
     let off = (xint h (d_size din) div of_nat BSIZE + 1) * of_nat BSIZE in
     winode h rootino (din\<lparr>d_size := xint h off\<rparr>))"

definition mkfs_main :: "(byte list \<Rightarrow> byte list option) \<Rightarrow> bool \<Rightarrow> byte list list \<Rightarrow> (mkfs_st, unit) K" where
  "mkfs_main files h argv =
     (if length argv < 2 then panic ''Usage'' else
      thenK (modifyK (\<lambda>s. s\<lparr>image := Map.empty, msb := make_sb h, freeinode := 1, freeblock := of_nat nmeta\<rparr>)) (
      thenK (foreachK [0..<FSSIZE] (\<lambda>i. wsect (of_nat i) (replicate BSIZE 0))) (
      thenK (wsect 1 (put_bytes (replicate BSIZE 0) 0 (sb_bytes h (make_sb h)))) (
      bindK (mk_ialloc h T_DIR) (\<lambda>rootino.
      if rootino \<noteq> ROOTINO then panic ''assert'' else
      thenK (iappend h rootino (make_dirent h rootino [46])) (
      thenK (iappend h rootino (make_dirent h rootino [46, 46])) (
      thenK (foreachK (drop 2 argv) (add_file files h rootino)) (
      thenK (fix_root h rootino) (
      bindK (getsK freeblock) (\<lambda>used. mk_balloc (unat used)))))))))))"

end
