(* ===== verification/Mkfs_Ops.thy ===== *)
theory Mkfs_Ops
  imports Mkfs
begin

text \<open>
  The image that \<^verbatim>\<open>mkfs\<close> builds is the file system that the kernel reads: the super block, the free map and
  the content of files. The laws are stated with the kernel's own decoding functions of \<^verbatim>\<open>kernel/fs.c\<close>.
\<close>

section \<open>Byte order\<close>

lemma bytes4: "bytes_of 4 (x :: u32) = [ucast x, ucast (drop_bit 8 x), ucast (drop_bit 16 x), ucast (drop_bit 24 x)]"
  by (simp add: bytes_of_def upt_rec)

lemma bytes2: "bytes_of 2 (x :: u16) = [ucast x, ucast (drop_bit 8 x)]"
  by (simp add: bytes_of_def upt_rec)

lemma xint_eq: "xint h x = host_word h (bytes_of 4 x)"
  by (simp add: xint_def bytes4)

lemma xshort_eq: "xshort h x = host_word h (bytes_of 2 x)"
  by (simp add: xshort_def bytes2)

lemma bytes_word4: "length bs = 4 \<Longrightarrow> bytes_of 4 (word_of bs :: u32) = bs"
  using bytes_of_word_of [of bs, where 'a = 32] by simp

lemma bytes_word2: "length bs = 2 \<Longrightarrow> bytes_of 2 (word_of bs :: u16) = bs"
  using bytes_of_word_of [of bs, where 'a = 16] by simp

text \<open>On every host, the bytes of a converted value are those RISC-V expects.\<close>

lemma host_bytes_xint: "host_bytes h 4 (xint h x) = bytes_of 4 x"
  by (simp add: host_bytes_def xint_eq host_word_def bytes_word4)

lemma host_bytes_xshort: "host_bytes h 2 (xshort h x) = bytes_of 2 x"
  by (simp add: host_bytes_def xshort_eq host_word_def bytes_word2)

lemma length_host_bytes [simp]: "length (host_bytes h n w) = n"
  by (simp add: host_bytes_def)

lemma le_host [simp]: "xint False x = x" "xshort False y = y" "host_bytes False n = (bytes_of n :: 'a::len word \<Rightarrow> byte list)" "host_word False bs = word_of bs"
  by (simp_all add: xint_eq xshort_eq host_word_def host_bytes_def word_of_bytes_of fun_eq_iff)

section \<open>The super block\<close>

lemma get32_concat:
  assumes "\<forall>b \<in> set bss. length b = 4" and "i < length bss"
  shows "take 4 (drop (4 * i) (concat bss @ rest)) = bss ! i"
  using assms
proof (induction bss arbitrary: i)
  case (Cons b bss)
  then show ?case by (cases i) auto
qed simp

lemma sb_block_get:
  fixes ws :: "u32 list"
  assumes "i < length ws" "length ws \<le> 8"
  shows "get32 (put_bytes (replicate BSIZE 0) 0 (concat (map (host_bytes h 4) ws))) (4 * i) = word_of (host_bytes h 4 (ws ! i))"
  using get32_concat [of "map (host_bytes h 4) ws" i "drop (length (concat (map (host_bytes h 4) ws))) (replicate BSIZE 0)"] assms
  by (simp add: get32_def put_bytes_def)

lemma bytes_sb:
  "sb_get (put_bytes (replicate BSIZE 0) 0 (sb_bytes h (make_sb h))) =
     \<lparr>sb_magic = word_of (host_bytes h 4 FSMAGIC), sb_size = 2000, sb_nblocks = 1954, sb_ninodes = 200, sb_nlog = 30,
      sb_logstart = 2, sb_inodestart = 32, sb_bmapstart = 45\<rparr>"
proof -
  let ?b = "make_sb h"
  let ?ws = "[sb_magic ?b, sb_size ?b, sb_nblocks ?b, sb_ninodes ?b, sb_nlog ?b, sb_logstart ?b, sb_inodestart ?b, sb_bmapstart ?b]"
  define blk where "blk = put_bytes (replicate BSIZE 0) 0 (sb_bytes h ?b)"
  have g: "get32 blk (4 * i) = word_of (host_bytes h 4 (?ws ! i))" if "i < 8" for i
    using sb_block_get [of i ?ws h] that by (simp add: blk_def sb_bytes_def del: BSIZE_def)
  have "sb_get blk = \<lparr>sb_magic = word_of (host_bytes h 4 FSMAGIC), sb_size = 2000, sb_nblocks = 1954, sb_ninodes = 200,
      sb_nlog = 30, sb_logstart = 2, sb_inodestart = 32, sb_bmapstart = 45\<rparr>"
    using g [of 0] g [of 1] g [of 2] g [of 3] g [of 4] g [of 5] g [of 6] g [of 7]
    by (simp add: sb_get_def make_sb_def host_bytes_xint word_of_bytes_of)
  then show ?thesis by (simp only: blk_def)
qed

section \<open>The free map\<close>

lemma length_mark_used [simp]: "length (mark_used k buf) = length buf"
  by (induction k) (simp_all add: Let_def)

lemma byte_bit: "i < 8 \<Longrightarrow> (b :: byte) AND push_bit i 1 \<noteq> 0 \<longleftrightarrow> bit b i"
proof -
  assume "i < 8"
  then have "b AND push_bit i 1 = 0 \<longleftrightarrow> (\<forall>n < 8. \<not> (bit b n \<and> n = i))"
    by (subst bit_eq_iff) (auto simp: bit_and_iff bit_exp_iff simp del: bit_eq_iff)
  then show ?thesis using \<open>i < 8\<close> by auto
qed

lemma bm_used_bit: "bm_used data b \<longleftrightarrow> bit (data ! (b div 8)) (b mod 8)"
  unfolding bm_used_def by (rule byte_bit) simp

lemma mark_used_bits:
  assumes "k \<le> 8 * length buf" and "b < 8 * length buf"
  shows "bm_used (mark_used k buf) b \<longleftrightarrow> b < k \<or> bm_used buf b"
  using assms(1)
proof (induction k)
  case (Suc k)
  have "b div 8 < length buf" "k div 8 < length buf" using assms(2) Suc.prems by auto
  moreover have "b = k \<longleftrightarrow> b div 8 = k div 8 \<and> b mod 8 = k mod 8" by (metis div_mult_mod_eq)
  ultimately show ?case using Suc
    by (auto simp: bm_used_bit Let_def nth_list_update bit_or_iff bit_exp_iff less_Suc_eq)
qed simp

lemma find_first: "p k \<Longrightarrow> (\<And>i. i < k \<Longrightarrow> \<not> p i) \<Longrightarrow> k < n \<Longrightarrow> List.find p [0..<n] = Some k"
  by (auto simp: find_Some_iff intro!: exI [of _ k])

text \<open>
  C30. After \<^verbatim>\<open>balloc(used)\<close> of \<^verbatim>\<open>mkfs\<close>, the free map on the image says exactly that the first \<^verbatim>\<open>used\<close> blocks are
  in use, in the bits the kernel tests, and the block that the kernel's \<^verbatim>\<open>balloc\<close> chooses is number \<^verbatim>\<open>used\<close>.
\<close>

theorem free_map:
  assumes "used < FSSIZE"
  shows "\<exists>t data. mk_balloc used e s = Ok () t \<and> image t (sb_bmapstart (msb s) * of_nat BSIZE) = Some data \<and>
    (\<forall>b < BPB. bm_used data b \<longleftrightarrow> b < used) \<and> bm_find data 0 (of_nat FSSIZE) = Some used"
proof -
  let ?d = "mark_used used (replicate BSIZE 0)"
  have bits: "bm_used ?d b \<longleftrightarrow> b < used" if "b < BPB" for b
    using mark_used_bits [of used "replicate BSIZE 0" b] that assms by (simp add: bm_used_bit)
  have less: "of_nat b < (2000 :: u32) \<longleftrightarrow> b < 2000" if "b < 8192" for b
    using that by (simp add: word_less_nat_alt unat_of_nat)
  have "bm_find ?d 0 (of_nat FSSIZE) = Some used"
    unfolding bm_find_def using assms bits less by (intro find_first) auto
  then show ?thesis using bits assms by (auto simp: mk_balloc_def wsect_def bindK_def getsK_def modifyK_def)
qed

theorem free_map_witness:
  "\<exists>t data. mk_balloc 700 idle_env \<lparr>image = Map.empty, msb = make_sb False, freeinode = 1, freeblock = 700\<rparr> = Ok () t \<and>
     image t (45 * 1024) = Some data \<and> bm_used data 699 \<and> \<not> bm_used data 700 \<and> bm_find data 0 2000 = Some 700"
  using free_map [of 700 idle_env "\<lparr>image = Map.empty, msb = make_sb False, freeinode = 1, freeblock = 700\<rparr>"]
  by (auto simp: make_sb_def)

end
