(* ===== verification/Mkfs_Files.thy ===== *)
theory Mkfs_Files
  imports Mkfs_Ops
begin

text \<open>
  \<^verbatim>\<open>iappend\<close> of \<^verbatim>\<open>mkfs\<close>: the blocks of a file on the image, through the direct addresses and the indirect block,
  and that appending bytes to a file appends them to the content the kernel finds there. The
  host is little-endian.
\<close>

section \<open>Sectors\<close>

definition sec :: "mkfs_st \<Rightarrow> u32 \<Rightarrow> byte list" where
  "sec s b = (case image s (b * 1024) of Some buf \<Rightarrow> buf | None \<Rightarrow> [])"

definition secs_ok :: "mkfs_st \<Rightarrow> bool" where
  "secs_ok s \<longleftrightarrow> (\<forall>b < 2000. image s (b * 1024) \<noteq> None \<and> length (sec s b) = 1024)"

definition put_sec :: "u32 \<Rightarrow> byte list \<Rightarrow> mkfs_st \<Rightarrow> mkfs_st" where
  "put_sec x buf s = s\<lparr>image := (image s)(x * 1024 \<mapsto> buf)\<rparr>"

lemma put_sec_fields [simp]:
  "msb (put_sec x buf s) = msb s" "freeinode (put_sec x buf s) = freeinode s" "freeblock (put_sec x buf s) = freeblock s"
  by (simp_all add: put_sec_def)

lemma sec_free [simp]: "sec (s\<lparr>freeblock := k\<rparr>) b = sec s b" "secs_ok (s\<lparr>freeblock := k\<rparr>) = secs_ok s"
  by (simp_all add: sec_def secs_ok_def)

lemma sector_inj: "a < 2000 \<Longrightarrow> b < 2000 \<Longrightarrow> a * 1024 = b * 1024 \<longleftrightarrow> a = (b :: u32)"
proof -
  assume "a < 2000" "b < 2000"
  then have "unat a < 2000" "unat b < 2000" by (simp_all add: word_less_nat_alt)
  then have "unat (a * 1024) = unat a * 1024" "unat (b * 1024) = unat b * 1024" by (simp_all add: unat_word_ariths)
  then show ?thesis by (metis mult_right_cancel unat_eq_zero word_unat_eq_iff zero_neq_numeral unat_numeral)
qed

lemma sec_put: "x < 2000 \<Longrightarrow> b < 2000 \<Longrightarrow> sec (put_sec x buf s) b = (if b = x then buf else sec s b)"
  by (auto simp: sec_def put_sec_def sector_inj)

lemma secs_ok_put: "secs_ok s \<Longrightarrow> x < 2000 \<Longrightarrow> length buf = 1024 \<Longrightarrow> secs_ok (put_sec x buf s)"
  by (auto simp: secs_ok_def sec_put) (auto simp: put_sec_def)

lemma rsect_run: "secs_ok s \<Longrightarrow> x < 2000 \<Longrightarrow> rsect x e s = Ok (sec s x) s"
  by (auto simp: rsect_def secs_ok_def sec_def monad_defs split: option.splits)

lemma wsect_run: "wsect x buf e s = Ok () (put_sec x buf s)"
  by (simp add: wsect_def put_sec_def monad_defs)

lemma take_block_run: "take_block e s = Ok (freeblock s) (s\<lparr>freeblock := freeblock s + 1\<rparr>)"
  by (simp add: take_block_def monad_defs)

text \<open>The sectors that have not been given out are zero.\<close>

definition fresh :: "mkfs_st \<Rightarrow> bool" where
  "fresh s \<longleftrightarrow> (\<forall>b < 2000. freeblock s \<le> b \<longrightarrow> sec s b = replicate 1024 0)"

section \<open>The blocks of a file\<close>

definition entry :: "mkfs_st \<Rightarrow> u32 \<Rightarrow> nat \<Rightarrow> u32" where
  "entry s ind j = get32 (sec s ind) (4 * j)"

text \<open>The sectors \<open>bl\<close> hold the data and \<open>ind\<close> is the indirect block of an inode.\<close>

definition blocks_of :: "u32 list \<Rightarrow> u32 \<Rightarrow> u32 list" where
  "blocks_of bl ind = bl @ (if 12 < length bl then [ind] else [])"

definition blocks_rep :: "mkfs_st \<Rightarrow> dinode \<Rightarrow> u32 list \<Rightarrow> u32 \<Rightarrow> bool" where
  "blocks_rep s din bl ind \<longleftrightarrow> length (d_addrs din) = 13 \<and> length bl \<le> 268 \<and>
     (\<forall>i < 12. d_addrs din ! i = (if i < length bl then bl ! i else 0)) \<and> d_addrs din ! 12 = ind \<and>
     (if length bl \<le> 12 then ind = 0 else \<forall>j < 256. entry s ind j = (if 12 + j < length bl then bl ! (12 + j) else 0)) \<and>
     distinct (blocks_of bl ind) \<and> set (blocks_of bl ind) \<subseteq> {46..<freeblock s}"

text \<open>What may change besides the blocks of the file: nothing that was given out.\<close>

definition kept :: "u32 set \<Rightarrow> mkfs_st \<Rightarrow> mkfs_st \<Rightarrow> bool" where
  "kept X s t \<longleftrightarrow> msb t = msb s \<and> freeinode t = freeinode s \<and> freeblock s \<le> freeblock t \<and>
     (\<forall>b < 2000. b < freeblock s \<longrightarrow> b \<notin> X \<longrightarrow> sec t b = sec s b)"

lemma get32_zeroes: "4 * j + 4 \<le> n \<Longrightarrow> get32 (replicate n 0) (4 * j) = 0"
  by (simp add: get32_def min_def) code_simp

lemma blocks_repD:
  assumes "blocks_rep s din bl ind"
  shows "length (d_addrs din) = 13" "length bl \<le> 268" "\<And>i. i < 12 \<Longrightarrow> d_addrs din ! i = (if i < length bl then bl ! i else 0)"
    "d_addrs din ! 12 = ind" "length bl \<le> 12 \<Longrightarrow> ind = 0"
    "\<And>j. 12 < length bl \<Longrightarrow> j < 256 \<Longrightarrow> entry s ind j = (if 12 + j < length bl then bl ! (12 + j) else 0)"
    "distinct (blocks_of bl ind)" "\<And>b. b \<in> set (blocks_of bl ind) \<Longrightarrow> 46 \<le> b \<and> b < freeblock s"
  using assms by (auto simp: blocks_rep_def split: if_splits)

lemma file_sector_old:
  assumes rep: "blocks_rep s din bl ind" and "fbn < length bl" and "secs_ok s" and "freeblock s \<le> 2000"
  shows "file_sector False din fbn e s = Ok (din, bl ! fbn) s"
proof -
  note r = blocks_repD [OF rep]
  have b: "46 \<le> bl ! fbn" using r(8) [of "bl ! fbn"] assms(2) by (simp add: blocks_of_def)
  then have nz: "bl ! fbn \<noteq> 0" by auto
  show ?thesis
  proof (cases "fbn < 12")
    case True
    then show ?thesis using r(3) [OF True] assms(2) nz by (simp add: file_sector_def Let_def monad_defs)
  next
    case False
    then have n: "12 < length bl" using assms(2) by simp
    then have i: "46 \<le> ind" "ind < freeblock s" using r(8) [of ind] by (simp_all add: blocks_of_def)
    then have i': "ind \<noteq> 0" "ind < 2000" using assms(4) by auto
    have "entry s ind (fbn - 12) = bl ! fbn" using r(6) [OF n, of "fbn - 12"] r(2) False assms(2) by simp
    then have "word_of (take 4 (drop (4 * (fbn - 12)) (sec s ind))) = bl ! fbn" by (simp add: entry_def get32_def)
    then show ?thesis using False i' nz r(4)
      by (simp add: file_sector_def Let_def monad_defs rsect_run [OF assms(3) i'(2)])
  qed
qed

lemma free_less:
  assumes "46 \<le> f" and "unat f + 2 \<le> 2000"
  shows "f < 2000" "f + 1 < 2000" "f < f + 1" "f < f + 2" "f + 1 < f + 2" "f + 1 \<le> 2000" "f + 2 \<le> 2000" "46 \<le> f + 1" "f \<noteq> (0 :: u32)" "f + 1 \<noteq> 0"
    "unat (f + 1) = unat f + 1" "unat (f + 2) = unat f + 2"
proof -
  show u: "unat (f + 1) = unat f + 1" "unat (f + 2) = unat f + 2" using assms(2) by (simp_all add: unat_word_ariths)
  have "46 \<le> unat f" using assms(1) by (simp add: word_le_nat_alt)
  then show "f < 2000" "f + 1 < 2000" "f < f + 1" "f < f + 2" "f + 1 < f + 2" "f + 1 \<le> 2000" "f + 2 \<le> 2000" "46 \<le> f + 1"
    using assms(2) u by (simp_all add: word_less_nat_alt word_le_nat_alt)
  show "f \<noteq> 0" "f + 1 \<noteq> 0" using u assms \<open>46 \<le> unat f\<close> by (auto simp: unat_eq_zero [symmetric] simp del: unat_eq_zero)
qed

text \<open>The three ways in which a file gets a block.\<close>

lemma grow_direct:
  assumes rep: "blocks_rep s din bl ind" and n: "length bl < 12" and f: "46 \<le> freeblock s" "unat (freeblock s) + 2 \<le> 2000"
  defines "t \<equiv> s\<lparr>freeblock := freeblock s + 1\<rparr>" and "din' \<equiv> din\<lparr>d_addrs := (d_addrs din)[length bl := freeblock s]\<rparr>"
  shows "file_sector False din (length bl) e s = Ok (din', freeblock s) t" "blocks_rep t din' (bl @ [freeblock s]) ind"
proof -
  note r = blocks_repD [OF rep] and w = free_less [OF f]
  show "file_sector False din (length bl) e s = Ok (din', freeblock s) t"
    using r(1,3) n by (simp add: file_sector_def Let_def monad_defs take_block_run t_def din'_def)
  have bl: "46 \<le> b \<and> b < freeblock s \<and> b < freeblock s + 1 \<and> b < freeblock s + 2" if "b \<in> set bl" for b
    using r(8) [of b] that n w(3,4) by (auto simp: blocks_of_def dest: less_trans)
  have "distinct (bl @ [freeblock s])" using r(7) bl by (auto simp: blocks_of_def)
  moreover have "set (bl @ [freeblock s]) \<subseteq> {46..<freeblock t}" using bl w f by (auto simp: t_def)
  ultimately show "blocks_rep t din' (bl @ [freeblock s]) ind"
    using r(1-5) n by (auto simp: blocks_rep_def blocks_of_def din'_def nth_list_update nth_append)
qed

lemma grow_first_indirect:
  assumes rep: "blocks_rep s din bl ind" and n: "length bl = 12" and f: "46 \<le> freeblock s" "unat (freeblock s) + 2 \<le> 2000"
    and ok: "secs_ok s" "fresh s"
  defines "t \<equiv> put_sec (freeblock s) (put32 (replicate 1024 0) 0 (freeblock s + 1)) (s\<lparr>freeblock := freeblock s + 2\<rparr>)"
    and "din' \<equiv> din\<lparr>d_addrs := (d_addrs din)[12 := freeblock s]\<rparr>"
  shows "file_sector False din (length bl) e s = Ok (din', freeblock s + 1) t" "blocks_rep t din' (bl @ [freeblock s + 1]) (freeblock s)"
proof -
  note r = blocks_repD [OF rep] and w = free_less [OF f]
  have z: "sec s (freeblock s) = replicate 1024 0" using ok(2) w(1) by (simp add: fresh_def)
  have g: "word_of (take 4 (replicate 1024 (0 :: byte))) = (0 :: u32)" using get32_zeroes [of 0 1024] by (simp add: get32_def)
  have "rsect (freeblock s) e (s\<lparr>freeblock := freeblock s + 1\<rparr>) = Ok (replicate 1024 0) (s\<lparr>freeblock := freeblock s + 1\<rparr>)"
    using rsect_run [of "s\<lparr>freeblock := freeblock s + 1\<rparr>"] ok(1) w(1) z by simp
  then show "file_sector False din (length bl) e s = Ok (din', freeblock s + 1) t"
    using r(1,4,5) n g w(9)
    by (simp add: file_sector_def Let_def monad_defs take_block_run wsect_run t_def din'_def put32_def add.assoc)
  have bl: "46 \<le> b \<and> b < freeblock s \<and> b < freeblock s + 1 \<and> b < freeblock s + 2" if "b \<in> set bl" for b
    using r(8) [of b] that n w(3,4) by (auto simp: blocks_of_def dest: less_trans)
  have "entry t (freeblock s) j = (if j = 0 then freeblock s + 1 else 0)" if "j < 256" for j
    using that w(1) get32_zeroes [of j 1024] get32_put32_other [of 0 "replicate 1024 0" "4 * j" "freeblock s + 1"]
    by (auto simp: entry_def t_def sec_put)
  moreover have "distinct (bl @ [freeblock s + 1, freeblock s])" using r(7) bl w(3) by (fastforce simp: blocks_of_def)
  moreover have "set (bl @ [freeblock s + 1, freeblock s]) \<subseteq> {46..<freeblock t}" using bl w f by (fastforce simp: t_def)
  ultimately show "blocks_rep t din' (bl @ [freeblock s + 1]) (freeblock s)"
    using r(1-4) n by (auto simp: blocks_rep_def blocks_of_def din'_def nth_list_update nth_append)
qed

lemma grow_indirect:
  assumes rep: "blocks_rep s din bl ind" and n: "12 < length bl" "length bl < 268"
    and f: "46 \<le> freeblock s" "unat (freeblock s) + 2 \<le> 2000" and ok: "secs_ok s"
  defines "t \<equiv> put_sec ind (put32 (sec s ind) (4 * (length bl - 12)) (freeblock s)) (s\<lparr>freeblock := freeblock s + 1\<rparr>)"
  shows "file_sector False din (length bl) e s = Ok (din, freeblock s) t" "blocks_rep t din (bl @ [freeblock s]) ind"
proof -
  note r = blocks_repD [OF rep] and w = free_less [OF f]
  have i: "46 \<le> ind" "ind < freeblock s" using r(8) [of ind] n by (simp_all add: blocks_of_def)
  then have i': "ind \<noteq> 0" "ind < 2000" using w(1) by auto
  let ?j = "length bl - 12"
  have len: "length (sec s ind) = 1024" using ok i'(2) by (simp add: secs_ok_def)
  have "entry s ind ?j = 0" using r(6) [OF n(1), of ?j] n by simp
  then have "word_of (take 4 (drop (4 * ?j) (sec s ind))) = (0 :: u32)" by (simp add: entry_def get32_def)
  then show "file_sector False din (length bl) e s = Ok (din, freeblock s) t"
    using n i' r(4)
    by (simp add: file_sector_def Let_def monad_defs take_block_run wsect_run t_def put32_def rsect_run [OF ok i'(2)])
  have bl: "46 \<le> b \<and> b < freeblock s \<and> b < freeblock s + 1 \<and> b < freeblock s + 2" if "b \<in> set (bl @ [ind])" for b
    using r(8) [of b] that n w(3,4) by (auto simp: blocks_of_def dest: less_trans)
  have "entry t ind j = (if 12 + j < length (bl @ [freeblock s]) then (bl @ [freeblock s]) ! (12 + j) else 0)" if j: "j < 256" for j
  proof (cases "j = ?j")
    case True
    then show ?thesis using n len i'(2) by (simp add: entry_def t_def sec_put)
  next
    case False
    then have "4 * j + 4 \<le> 4 * ?j \<or> 4 * ?j + 4 \<le> 4 * j" "4 * ?j + 4 \<le> length (sec s ind)" using n len by linarith+
    then have "entry t ind j = entry s ind j"
      using i'(2) get32_put32_other [of "4 * ?j" "sec s ind" "4 * j" "freeblock s"] by (auto simp: entry_def t_def sec_put)
    then show ?thesis using r(6) [OF n(1) j] False n by (auto simp: nth_append)
  qed
  moreover have "distinct (bl @ [freeblock s, ind])" using r(7) bl n by (fastforce simp: blocks_of_def)
  moreover have "set (bl @ [freeblock s, ind]) \<subseteq> {46..<freeblock t}" using bl w f by (fastforce simp: t_def)
  ultimately show "blocks_rep t din (bl @ [freeblock s]) ind"
    using r(1-4) n by (auto simp: blocks_rep_def blocks_of_def nth_append)
qed

lemma file_sector_new:
  assumes rep: "blocks_rep s din bl ind" and n: "length bl < 268"
    and f: "46 \<le> freeblock s" "unat (freeblock s) + 2 \<le> 2000" and ok: "secs_ok s" "fresh s"
  obtains din' x ind' t where "file_sector False din (length bl) e s = Ok (din', x) t" "blocks_rep t din' (bl @ [x]) ind'"
    "secs_ok t" "fresh t" "kept (set (blocks_of bl ind) - set bl) s t" "din' = din\<lparr>d_addrs := d_addrs din'\<rparr>"
    "unat (freeblock t) + (if length bl < 12 then 2 else 1) \<le> unat (freeblock s) + (if length bl \<le> 12 then 3 else 2)"
    "sec t x = replicate 1024 0" "freeblock s \<le> x" "set (blocks_of (bl @ [x]) ind') \<subseteq> set (blocks_of bl ind) \<union> {freeblock s..}"
proof -
  note w = free_less [OF f] and r = blocks_repD [OF rep]
  have zero: "sec s b = replicate 1024 0" if "freeblock s \<le> b" "b < 2000" for b using ok(2) that by (simp add: fresh_def)
  consider "length bl < 12" | "length bl = 12" | "12 < length bl" by linarith
  then show ?thesis
  proof cases
    case 1
    show ?thesis
      by (rule that [OF grow_direct(1) [OF rep 1 f, of e] grow_direct(2) [OF rep 1 f]])
        (use ok w 1 in \<open>auto simp: kept_def fresh_def zero blocks_of_def intro: order_trans [OF less_imp_le]\<close>)
  next
    case 2
    have "length (put32 (replicate 1024 0) 0 (freeblock s + 1)) = 1024" by simp
    then show ?thesis
      by (intro that [OF grow_first_indirect(1) [OF rep 2 f ok, of e] grow_first_indirect(2) [OF rep 2 f ok]])
        (use ok w 2 in \<open>auto simp: kept_def fresh_def zero blocks_of_def sec_put intro!: secs_ok_put\<close>)
  next
    case 3
    have i: "ind < freeblock s" "ind \<notin> set bl" using r(7) r(8) [of ind] 3 by (simp_all add: blocks_of_def)
    have "ind < 2000" using i(1) w(1) by (rule less_trans)
    moreover have "length (put32 (sec s ind) (4 * (length bl - 12)) (freeblock s)) = 1024"
      using ok(1) \<open>ind < 2000\<close> n by (simp add: secs_ok_def)
    ultimately show ?thesis
      by (intro that [OF grow_indirect(1) [OF rep 3 n f ok(1), of e] grow_indirect(2) [OF rep 3 n f ok(1)]])
        (use ok w 3 i in \<open>auto simp: kept_def fresh_def zero blocks_of_def sec_put intro!: secs_ok_put\<close>)
  qed
qed

section \<open>The content of a file\<close>

definition data_rep :: "mkfs_st \<Rightarrow> u32 list \<Rightarrow> byte list \<Rightarrow> bool" where
  "data_rep s bl cs \<longleftrightarrow> length bl = (length cs + 1023) div 1024 \<and> (\<exists>pad. concat (map (sec s) bl) = cs @ pad)"

lemma count_blocks: "(n + 1023) div 1024 = n div 1024 + (if n mod 1024 = 0 then 0 else 1)" for n :: nat
proof (cases "n mod 1024 = 0")
  case True
  then obtain q where "n = 1024 * q" by auto
  then show ?thesis by simp
next
  case False
  define q r where "q = n div 1024" and "r = n mod 1024"
  then have n: "n = 1024 * q + r" "0 < r" "r < 1024" using False by simp_all
  have "(n + 1023) div 1024 = Suc q" by (rule div_nat_eqI) (use n in simp_all)
  then show ?thesis using False by (simp add: q_def)
qed

lemma length_secs: "secs_ok s \<Longrightarrow> \<forall>b \<in> set bl. b < 2000 \<Longrightarrow> length (concat (map (sec s) bl)) = 1024 * length bl"
  by (induction bl) (auto simp: secs_ok_def)

lemma data_write:
  assumes ok: "secs_ok s" and bl: "\<forall>b \<in> set (bi @ [x]). b < 2000" "x \<notin> set bi"
    and cs: "concat (map (sec s) (bi @ [x])) = cs @ pad" and k: "length cs = 1024 * length bi + k" "k + length q \<le> 1024"
  shows "concat (map (sec (put_sec x (put_bytes (sec s x) k q) s)) (bi @ [x])) = (cs @ q) @ drop (k + length q) (sec s x)"
proof -
  let ?t = "put_sec x (put_bytes (sec s x) k q) s"
  have keep: "map (sec ?t) bi = map (sec s) bi" using bl by (auto simp: sec_put)
  have l: "length (concat (map (sec s) bi)) = 1024 * length bi" by (rule length_secs [OF ok]) (use bl in simp)
  have "concat (map (sec s) bi) @ sec s x = cs @ pad" using cs by simp
  then have "take (length cs) (concat (map (sec s) bi) @ sec s x) = cs" by simp
  then have "cs = concat (map (sec s) bi) @ take k (sec s x)" using k(1) l by simp
  moreover have "sec ?t x = take k (sec s x) @ q @ drop (k + length q) (sec s x)" using bl by (simp add: sec_put put_bytes_def)
  ultimately show ?thesis by (simp only: map_append concat_append keep list.map concat.simps append_Nil2 append_assoc)
qed

text \<open>
  One round of the loop. The file consists of the sectors \<open>bl\<close> with the content \<open>cs\<close>, and there is room for
  \<open>N\<close> blocks in all.
\<close>

definition appending :: "nat \<Rightarrow> nat \<Rightarrow> mkfs_st \<Rightarrow> dinode \<Rightarrow> u32 list \<Rightarrow> u32 \<Rightarrow> byte list \<Rightarrow> bool" where
  "appending M N s din bl ind cs \<longleftrightarrow> M \<le> 2000 \<and> blocks_rep s din bl ind \<and> data_rep s bl cs \<and> secs_ok s \<and> fresh s \<and> 46 \<le> freeblock s \<and>
     unat (freeblock s) + (N - length bl) + (if length bl \<le> 12 then 2 else 1) \<le> M"

lemma appendingD:
  assumes "appending M N s din bl ind cs"
  shows "blocks_rep s din bl ind" "data_rep s bl cs" "secs_ok s" "fresh s" "46 \<le> freeblock s"
    "unat (freeblock s) + (N - length bl) + (if length bl \<le> 12 then 2 else 1) \<le> M" "freeblock s \<le> 2000"
    "\<And>b. b \<in> set (blocks_of bl ind) \<Longrightarrow> b < 2000" "M \<le> 2000"
proof -
  show M: "M \<le> 2000" and "blocks_rep s din bl ind" "data_rep s bl cs" "secs_ok s" "fresh s" "46 \<le> freeblock s"
    "unat (freeblock s) + (N - length bl) + (if length bl \<le> 12 then 2 else 1) \<le> M"
    using assms by (simp_all add: appending_def)
  then show f: "freeblock s \<le> 2000" using M by (simp add: word_le_nat_alt split: if_splits)
  show "b < 2000" if "b \<in> set (blocks_of bl ind)" for b
    using blocks_repD(8) [OF \<open>blocks_rep s din bl ind\<close> that] f by (auto intro: less_le_trans)
qed

text \<open>The sector of the next byte, in a state in which the file has room for it.\<close>

lemma next_sector:
  assumes ap: "appending M N s din bl ind cs" and N: "length cs < 1024 * N" "N \<le> 268"
  obtains din' x bi ind' t pad where "file_sector False din (length cs div 1024) e s = Ok (din', x) t"
    "blocks_rep t din' (bi @ [x]) ind'" "length bi = length cs div 1024" "concat (map (sec t) (bi @ [x])) = cs @ pad"
    "secs_ok t" "fresh t" "46 \<le> freeblock t" "unat (freeblock t) + (N - Suc (length bi)) + (if Suc (length bi) \<le> 12 then 2 else 1) \<le> M"
    "kept (set (blocks_of bl ind)) s t" "set (blocks_of (bi @ [x]) ind') \<subseteq> set (blocks_of bl ind) \<union> {freeblock s..}"
    "din' = din\<lparr>d_addrs := d_addrs din'\<rparr>"
proof -
  note a = appendingD [OF ap]
  have n: "length bl = (length cs + 1023) div 1024" using a(2) by (simp add: data_rep_def)
  obtain pad where pad: "concat (map (sec s) bl) = cs @ pad" using a(2) by (auto simp: data_rep_def)
  show ?thesis
  proof (cases "length cs mod 1024 = 0")
    case True
    then have n': "length bl = length cs div 1024" using n by (simp add: count_blocks)
    then have "length bl < N" using N(1) True by (simp add: less_mult_imp_div_less mult.commute)
    then have f2: "unat (freeblock s) + 2 \<le> 2000" "length bl < 268" using a(6,9) N(2) by (auto split: if_splits)
    obtain din' x ind' t where t: "file_sector False din (length bl) e s = Ok (din', x) t" "blocks_rep t din' (bl @ [x]) ind'"
      "secs_ok t" "fresh t" "kept (set (blocks_of bl ind) - set bl) s t" "din' = din\<lparr>d_addrs := d_addrs din'\<rparr>"
      "unat (freeblock t) + (if length bl < 12 then 2 else 1) \<le> unat (freeblock s) + (if length bl \<le> 12 then 3 else 2)"
      "sec t x = replicate 1024 0" "freeblock s \<le> x" "set (blocks_of (bl @ [x]) ind') \<subseteq> set (blocks_of bl ind) \<union> {freeblock s..}"
      using file_sector_new [OF a(1) f2(2) a(5) f2(1) a(3,4)] .
    have same: "sec t b = sec s b" if "b \<in> set bl" for b
      using t(5) that a(8) [of b] blocks_repD(8) [OF a(1), of b] by (simp add: kept_def blocks_of_def)
    have "concat (map (sec t) (bl @ [x])) = cs @ pad @ replicate 1024 0"
      using pad t(8) by (simp add: same cong: map_cong)
    moreover have "46 \<le> freeblock t" using t(5) a(5) by (auto simp: kept_def intro: order_trans)
    moreover have "kept (set (blocks_of bl ind)) s t" using t(5) by (auto simp: kept_def)
    moreover have "unat (freeblock t) + (N - Suc (length bl)) + (if Suc (length bl) \<le> 12 then 2 else 1) \<le> M"
      using t(7) a(6) \<open>length bl < N\<close> by (auto split: if_splits)
    ultimately show ?thesis using t that [of din' x t bl ind' "pad @ replicate 1024 0"] n' by simp
  next
    case False
    then have n': "length bl = Suc (length cs div 1024)" using n by (simp add: count_blocks)
    then obtain bi x where bl: "bl = bi @ [x]" by (metis length_Suc_conv_rev)
    have "file_sector False din (length cs div 1024) e s = Ok (din, x) s"
      using file_sector_old [OF a(1) _ a(3) a(7), of "length cs div 1024" e] n' bl by (simp add: nth_append)
    then show ?thesis using a pad bl n'
      by (intro that [of din x s bi ind pad]) (auto simp: kept_def)
  qed
qed

lemma kept_trans:
  assumes "kept X s t" "kept Y t u" "Y \<subseteq> X \<union> {freeblock s..}"
  shows "kept X s u"
  using assms by (fastforce simp: kept_def intro: less_le_trans order_trans)

lemma kept_put: "kept X s t \<Longrightarrow> x \<in> X \<or> freeblock s \<le> x \<Longrightarrow> x < 2000 \<Longrightarrow> kept X s (put_sec x buf t)"
  by (auto simp: kept_def sec_put)

lemma blocks_rep_put:
  assumes "blocks_rep s din (bi @ [x]) ind" and "x < 2000" and "freeblock s \<le> 2000"
  shows "blocks_rep (put_sec x buf s) din (bi @ [x]) ind"
proof -
  note r = blocks_repD [OF assms(1)]
  have "entry (put_sec x buf s) ind j = entry s ind j" if "12 < length (bi @ [x])" for j
  proof -
    have "ind \<noteq> x" "ind < 2000" using r(7) r(8) [of ind] that assms(3) by (auto simp: blocks_of_def)
    then show ?thesis using assms(2) by (simp add: entry_def sec_put)
  qed
  then show ?thesis using assms(1) by (auto simp: blocks_rep_def split: if_splits)
qed

lemma fresh_put: "fresh s \<Longrightarrow> x < freeblock s \<Longrightarrow> x < 2000 \<Longrightarrow> fresh (put_sec x buf s)"
  by (auto simp: fresh_def sec_put)

lemma iappend_round:
  assumes ap: "appending M N s din bl ind cs" and p: "p \<noteq> []" "length cs + length p \<le> 1024 * N" "N \<le> 268"
  obtains k din' bl' ind' t where "0 < k" "k \<le> length p"
    "iappend_body False (din, of_nat (length cs), p) e s = Ok (Inl (din', of_nat (length (cs @ take k p)), drop k p)) t"
    "appending M N t din' bl' ind' (cs @ take k p)" "kept (set (blocks_of bl ind)) s t"
    "set (blocks_of bl' ind') \<subseteq> set (blocks_of bl ind) \<union> {freeblock s..}" "din' = din\<lparr>d_addrs := d_addrs din'\<rparr>"
proof -
  define q k where "q = length cs div 1024" and "k = min (length p) ((q + 1) * 1024 - length cs)"
  define j where "j = length cs - q * 1024"
  have cs: "length cs = 1024 * q + j" "j < 1024" unfolding j_def q_def by (simp_all add: minus_mult_div_eq_mod mult.commute)
  have k: "0 < k" "k \<le> length p" "j + k \<le> 1024" using p(1) cs by (auto simp: k_def)
  have small: "unat (of_nat (length cs) :: u32) = length cs" using p by (simp add: unat_of_nat)
  have "length cs < 1024 * N" using p(1,2) by (cases p) auto
  from next_sector [OF ap this p(3)] obtain din' x bi ind' t pad where t:
    "file_sector False din (length cs div 1024) e s = Ok (din', x) t" "blocks_rep t din' (bi @ [x]) ind'"
    "length bi = length cs div 1024" "concat (map (sec t) (bi @ [x])) = cs @ pad" "secs_ok t" "fresh t" "46 \<le> freeblock t"
    "unat (freeblock t) + (N - Suc (length bi)) + (if Suc (length bi) \<le> 12 then 2 else 1) \<le> M"
    "kept (set (blocks_of bl ind)) s t" "set (blocks_of (bi @ [x]) ind') \<subseteq> set (blocks_of bl ind) \<union> {freeblock s..}"
    "din' = din\<lparr>d_addrs := d_addrs din'\<rparr>" .
  let ?t = "put_sec x (put_bytes (sec t x) j (take k p)) t"
  have f: "freeblock t \<le> 2000" using t(8) appendingD(9) [OF ap] by (simp add: word_le_nat_alt split: if_splits)
  have b: "b < freeblock t" "b < 2000" if "b \<in> set (bi @ [x])" for b
    using blocks_repD(8) [OF t(2), of b] that f by (auto simp: blocks_of_def intro: less_le_trans)
  have x: "x \<notin> set bi" using blocks_repD(7) [OF t(2)] by (simp add: blocks_of_def)
  have len: "length (put_bytes (sec t x) j (take k p)) = 1024" using k t(5) b(2) [of x] by (simp add: secs_ok_def)
  have "length cs div 1024 < 268" using p cs k by (simp add: less_mult_imp_div_less)
  then have run: "iappend_body False (din, of_nat (length cs), p) e s = Ok (Inl (din', of_nat (length (cs @ take k p)), drop k p)) ?t"
    using p(1) t(1) small rsect_run [OF t(5) b(2) [of x], of e]
    unfolding j_def k_def q_def iappend_body_def by (simp add: Let_def monad_defs wsect_run)
  have "concat (map (sec ?t) (bi @ [x])) = (cs @ take k p) @ drop (j + length (take k p)) (sec t x)"
    using k cs t(3) b(2) by (intro data_write [OF t(5) _ x t(4)]) (auto simp: q_def)
  moreover have "length (bi @ [x]) = (length (cs @ take k p) + 1023) div 1024"
    using k cs t(3) by (auto simp: q_def [symmetric] intro!: div_nat_eqI [symmetric])
  ultimately have "data_rep ?t (bi @ [x]) (cs @ take k p)" unfolding data_rep_def by blast
  moreover have "x \<in> set (blocks_of bl ind) \<or> freeblock s \<le> x" using t(10) by (auto simp: blocks_of_def)
  ultimately show ?thesis
    using t b [of x] len f appendingD(9) [OF ap]
    by (intro that [OF k(1,2) run]) (auto simp: appending_def intro!: blocks_rep_put secs_ok_put fresh_put kept_put)
qed

lemma iappend_loop:
  assumes ap: "appending M N s din bl ind cs" and N: "length cs + length p \<le> 1024 * N" "N \<le> 268"
  obtains din' bl' ind' t where
    "loopK (iappend_body False) (din, of_nat (length cs), p) e s = Ok (din', of_nat (length (cs @ p))) t"
    "appending M N t din' bl' ind' (cs @ p)" "kept (set (blocks_of bl ind)) s t"
    "set (blocks_of bl' ind') \<subseteq> set (blocks_of bl ind) \<union> {freeblock s..}" "din' = din\<lparr>d_addrs := d_addrs din'\<rparr>"
proof -
  have "\<exists>din' bl' ind' t. loopK (iappend_body False) (din, of_nat (length cs), p) e s = Ok (din', of_nat (length (cs @ p))) t \<and>
    appending M N t din' bl' ind' (cs @ p) \<and> kept (set (blocks_of bl ind)) s t \<and>
    set (blocks_of bl' ind') \<subseteq> set (blocks_of bl ind) \<union> {freeblock s..} \<and> din' = din\<lparr>d_addrs := d_addrs din'\<rparr>"
    using ap N(1)
  proof (induction "length p" arbitrary: p s din bl ind cs rule: less_induct)
    case less
    show ?case
    proof (cases "p = []")
      case True
      have "loopK (iappend_body False) (din, of_nat (length cs), p) e s = Ok (din, of_nat (length (cs @ p))) s"
        by (subst loopK_unfold) (simp add: True iappend_body_def monad_defs)
      then show ?thesis using less.prems(1) True by (intro exI [of _ din] exI [of _ bl] exI [of _ ind] exI [of _ s]) (simp add: kept_def)
    next
      case False
      obtain k din1 bl1 ind1 t1 where k: "0 < k" "k \<le> length p" and r:
        "iappend_body False (din, of_nat (length cs), p) e s = Ok (Inl (din1, of_nat (length (cs @ take k p)), drop k p)) t1"
        "appending M N t1 din1 bl1 ind1 (cs @ take k p)" "kept (set (blocks_of bl ind)) s t1"
        "set (blocks_of bl1 ind1) \<subseteq> set (blocks_of bl ind) \<union> {freeblock s..}" "din1 = din\<lparr>d_addrs := d_addrs din1\<rparr>"
        using iappend_round [OF less.prems(1) False less.prems(2) N(2)] .
      have "length (drop k p) < length p" "length (cs @ take k p) + length (drop k p) \<le> 1024 * N" using k less.prems(2) by auto
      from less.hyps [OF this(1) r(2) this(2)] obtain din' bl' ind' t where t:
        "loopK (iappend_body False) (din1, of_nat (length (cs @ take k p)), drop k p) e t1 = Ok (din', of_nat (length ((cs @ take k p) @ drop k p))) t"
        "appending M N t din' bl' ind' ((cs @ take k p) @ drop k p)" "kept (set (blocks_of bl1 ind1)) t1 t"
        "set (blocks_of bl' ind') \<subseteq> set (blocks_of bl1 ind1) \<union> {freeblock t1..}" "din' = din1\<lparr>d_addrs := d_addrs din'\<rparr>" by blast
      have "loopK (iappend_body False) (din, of_nat (length cs), p) e s = Ok (din', of_nat (length (cs @ p))) t"
        using t(1) by (subst loopK_unfold) (simp add: r(1))
      moreover have "kept (set (blocks_of bl ind)) s t" using kept_trans [OF r(3) t(3) r(4)] .
      moreover have "set (blocks_of bl' ind') \<subseteq> set (blocks_of bl ind) \<union> {freeblock s..}"
        using t(4) r(3,4) by (fastforce simp: kept_def)
      moreover have "din' = din\<lparr>d_addrs := d_addrs din'\<rparr>" by (subst t(5), subst r(5)) simp
      moreover have "appending M N t din' bl' ind' (cs @ p)" using t(2) by simp
      ultimately show ?thesis by blast
    qed
  qed
  then show ?thesis using that by blast
qed

section \<open>Inodes on the image\<close>

lemma din_roundtrip:
  assumes "length (d_addrs d) = 13"
  shows "din_of False (din_bytes False d) = d" "length (din_bytes False d) = 64"
proof -
  have c: "take 4 (drop (4 * i) (concat (map (bytes_of 4) (d_addrs d)))) = bytes_of 4 (d_addrs d ! i)" if "i < 13" for i
    using get32_concat [of "map (bytes_of 4) (d_addrs d)" i "[]"] that assms by simp
  have "map (\<lambda>i. word_of (take 4 (drop (4 * i) (concat (map (bytes_of 4) (d_addrs d)))))) [0..<13] = d_addrs d"
    using assms by (intro nth_equalityI) (auto simp: c word_of_bytes_of)
  then show "din_of False (din_bytes False d) = d"
    by (simp add: din_of_def din_bytes_def Let_def word_of_bytes_of del: upt_Suc)
  have "length (concat (map (bytes_of 4) (d_addrs d))) = 4 * length (d_addrs d)" by (simp add: length_concat comp_def sum_list_triv)
  then show "length (din_bytes False d) = 64" using assms by (simp add: din_bytes_def)
qed

text \<open>The image between two calls, its inodes, and the file of an inode.\<close>

definition image_ok :: "mkfs_st \<Rightarrow> bool" where
  "image_ok s \<longleftrightarrow> secs_ok s \<and> fresh s \<and> 46 \<le> freeblock s \<and> msb s = make_sb False"

definition dinode_at :: "mkfs_st \<Rightarrow> u32 \<Rightarrow> dinode" where
  "dinode_at s inum = din_of False (take 64 (drop (dinode_off inum) (sec s (IBLOCK inum (msb s)))))"

definition file_ok :: "mkfs_st \<Rightarrow> u32 \<Rightarrow> u32 set \<Rightarrow> byte list \<Rightarrow> bool" where
  "file_ok s inum X cs \<longleftrightarrow> inum < of_nat NINODES \<and> (\<exists>bl ind. blocks_rep s (dinode_at s inum) bl ind \<and>
     data_rep s bl cs \<and> d_size (dinode_at s inum) = of_nat (length cs) \<and> X = set (blocks_of bl ind))"

text \<open>
  The content of a file as the kernel finds it: \<^verbatim>\<open>ilock\<close> decodes the inode, \<^verbatim>\<open>bmap\<close> looks up the addresses of
  its blocks and \<^verbatim>\<open>readi\<close> reads them up to the size of the file.
\<close>

definition kernel_addr :: "mkfs_st \<Rightarrow> inode \<Rightarrow> nat \<Rightarrow> u32" where
  "kernel_addr s ip fbn = (if fbn < NDIRECT then i_addrs ip fbn else get32 (sec s (i_addrs ip NDIRECT)) (4 * (fbn - NDIRECT)))"

definition kernel_content :: "mkfs_st \<Rightarrow> u32 \<Rightarrow> inode \<Rightarrow> byte list" where
  "kernel_content s inum ip0 =
     (let ip = dinode_load (sec s (IBLOCK inum (msb s))) (dinode_off inum) ip0; n = unat (i_size ip) in
      take n (concat (map (\<lambda>fbn. sec s (kernel_addr s ip fbn)) [0..<(n + BSIZE - 1) div BSIZE])))"

lemma iblock:
  assumes "inum < of_nat NINODES" "msb s = make_sb False"
  shows "IBLOCK inum (msb s) = inum div 16 + 32" "IBLOCK inum (msb s) < 46" "IBLOCK inum (msb s) < 2000" "dinode_off inum + 64 \<le> 1024"
    "IBLOCK inum (msb s) \<noteq> 1" "IBLOCK inum (msb s) \<noteq> 45"
proof -
  show e: "IBLOCK inum (msb s) = inum div 16 + 32" using assms(2) by (simp add: IBLOCK_def make_sb_def)
  have "unat inum < 200" using assms(1) by (simp add: word_less_nat_alt)
  then have "unat (inum div 16 + 32) = unat inum div 16 + 32" by (simp add: unat_word_ariths unat_div)
  then show "IBLOCK inum (msb s) < 46" "IBLOCK inum (msb s) < 2000" "IBLOCK inum (msb s) \<noteq> 1" "IBLOCK inum (msb s) \<noteq> 45"
    using \<open>unat inum < 200\<close> by (simp_all add: e word_less_nat_alt word_unat_eq_iff)
  have "unat inum mod 16 < 16" by simp
  then show "dinode_off inum + 64 \<le> 1024" unfolding dinode_off_def by simp
qed

lemma inode_apart:
  assumes "i < of_nat NINODES" "j < of_nat NINODES" "i \<noteq> j" "msb s = make_sb False"
  shows "IBLOCK i (msb s) \<noteq> IBLOCK j (msb s) \<or> dinode_off i + 64 \<le> dinode_off j \<or> dinode_off j + 64 \<le> dinode_off i"
proof (rule ccontr)
  assume c: "\<not> ?thesis"
  then have "i div 16 = j div 16" using iblock(1) [OF assms(1,4)] iblock(1) [OF assms(2,4)] by simp
  then have "unat (i div 16) = unat (j div 16)" by simp
  then have "unat i div 16 = unat j div 16" by (simp add: unat_div)
  moreover have "unat i mod 16 = unat j mod 16" using c by (simp add: dinode_off_def)
  ultimately have "unat i = unat j" by (metis div_mult_mod_eq)
  then show False using assms(3) by (simp add: word_unat_eq_iff)
qed

lemma dinode_fields:
  fixes ip0 :: inode
  assumes "dinode_off inum + 64 \<le> length blk"
  defines "d \<equiv> din_of False (take 64 (drop (dinode_off inum) blk))" and "ip \<equiv> dinode_load blk (dinode_off inum) ip0"
  shows "i_size ip = d_size d" "i \<le> 12 \<Longrightarrow> i_addrs ip i = d_addrs d ! i" "length (d_addrs d) = 13"
proof -
  have "drop k (take n (drop m blk)) = take (n - k) (drop (m + k) blk)" for k n m
    by (simp add: drop_take add.commute)
  then show "i_size ip = d_size d" "i \<le> 12 \<Longrightarrow> i_addrs ip i = d_addrs d ! i" "length (d_addrs d) = 13"
    by (simp_all add: d_def ip_def din_of_def dinode_load_def get32_def Let_def min_def add.assoc del: upt_Suc)
qed

lemma kernel_blocks:
  fixes q :: inode
  assumes "image_ok s" and inum: "inum < of_nat NINODES" and r: "blocks_rep s (dinode_at s inum) bl ind"
  defines "ip \<equiv> dinode_load (sec s (IBLOCK inum (msb s))) (dinode_off inum) q"
  shows "i_size ip = d_size (dinode_at s inum)" and "fbn < length bl \<Longrightarrow> kernel_addr s ip fbn = bl ! fbn"
proof -
  define blk where "blk = sec s (IBLOCK inum (msb s))"
  have ok: "secs_ok s" "msb s = make_sb False" using assms(1) by (simp_all add: image_ok_def)
  note r = blocks_repD [OF r] and i = iblock [OF inum ok(2)]
  have "length blk = 1024" using ok(1) i(3) by (simp add: secs_ok_def blk_def)
  then have f: "i_size ip = d_size (dinode_at s inum)" "\<And>i. i \<le> 12 \<Longrightarrow> i_addrs ip i = d_addrs (dinode_at s inum) ! i"
    using dinode_fields(1,2) [of inum blk] i(4) by (simp_all add: ip_def dinode_at_def blk_def)
  then show "i_size ip = d_size (dinode_at s inum)" by simp
  show "kernel_addr s ip fbn = bl ! fbn" if "fbn < length bl"
  proof (cases "fbn < 12")
    case True
    then show ?thesis using f(2) r(3) that by (simp add: kernel_addr_def)
  next
    case False
    then show ?thesis using f(2) [of 12] r(2,4) r(6) [of "fbn - 12"] that by (simp add: kernel_addr_def entry_def)
  qed
qed

lemma file_ok_content:
  assumes "image_ok s" and "file_ok s inum X cs"
  shows "kernel_content s inum ip0 = cs"
proof -
  obtain bl ind where inum: "inum < of_nat NINODES" and r: "blocks_rep s (dinode_at s inum) bl ind"
    and cs: "data_rep s bl cs" "d_size (dinode_at s inum) = of_nat (length cs)"
    using assms(2) by (auto simp: file_ok_def simp del: NINODES_def)
  define ip where "ip = dinode_load (sec s (IBLOCK inum (msb s))) (dinode_off inum) ip0"
  note k = kernel_blocks [OF assms(1) inum r, where q = ip0, folded ip_def]
  have n: "length bl = (length cs + 1023) div 1024" using cs(1) by (simp add: data_rep_def)
  have "length cs \<le> 1024 * length bl" unfolding n by linarith
  then have size: "unat (i_size ip) = length cs" using k(1) cs(2) blocks_repD(2) [OF r] by (simp add: unat_of_nat)
  have "map (\<lambda>fbn. sec s (kernel_addr s ip fbn)) [0..<length bl] = map (sec s) bl"
    using k(2) by (intro nth_equalityI) simp_all
  moreover have "(length cs + BSIZE - 1) div BSIZE = length bl" by (simp add: n)
  moreover obtain pad where "concat (map (sec s) bl) = cs @ pad" using cs(1) by (auto simp: data_rep_def)
  ultimately show ?thesis unfolding kernel_content_def Let_def ip_def [symmetric] size by simp
qed

lemma rep_same:
  assumes "blocks_rep s d bl ind" "data_rep s bl cs" and same: "\<And>b. b \<in> set (blocks_of bl ind) \<Longrightarrow> sec t b = sec s b"
    and "freeblock s \<le> freeblock t"
  shows "blocks_rep t d bl ind" "data_rep t bl cs"
proof -
  have "entry t ind j = entry s ind j" if "12 < length bl" for j using same [of ind] that by (simp add: entry_def blocks_of_def)
  moreover have "set (blocks_of bl ind) \<subseteq> {46..<freeblock t}"
    using blocks_repD(8) [OF assms(1)] assms(4) by (meson atLeastLessThan_iff subsetI less_le_trans)
  ultimately show "blocks_rep t d bl ind" using assms(1) by (auto simp: blocks_rep_def split: if_splits)
  have "map (sec t) bl = map (sec s) bl" using same by (simp add: blocks_of_def)
  then show "data_rep t bl cs" using assms(2) by (simp only: data_rep_def)
qed

lemma dinode_at_other:
  assumes "image_ok s" "i < of_nat NINODES" "j < of_nat NINODES" "i \<noteq> j" "length bs = 64"
  defines "bn \<equiv> IBLOCK i (msb s)"
  shows "dinode_at (put_sec bn (put_bytes (sec s bn) (dinode_off i) bs) s) j = dinode_at s j"
proof -
  have m: "msb s = make_sb False" "secs_ok s" using assms(1) by (simp_all add: image_ok_def)
  have "length (sec s bn) = 1024" using m(2) iblock(3) [OF assms(2) m(1)] by (simp add: secs_ok_def bn_def)
  then show ?thesis
    using inode_apart [OF assms(2-4) m(1)] iblock(3,4) [OF assms(2) m(1)] iblock(3) [OF assms(3) m(1)]
      take_drop_put_other [of "dinode_off i" bs "sec s bn" "dinode_off j" 64] assms(5)
    by (auto simp: dinode_at_def sec_put bn_def)
qed

lemma inode_block_run:
  assumes "image_ok s" "inum < of_nat NINODES"
  shows "rsect (IBLOCK inum (msb s)) e s = Ok (sec s (IBLOCK inum (msb s))) s"
proof (rule rsect_run)
  show "secs_ok s" using assms(1) by (simp add: image_ok_def)
  show "IBLOCK inum (msb s) < 2000" using assms(1) by (intro iblock(3) [OF assms(2)]) (simp add: image_ok_def)
qed

lemma rinode_run:
  assumes "image_ok s" "inum < of_nat NINODES"
  shows "rinode False inum e s = Ok (dinode_at s inum) s"
  using inode_block_run [OF assms, of e] by (simp add: rinode_def dinode_at_def monad_defs)

lemma winode_run:
  assumes "image_ok s" "inum < of_nat NINODES"
  shows "winode False inum d e s =
    Ok () (put_sec (IBLOCK inum (msb s)) (put_bytes (sec s (IBLOCK inum (msb s))) (dinode_off inum) (din_bytes False d)) s)"
  using inode_block_run [OF assms, of e] by (simp add: winode_def monad_defs wsect_run)

lemma winode_ok:
  assumes ok: "image_ok s" and inum: "inum < of_nat NINODES" and d: "length (d_addrs d) = 13"
  defines "bn \<equiv> IBLOCK inum (msb s)"
  defines "u \<equiv> put_sec bn (put_bytes (sec s bn) (dinode_off inum) (din_bytes False d)) s"
  shows "image_ok u" "dinode_at u inum = d" "\<And>b. 46 \<le> b \<Longrightarrow> b < 2000 \<Longrightarrow> sec u b = sec s b"
    "sec u 1 = sec s 1"
proof -
  have m: "secs_ok s" "fresh s" "46 \<le> freeblock s" "msb s = make_sb False" using ok by (simp_all add: image_ok_def)
  note i = iblock [OF inum m(4), folded bn_def] and b64 = din_roundtrip [OF d]
  have l: "length (sec s bn) = 1024" using m(1) i(3) by (simp add: secs_ok_def)
  have "bn < freeblock s" using i(2) m(3) by (rule less_le_trans)
  then show "image_ok u" using m i l b64 by (simp add: image_ok_def u_def secs_ok_put fresh_put)
  show "dinode_at u inum = d"
    using i l b64 take_drop_put_same [of "dinode_off inum" "din_bytes False d" "sec s bn"]
    by (simp add: dinode_at_def u_def sec_put flip: bn_def)
  show "sec u b = sec s b" if "46 \<le> b" "b < 2000" for b
    using that i by (auto simp: u_def sec_put)
  show "sec u 1 = sec s 1" using i by (auto simp: u_def sec_put)
qed

lemma file_ok_other:
  assumes ok: "image_ok s" "image_ok t" and fl: "file_ok s j Z ds" and f: "freeblock s \<le> 2000"
    and k: "kept X s t" and "X \<inter> Z = {}" and "X \<subseteq> {46..}"
  shows "file_ok t j Z ds"
proof -
  have m: "msb s = make_sb False" "46 \<le> freeblock s" "msb t = msb s" using ok(1) k by (auto simp: image_ok_def kept_def)
  obtain bl ind where r: "blocks_rep s (dinode_at s j) bl ind" "data_rep s bl ds" "d_size (dinode_at s j) = of_nat (length ds)"
    and Z: "Z = set (blocks_of bl ind)" and j: "j < of_nat NINODES" using fl by (auto simp: file_ok_def simp del: NINODES_def)
  note i = iblock [OF j m(1)]
  have "IBLOCK j (msb s) \<notin> X" using i(2) assms(7) by auto
  moreover have "IBLOCK j (msb s) < freeblock s" using i(2) m(2) by (rule less_le_trans)
  ultimately have d: "dinode_at t j = dinode_at s j" using k i(3) m(3) by (simp add: dinode_at_def kept_def)
  have "sec t b = sec s b" if "b \<in> Z" for b
    using k that assms(6) blocks_repD(8) [OF r(1), of b] f by (auto simp: kept_def Z intro: less_le_trans)
  then show ?thesis using rep_same [OF r(1,2), of t] k r(3) d j Z by (auto simp: file_ok_def kept_def simp del: NINODES_def)
qed

lemma winode_other:
  assumes ok: "image_ok t" and inum: "inum < of_nat NINODES" and d: "length (d_addrs d) = 13"
    and fl: "file_ok t j Z ds" and j: "j \<noteq> inum" and f: "freeblock t \<le> 2000"
  defines "bn \<equiv> IBLOCK inum (msb t)"
  shows "file_ok (put_sec bn (put_bytes (sec t bn) (dinode_off inum) (din_bytes False d)) t) j Z ds" (is "file_ok ?u j Z ds")
proof -
  note w = winode_ok [OF ok inum d, folded bn_def]
  obtain bj ij where tj: "blocks_rep t (dinode_at t j) bj ij" "data_rep t bj ds" "d_size (dinode_at t j) = of_nat (length ds)"
    "Z = set (blocks_of bj ij)" "j < of_nat NINODES"
    using fl by (auto simp: file_ok_def simp del: NINODES_def)
  have "dinode_at ?u j = dinode_at t j"
    unfolding bn_def using din_roundtrip(2) [OF d] j by (intro dinode_at_other [OF ok inum tj(5)]) auto
  moreover have "sec ?u b = sec t b" if "b \<in> set (blocks_of bj ij)" for b
    using w(3) blocks_repD(8) [OF tj(1) that] f by (auto intro: less_le_trans)
  ultimately show ?thesis using rep_same [OF tj(1,2), of ?u] tj(3-5) by (auto simp: file_ok_def simp del: NINODES_def)
qed

text \<open>The number of blocks that \<open>n\<close> bytes of a file take on the disk, the indirect block included.\<close>

definition disk_use :: "nat \<Rightarrow> nat" where
  "disk_use n = (let k = (n + 1023) div 1024 in k + (if 12 < k then 1 else 0))"

lemma disk_use_mono: "n \<le> m \<Longrightarrow> disk_use n \<le> disk_use m"
  using div_le_mono [of "n + 1023" "m + 1023" 1024] by (auto simp: disk_use_def Let_def)

lemma appending_use:
  assumes "appending (unat f + (N - k) + (if k \<le> 12 then 2 else 1)) N t din bl ind (cs @ p)"
    and "N = (length (cs @ p) + 1023) div 1024" "k = (length cs + 1023) div 1024"
  shows "unat (freeblock t) + disk_use (length cs) \<le> unat f + disk_use (length (cs @ p))"
proof -
  have "length bl = N" using appendingD(2) [OF assms(1)] assms(2) by (simp add: data_rep_def)
  moreover have "k \<le> N" using assms(2,3) by (simp add: div_le_mono)
  ultimately show ?thesis using appendingD(6) [OF assms(1)]
    unfolding disk_use_def Let_def assms(2) [symmetric] assms(3) [symmetric] by (auto split: if_splits)
qed

lemma iappend_run:
  assumes ok: "image_ok s" and fl: "file_ok s inum X cs" and max: "length cs + length p \<le> MAXFILE * BSIZE"
    and room: "unat (freeblock s) + ((length cs + length p + 1023) div 1024 - (length cs + 1023) div 1024) + 2 \<le> FSSIZE"
  obtains t Y where "iappend False inum p e s = Ok () t" "image_ok t" "file_ok t inum Y (cs @ p)"
    "\<And>j Z ds. j \<noteq> inum \<Longrightarrow> X \<inter> Z = {} \<Longrightarrow> file_ok s j Z ds \<Longrightarrow> file_ok t j Z ds \<and> Y \<inter> Z = {}"
    "unat (freeblock t) + disk_use (length cs) \<le> unat (freeblock s) + disk_use (length (cs @ p))"
    "freeinode t = freeinode s" "sec t 1 = sec s 1"
proof -
  define N k where "N = (length cs + length p + 1023) div 1024" and "k = (length cs + 1023) div 1024"
  define M where "M = unat (freeblock s) + (N - k) + (if k \<le> 12 then 2 else 1)"
  have N: "length cs + length p \<le> 1024 * N" "N \<le> 268" using max unfolding N_def by (linarith, simp)
  have m: "secs_ok s" "fresh s" "46 \<le> freeblock s" "msb s = make_sb False" using ok by (simp_all add: image_ok_def)
  obtain bl ind where r: "blocks_rep s (dinode_at s inum) bl ind" "data_rep s bl cs" "d_size (dinode_at s inum) = of_nat (length cs)"
    and X: "X = set (blocks_of bl ind)" and inum: "inum < of_nat NINODES" using fl by (auto simp: file_ok_def simp del: NINODES_def)
  have "M \<le> 2000" using room by (auto simp: M_def N_def k_def)
  then have ap: "appending M N s (dinode_at s inum) bl ind cs"
    using r(1,2) m by (auto simp: appending_def M_def k_def data_rep_def)
  obtain din' bl' ind' t where t:
    "loopK (iappend_body False) (dinode_at s inum, of_nat (length cs), p) e s = Ok (din', of_nat (length (cs @ p))) t"
    "appending M N t din' bl' ind' (cs @ p)" "kept X s t" "set (blocks_of bl' ind') \<subseteq> X \<union> {freeblock s..}"
    using iappend_loop [OF ap N] unfolding X by metis
  note a = appendingD [OF t(2)]
  have X46: "X \<subseteq> {46..}" using blocks_repD(8) [OF r(1)] X by auto
  have ok': "image_ok t" using a(3-5) t(3) m(4) by (simp add: image_ok_def kept_def)
  let ?d = "din'\<lparr>d_size := of_nat (length (cs @ p))\<rparr>" and ?bn = "IBLOCK inum (msb t)"
  define u where "u = put_sec ?bn (put_bytes (sec t ?bn) (dinode_off inum) (din_bytes False ?d)) t"
  have len: "length (d_addrs ?d) = 13" using blocks_repD(1) [OF a(1)] by simp
  note w = winode_ok [OF ok' inum len, folded u_def]
  have same: "sec u b = sec t b" if "b \<in> set (blocks_of bl' ind')" for b
    using w(3) blocks_repD(8) [OF a(1) that] a(8) [OF that] by simp
  have "blocks_rep t ?d bl' ind'" using a(1) by (simp add: blocks_rep_def)
  from rep_same [OF this a(2) same] have "file_ok u inum (set (blocks_of bl' ind')) (cs @ p)"
    using inum w(2) by (auto simp: file_ok_def u_def simp del: NINODES_def)
  moreover have "iappend False inum p e s = Ok () u"
    using t(1) r(3) rinode_run [OF ok inum, of e] winode_run [OF ok' inum, of ?d e]
    by (simp add: iappend_def monad_defs u_def)
  moreover have "file_ok u j Z ds \<and> set (blocks_of bl' ind') \<inter> Z = {}"
    if j: "j \<noteq> inum" "X \<inter> Z = {}" "file_ok s j Z ds" for j Z ds
  proof
    have Z: "b < freeblock s" if "b \<in> Z" for b using j(3) that by (auto simp: file_ok_def dest: blocks_repD(8))
    show "set (blocks_of bl' ind') \<inter> Z = {}" using t(4) j(2) Z by fastforce
    have f: "freeblock s \<le> 2000" using appendingD(7) [OF ap] .
    show "file_ok u j Z ds" unfolding u_def
      by (rule winode_other [OF ok' inum len file_ok_other [OF ok ok' j(3) f t(3) j(2) X46] j(1) a(7)])
  qed
  moreover have "unat (freeblock u) + disk_use (length cs) \<le> unat (freeblock s) + disk_use (length (cs @ p))"
    using appending_use [OF t(2) [unfolded M_def]] by (simp add: u_def N_def k_def)
  moreover have "freeinode u = freeinode s" using t(3) by (simp add: u_def kept_def)
  moreover have "sec u 1 = sec s 1"
  proof -
    have "1 < freeblock s" using m(3) by (simp add: word_less_nat_alt word_le_nat_alt)
    moreover have "1 \<notin> X" using X46 by (auto simp: word_le_nat_alt)
    ultimately have "sec t 1 = sec s 1" using t(3) by (simp add: kept_def)
    then show ?thesis using w(4) by simp
  qed
  ultimately show ?thesis using that w(1) by blast
qed

text \<open>
  C29. \<^verbatim>\<open>iappend\<close> appends bytes to the content of a file as the kernel finds it, through direct and indirect
  blocks, and leaves every other file with disjoint blocks as it was; it returns whenever the file
  stays below its maximal size and the image has room.
\<close>

theorem iappend_appends:
  assumes "image_ok s" and "file_ok s inum X cs" and "length cs + length p \<le> MAXFILE * BSIZE"
    and "unat (freeblock s) + ((length cs + length p + 1023) div 1024 - (length cs + 1023) div 1024) + 2 \<le> FSSIZE"
  shows "\<exists>t Y. iappend False inum p e s = Ok () t \<and> image_ok t \<and> file_ok t inum Y (cs @ p) \<and>
    (\<forall>ip. kernel_content t inum ip = cs @ p) \<and>
    (\<forall>j Z ds ip. j \<noteq> inum \<and> X \<inter> Z = {} \<and> file_ok s j Z ds \<longrightarrow>
       file_ok t j Z ds \<and> Y \<inter> Z = {} \<and> kernel_content t j ip = ds)"
proof -
  obtain t Y where t: "iappend False inum p e s = Ok () t" "image_ok t" "file_ok t inum Y (cs @ p)"
    "\<And>j Z ds. j \<noteq> inum \<Longrightarrow> X \<inter> Z = {} \<Longrightarrow> file_ok s j Z ds \<Longrightarrow> file_ok t j Z ds \<and> Y \<inter> Z = {}"
    using iappend_run [OF assms, where e = e] by metis
  then show ?thesis using file_ok_content [OF t(2)] by blast
qed

definition blank_image :: mkfs_st where
  "blank_image = \<lparr>image = (\<lambda>_. Some (replicate 1024 0)), msb = make_sb False, freeinode = 2, freeblock = 46\<rparr>"

lemma blank_image_ok: "image_ok blank_image" "file_ok blank_image 1 {} []"
proof -
  have sec: "sec blank_image b = replicate 1024 0" for b by (simp add: sec_def blank_image_def)
  then show "image_ok blank_image" by (simp add: image_ok_def secs_ok_def fresh_def) (simp add: blank_image_def)
  have "word_of (replicate 4 0) = (0 :: u32)" by code_simp
  then have d: "d_size (dinode_at blank_image 1) = 0" "d_addrs (dinode_at blank_image 1) = replicate 13 0"
    by (simp_all add: dinode_at_def sec din_of_def dinode_off_def min_def Let_def list_eq_iff_nth_eq del: upt_Suc)
  then show "file_ok blank_image 1 {} []"
    by (auto simp: file_ok_def blocks_rep_def blocks_of_def data_rep_def intro!: exI [of _ "[]"])
qed

theorem iappend_appends_witness:
  "\<exists>t. iappend False 1 [104, 105] idle_env blank_image = Ok () t \<and> (\<forall>ip. kernel_content t 1 ip = [104, 105])"
  using iappend_appends [OF blank_image_ok, of "[104, 105]" idle_env] by (fastforce simp: blank_image_def)

text \<open>
  C32. \<^verbatim>\<open>ialloc\<close> of \<^verbatim>\<open>mkfs\<close> does not look at the number of inodes: the inode of every number from 208 on (up to 31487, where the image ends) is
  written after the last block of inodes, 16 to a block: those up to 223 into the block of the free map, which \<^verbatim>\<open>balloc\<close>
  overwrites at the end, and those from 224 on into the blocks that hold the data of files.
\<close>

theorem ialloc_overruns:
  assumes "secs_ok s" and "msb s = make_sb False" and "208 \<le> freeinode s" "freeinode s < 31488"
  defines "b \<equiv> sb_bmapstart (msb s) + (freeinode s - 208) div 16"
  shows "\<exists>t buf. mk_ialloc False T_FILE e s = Ok (freeinode s) t \<and> sb_bmapstart (msb s) \<le> b \<and>
    (b = sb_bmapstart (msb s) \<longleftrightarrow> freeinode s < 224) \<and>
    image t (b * of_nat BSIZE) = Some buf \<and> get16 buf (dinode_off (freeinode s)) = T_FILE"
proof -
  let ?i = "freeinode s" and ?s = "s\<lparr>freeinode := freeinode s + 1\<rparr>"
  let ?d = "\<lparr>d_type = 2, d_major = 0, d_minor = 0, d_nlink = 1, d_size = 0, d_addrs = replicate 13 0\<rparr> :: dinode"
  have u: "208 \<le> unat ?i" using assms(3) by (simp add: word_le_nat_alt)
  have d: "unat ((?i - 208) div 16) = unat ?i div 16 - 13" using u assms(3) by (simp add: unat_div unat_sub)
  have lt: "unat ?i < 2 ^ 32" using unsigned_less [of ?i] by simp
  have ub: "unat b = unat ?i div 16 + 32"
    using u d lt assms(2) unfolding b_def by (subst unat_add_lem [THEN iffD1]) (simp_all add: make_sb_def)
  have bn: "IBLOCK ?i (msb s) = b"
    using ub lt assms(2) by (simp add: word_unat_eq_iff IBLOCK_def make_sb_def unat_word_ariths(1) unat_div)
  have sb: "sb_bmapstart (msb s) = 45" using assms(2) by (simp add: make_sb_def)
  have pos: "45 \<le> b" "b = 45 \<longleftrightarrow> ?i < 224"
    using u by (auto simp: word_le_nat_alt word_less_nat_alt word_unat_eq_iff ub)
  have ok: "secs_ok ?s" "sec ?s b = sec s b" using assms(1) by (simp_all add: secs_ok_def sec_def)
  have b2: "b < 2000" using assms(4) by (simp add: word_less_nat_alt ub)
  then have l: "length (sec s b) = 1024" using assms(1) by (simp add: secs_ok_def)
  have off: "dinode_off ?i + 64 \<le> 1024" 
  proof -
    have "unat ?i mod 16 < 16" by simp
    then show ?thesis unfolding dinode_off_def by simp
  qed
  have b64: "length (din_bytes False ?d) = 64" by (rule din_roundtrip) simp
  let ?buf = "put_bytes (sec s b) (dinode_off ?i) (din_bytes False ?d)"
  have run: "mk_ialloc False T_FILE e s = Ok ?i (put_sec b ?buf ?s)"
    using rsect_run [OF ok(1) b2, of e] ok(2) bn
    by (simp add: mk_ialloc_def winode_def monad_defs wsect_run)
  have "take 2 (drop (dinode_off ?i) ?buf) = take 2 (take 64 (drop (dinode_off ?i) ?buf))" by simp
  also have "\<dots> = take 2 (din_bytes False ?d)" using take_drop_put_same [of "dinode_off ?i" "din_bytes False ?d" "sec s b"] off l b64 by simp
  finally have "get16 ?buf (dinode_off ?i) = T_FILE" by (simp add: get16_def din_bytes_def word_of_bytes_of)
  then show ?thesis using run pos sb by (simp add: put_sec_def)
qed

theorem ialloc_overruns_witness:
  "\<exists>t buf. mk_ialloc False T_FILE idle_env (blank_image\<lparr>freeinode := 226\<rparr>) = Ok 226 t \<and>
    image t (46 * 1024) = Some buf \<and> get16 buf 128 = T_FILE"
  using ialloc_overruns [of "blank_image\<lparr>freeinode := 226\<rparr>" idle_env]
  by (simp add: blank_image_def secs_ok_def sec_def make_sb_def dinode_off_def)

end
