(* ===== verification/Mkfs_Image.thy ===== *)
theory Mkfs_Image
  imports Mkfs_Files
begin

text \<open>
  The image that \<^verbatim>\<open>mkfs\<close> leaves: the operations of \<open>Mkfs_Files\<close> composed as \<^verbatim>\<open>main\<close> composes them. The state
  is described by the contents of the files made so far; the file at position \<open>i\<close> of the list has
  inode number \<open>i + 1\<close>, the root directory is the first one. The host is little-endian.
\<close>

section \<open>A disk with files\<close>














section \<open>The files of the command line\<close>







lemma length_dirent [simp]: "length (make_dirent False i n) = 16"
  by (simp add: make_dirent_def)






section \<open>The beginning and the end\<close>











end
