(* ===== verification/Interleaving.thy ===== *)
theory Interleaving
  imports Proc
begin

text \<open>
  Several harts at once. The other theories describe what one hart sees; here the steps of the
  locking protocols of \<^verbatim>\<open>kernel/spinlock.c\<close> and \<^verbatim>\<open>kernel/proc.c\<close> are interleaved: a step is one access to
  shared memory of one hart, and memory is sequentially consistent.

  \<^item> Any number of harts that acquire and release one spin lock.
  \<^item> A process that sleeps until a condition holds, and another that makes it true and calls \<^verbatim>\<open>wakeup\<close>.
  \<^item> A process that gives up its hart, by \<^verbatim>\<open>sleep\<close> or by \<^verbatim>\<open>co_yield\<close>, while another hart kills and schedules it.
\<close>

section \<open>Transition systems\<close>

locale transitions =
  fixes start :: "'s \<Rightarrow> bool" and step :: "'s \<Rightarrow> 's \<Rightarrow> bool"
begin

definition reachable :: "'s \<Rightarrow> bool" where
  "reachable s \<longleftrightarrow> (\<exists>s0. start s0 \<and> step\<^sup>*\<^sup>* s0 s)"

lemma reachable_start: "start s \<Longrightarrow> reachable s"
  by (auto simp: reachable_def)

lemma reachable_step: "reachable s \<Longrightarrow> step s t \<Longrightarrow> reachable t"
  by (auto simp: reachable_def intro: rtranclp.rtrancl_into_rtrancl)

lemma invariant:
  assumes "reachable s" and "\<And>s. start s \<Longrightarrow> I s" and "\<And>s t. I s \<Longrightarrow> step s t \<Longrightarrow> I t"
  shows "I s"
proof -
  from assms(1) obtain s0 where "start s0" "step\<^sup>*\<^sup>* s0 s" by (auto simp: reachable_def)
  from this(2) show ?thesis by (induction rule: rtranclp_induct) (use assms(2,3) \<open>start s0\<close> in auto)
qed

text \<open>When every step lowers a measure, there is no infinite run.\<close>

lemma no_infinite_run:
  assumes "\<And>s t. reachable s \<Longrightarrow> step s t \<Longrightarrow> f t < (f s :: nat)"
  shows "\<not> (start (r 0) \<and> (\<forall>i. step (r i) (r (Suc i))))"
proof
  assume r: "start (r 0) \<and> (\<forall>i. step (r i) (r (Suc i)))"
  have "reachable (r i) \<and> f (r i) + i \<le> f (r 0)" for i
  proof (induction i)
    case 0
    then show ?case using r reachable_start by simp
  next
    case (Suc i)
    then show ?case using assms [of "r i" "r (Suc i)"] reachable_step [of "r i" "r (Suc i)"] r by simp
  qed
  from this [of "Suc (f (r 0))"] show False by simp
qed

end

section \<open>Spin locks\<close>

text \<open>
  Where a hart is in \<^verbatim>\<open>acquire\<close>, the critical section and \<^verbatim>\<open>release\<close>. The two tests of \<^verbatim>\<open>holding\<close> read first \<^verbatim>\<open>locked\<close>
  and then \<^verbatim>\<open>cpu\<close>.
\<close>

datatype lock_pc = Outside | Acq_locked | Acq_cpu | Swap | Set_cpu | Critical | Rel_locked | Rel_cpu | Clear_cpu | Unlock | Lock_panic

record lock_st =
  l_locked :: u32
  l_cpu :: "nat option"
  l_pc :: "nat \<Rightarrow> lock_pc"

definition goto :: "nat \<Rightarrow> lock_pc \<Rightarrow> lock_st \<Rightarrow> lock_st" where
  "goto h p s = s\<lparr>l_pc := (l_pc s)(h := p)\<rparr>"

inductive lock_step :: "lock_st \<Rightarrow> lock_st \<Rightarrow> bool" where
  call_acquire: "l_pc s h = Outside \<Longrightarrow> lock_step s (goto h Acq_locked s)"
| acq_locked: "l_pc s h = Acq_locked \<Longrightarrow> lock_step s (goto h (if l_locked s \<noteq> 0 then Acq_cpu else Swap) s)"
| acq_cpu: "l_pc s h = Acq_cpu \<Longrightarrow> lock_step s (goto h (if l_cpu s = Some h then Lock_panic else Swap) s)"
| swap: "l_pc s h = Swap \<Longrightarrow> lock_step s (goto h (if l_locked s = 0 then Set_cpu else Swap) (s\<lparr>l_locked := 1\<rparr>))"
| set_cpu: "l_pc s h = Set_cpu \<Longrightarrow> lock_step s (goto h Critical (s\<lparr>l_cpu := Some h\<rparr>))"
| call_release: "l_pc s h = Critical \<Longrightarrow> lock_step s (goto h Rel_locked s)"
| rel_locked: "l_pc s h = Rel_locked \<Longrightarrow> lock_step s (goto h (if l_locked s \<noteq> 0 then Rel_cpu else Lock_panic) s)"
| rel_cpu: "l_pc s h = Rel_cpu \<Longrightarrow> lock_step s (goto h (if l_cpu s = Some h then Clear_cpu else Lock_panic) s)"
| clear_cpu: "l_pc s h = Clear_cpu \<Longrightarrow> lock_step s (goto h Unlock (s\<lparr>l_cpu := None\<rparr>))"
| unlock: "l_pc s h = Unlock \<Longrightarrow> lock_step s (goto h Outside (s\<lparr>l_locked := 0\<rparr>))"

definition lock_start :: "lock_st \<Rightarrow> bool" where
  "lock_start s \<longleftrightarrow> l_locked s = 0 \<and> l_cpu s = None \<and> (\<forall>h. l_pc s h = Outside)"

interpretation lk: transitions lock_start lock_step .

text \<open>A hart has the lock from its successful swap to the store that unlocks.\<close>

definition has_lock :: "lock_pc \<Rightarrow> bool" where
  "has_lock p \<longleftrightarrow> p \<in> {Set_cpu, Critical, Rel_locked, Rel_cpu, Clear_cpu, Unlock}"

definition named_by :: "lock_pc \<Rightarrow> bool" where
  "named_by p \<longleftrightarrow> p \<in> {Critical, Rel_locked, Rel_cpu, Clear_cpu}"

lemma pc_simps [simp]:
  "\<not> has_lock Outside" "\<not> has_lock Acq_locked" "\<not> has_lock Acq_cpu" "\<not> has_lock Swap" "has_lock Set_cpu" "has_lock Critical"
  "has_lock Rel_locked" "has_lock Rel_cpu" "has_lock Clear_cpu" "has_lock Unlock" "\<not> has_lock Lock_panic"
  "\<not> named_by Outside" "\<not> named_by Acq_locked" "\<not> named_by Acq_cpu" "\<not> named_by Swap" "\<not> named_by Set_cpu" "named_by Critical"
  "named_by Rel_locked" "named_by Rel_cpu" "named_by Clear_cpu" "\<not> named_by Unlock" "\<not> named_by Lock_panic"
  by (simp_all add: has_lock_def named_by_def)

definition owned :: "nat option \<Rightarrow> lock_st \<Rightarrow> bool" where
  "owned owner s \<longleftrightarrow> (\<forall>h. has_lock (l_pc s h) \<longleftrightarrow> owner = Some h) \<and> (l_locked s \<noteq> 0 \<longleftrightarrow> owner \<noteq> None) \<and>
     (\<forall>h. l_cpu s = Some h \<longleftrightarrow> named_by (l_pc s h)) \<and> (\<forall>h. l_pc s h \<noteq> Lock_panic)"

lemma ownedD:
  assumes "owned owner s"
  shows "has_lock (l_pc s h) \<longleftrightarrow> owner = Some h" "l_locked s = 0 \<longleftrightarrow> owner = None" "l_cpu s = Some h \<longleftrightarrow> named_by (l_pc s h)"
    "l_pc s h \<noteq> Lock_panic"
  using assms by (auto simp: owned_def)

lemma named_by_has_lock: "named_by p \<Longrightarrow> has_lock p"
  by (auto simp: named_by_def has_lock_def)

text \<open>A step that moves hart \<open>h\<close> without touching the lock.\<close>

lemma owned_goto:
  assumes "owned owner s" and "has_lock p \<longleftrightarrow> has_lock (l_pc s h)" "named_by p \<longleftrightarrow> named_by (l_pc s h)" "p \<noteq> Lock_panic"
  shows "owned owner (goto h p s)"
  using assms by (auto simp: owned_def goto_def)

lemma owned_step:
  assumes "lock_step s t" and o: "owned owner s"
  shows "\<exists>owner. owned owner t"
  using assms
proof (cases rule: lock_step.cases)
  case (call_acquire h)
  then show ?thesis using owned_goto [OF o, of Acq_locked h] by auto
next
  case (acq_locked h)
  then show ?thesis using owned_goto [OF o, of Acq_cpu h] owned_goto [OF o, of Swap h] by auto
next
  case (acq_cpu h)
  then have "l_cpu s \<noteq> Some h" using ownedD(3) [OF o, of h] by simp
  then show ?thesis using acq_cpu owned_goto [OF o, of Swap h] by auto
next
  case (swap h)
  show ?thesis
  proof (cases "l_locked s = 0")
    case True
    then have "owner = None" using ownedD(2) [OF o] by simp
    then have "owned (Some h) (goto h Set_cpu (s\<lparr>l_locked := 1\<rparr>))"
      using o swap by (auto simp: owned_def goto_def)
    then show ?thesis using swap True by auto
  next
    case False
    then have "owned owner (s\<lparr>l_locked := 1\<rparr>)" using o by (auto simp: owned_def)
    then show ?thesis using swap False owned_goto [of owner "s\<lparr>l_locked := 1\<rparr>" Swap h] by auto
  qed
next
  case (set_cpu h)
  then have w: "owner = Some h" using ownedD(1) [OF o, of h] by simp
  then have "\<not> named_by (l_pc s g)" for g using ownedD(1) [OF o, of g] named_by_has_lock set_cpu by fastforce
  then have "owned owner (goto h Critical (s\<lparr>l_cpu := Some h\<rparr>))" using o set_cpu by (auto simp: owned_def goto_def)
  then show ?thesis using set_cpu by auto
next
  case (call_release h)
  then show ?thesis using owned_goto [OF o, of Rel_locked h] by auto
next
  case (rel_locked h)
  then have "owner = Some h" using ownedD(1) [OF o, of h] by simp
  then have "l_locked s \<noteq> 0" using ownedD(2) [OF o] by simp
  then show ?thesis using rel_locked owned_goto [OF o, of Rel_cpu h] by auto
next
  case (rel_cpu h)
  then have "l_cpu s = Some h" using ownedD(3) [OF o, of h] by simp
  then show ?thesis using rel_cpu owned_goto [OF o, of Clear_cpu h] by auto
next
  case (clear_cpu h)
  then have w: "owner = Some h" using ownedD(1) [OF o, of h] by simp
  have "\<not> named_by (l_pc s g)" if "g \<noteq> h" for g using ownedD(1) [OF o, of g] named_by_has_lock that w by auto
  then have "owned owner (goto h Unlock (s\<lparr>l_cpu := None\<rparr>))" using o clear_cpu by (auto simp: owned_def goto_def)
  then show ?thesis using clear_cpu by auto
next
  case (unlock h)
  then have w: "owner = Some h" using ownedD(1) [OF o, of h] by simp
  then have "owned None (goto h Outside (s\<lparr>l_locked := 0\<rparr>))" using o unlock by (auto simp: owned_def goto_def)
  then show ?thesis using unlock by auto
qed

lemma reachable_owned: "lk.reachable s \<Longrightarrow> \<exists>owner. owned owner s"
proof (erule lk.invariant)
  fix s assume "lock_start s"
  then have "owned None s" by (simp add: lock_start_def owned_def)
  then show "\<exists>owner. owned owner s" by blast
qed (blast intro: owned_step)

text \<open>
  C33. Spin locks exclude each other: in every interleaving of any number of harts that acquire and
  release a lock, at most one is between its successful swap and its unlocking store; and neither
  \<^verbatim>\<open>acquire\<close> nor \<^verbatim>\<open>release\<close> panics, although \<^verbatim>\<open>holding\<close> reads the lock unprotected.
\<close>

theorem mutual_exclusion:
  assumes "lk.reachable s"
  shows "(has_lock (l_pc s g) \<and> has_lock (l_pc s h) \<longrightarrow> g = h) \<and> l_pc s h \<noteq> Lock_panic"
  using reachable_owned [OF assms] by (auto simp: owned_def)

definition lock_run :: lock_st where
  "lock_run = \<lparr>l_locked = 1, l_cpu = Some 0, l_pc = (\<lambda>_. Outside)(0 := Critical, 1 := Acq_cpu)\<rparr>"

lemma lock_run_reachable: "lk.reachable lock_run"
proof -
  let ?s = "\<lambda>k c f. \<lparr>l_locked = k, l_cpu = c, l_pc = f\<rparr> :: lock_st" and ?o = "\<lambda>_. Outside"
  have "lk.reachable (?s 0 None ?o)" by (rule lk.reachable_start) (simp add: lock_start_def)
  from lk.reachable_step [OF this call_acquire [where h = 0]] have "lk.reachable (?s 0 None (?o(0 := Acq_locked)))" by (simp add: goto_def)
  from lk.reachable_step [OF this acq_locked [where h = 0]] have "lk.reachable (?s 0 None (?o(0 := Swap)))" by (simp add: goto_def)
  from lk.reachable_step [OF this swap [where h = 0]] have "lk.reachable (?s 1 None (?o(0 := Set_cpu)))" by (simp add: goto_def)
  from lk.reachable_step [OF this set_cpu [where h = 0]] have "lk.reachable (?s 1 (Some 0) (?o(0 := Critical)))" by (simp add: goto_def)
  from lk.reachable_step [OF this call_acquire [where h = 1]] have "lk.reachable (?s 1 (Some 0) (?o(0 := Critical, 1 := Acq_locked)))" by (simp add: goto_def)
  from lk.reachable_step [OF this acq_locked [where h = 1]] show ?thesis by (simp add: goto_def lock_run_def)
qed

theorem mutual_exclusion_witness: "has_lock (l_pc lock_run 0) \<and> \<not> has_lock (l_pc lock_run 1) \<and> l_pc lock_run 1 \<noteq> Lock_panic"
  using mutual_exclusion [OF lock_run_reachable, of 0 1] by (simp add: lock_run_def)

section \<open>Sleep and wakeup\<close>

text \<open>
  The sleeper runs \<^verbatim>\<open>acquire(lk); while(!cond) sleep(chan, lk); release(lk);\<close> and the waker runs
  \<^verbatim>\<open>acquire(lk); cond = 1; wakeup(chan); release(lk);\<close>, as the pipes, the console and the disk driver do. Locks
  are taken in one step. \<open>S_away\<close> is a process that is not on any hart; a round of the
  scheduler that does not find it runnable takes and releases its lock and is not shown.
\<close>

datatype who = Sleeper | Waker

datatype sleeper_pc = S_acquire | S_test | S_acquire_p | S_release_lk | S_chan | S_state | S_sched | S_away | S_tidy | S_release_p | S_reacquire | S_done

datatype waker_pc = W_acquire | W_set | W_acquire_p | W_wake | W_release_p | W_release | W_done

record sw_st =
  sw_lk :: "who option"
  sw_plock :: "who option"
  sw_cond :: bool
  sw_state :: procstate
  sw_chan :: bool
  sw_s :: sleeper_pc
  sw_w :: waker_pc

inductive sw_step :: "sw_st \<Rightarrow> sw_st \<Rightarrow> bool" where
  s_acquire: "sw_s s = S_acquire \<Longrightarrow> sw_lk s = None \<Longrightarrow> sw_step s (s\<lparr>sw_lk := Some Sleeper, sw_s := S_test\<rparr>)"
| s_test: "sw_s s = S_test \<Longrightarrow> \<not> sw_cond s \<Longrightarrow> sw_step s (s\<lparr>sw_s := S_acquire_p\<rparr>)"
| s_leave: "sw_s s = S_test \<Longrightarrow> sw_cond s \<Longrightarrow> sw_step s (s\<lparr>sw_lk := None, sw_s := S_done\<rparr>)"
| s_acquire_p: "sw_s s = S_acquire_p \<Longrightarrow> sw_plock s = None \<Longrightarrow> sw_step s (s\<lparr>sw_plock := Some Sleeper, sw_s := S_release_lk\<rparr>)"
| s_release_lk: "sw_s s = S_release_lk \<Longrightarrow> sw_step s (s\<lparr>sw_lk := None, sw_s := S_chan\<rparr>)"
| s_chan: "sw_s s = S_chan \<Longrightarrow> sw_step s (s\<lparr>sw_chan := True, sw_s := S_state\<rparr>)"
| s_state: "sw_s s = S_state \<Longrightarrow> sw_step s (s\<lparr>sw_state := SLEEPING, sw_s := S_sched\<rparr>)"
| s_sched: "sw_s s = S_sched \<Longrightarrow> sw_step s (s\<lparr>sw_plock := None, sw_s := S_away\<rparr>)"
| s_schedule: "sw_s s = S_away \<Longrightarrow> sw_plock s = None \<Longrightarrow> sw_state s = RUNNABLE \<Longrightarrow>
    sw_step s (s\<lparr>sw_plock := Some Sleeper, sw_state := RUNNING, sw_s := S_tidy\<rparr>)"
| s_tidy: "sw_s s = S_tidy \<Longrightarrow> sw_step s (s\<lparr>sw_chan := False, sw_s := S_release_p\<rparr>)"
| s_release_p: "sw_s s = S_release_p \<Longrightarrow> sw_step s (s\<lparr>sw_plock := None, sw_s := S_reacquire\<rparr>)"
| s_reacquire: "sw_s s = S_reacquire \<Longrightarrow> sw_lk s = None \<Longrightarrow> sw_step s (s\<lparr>sw_lk := Some Sleeper, sw_s := S_test\<rparr>)"
| w_acquire: "sw_w s = W_acquire \<Longrightarrow> sw_lk s = None \<Longrightarrow> sw_step s (s\<lparr>sw_lk := Some Waker, sw_w := W_set\<rparr>)"
| w_set: "sw_w s = W_set \<Longrightarrow> sw_step s (s\<lparr>sw_cond := True, sw_w := W_acquire_p\<rparr>)"
| w_acquire_p: "sw_w s = W_acquire_p \<Longrightarrow> sw_plock s = None \<Longrightarrow> sw_step s (s\<lparr>sw_plock := Some Waker, sw_w := W_wake\<rparr>)"
| w_wake: "sw_w s = W_wake \<Longrightarrow>
    sw_step s (s\<lparr>sw_state := (if sw_state s = SLEEPING \<and> sw_chan s then RUNNABLE else sw_state s), sw_w := W_release_p\<rparr>)"
| w_release_p: "sw_w s = W_release_p \<Longrightarrow> sw_step s (s\<lparr>sw_plock := None, sw_w := W_release\<rparr>)"
| w_release: "sw_w s = W_release \<Longrightarrow> sw_step s (s\<lparr>sw_lk := None, sw_w := W_done\<rparr>)"

definition sw_start :: "sw_st \<Rightarrow> bool" where
  "sw_start s \<longleftrightarrow> s = \<lparr>sw_lk = None, sw_plock = None, sw_cond = False, sw_state = RUNNING, sw_chan = False, sw_s = S_acquire, sw_w = W_acquire\<rparr>"

interpretation sw: transitions sw_start sw_step .

definition sw_inv :: "sw_st \<Rightarrow> bool" where
  "sw_inv s \<longleftrightarrow>
     (sw_lk s = Some Sleeper \<longleftrightarrow> sw_s s \<in> {S_test, S_acquire_p, S_release_lk}) \<and>
     (sw_lk s = Some Waker \<longleftrightarrow> sw_w s \<in> {W_set, W_acquire_p, W_wake, W_release_p, W_release}) \<and>
     (sw_plock s = Some Sleeper \<longleftrightarrow> sw_s s \<in> {S_release_lk, S_chan, S_state, S_sched, S_tidy, S_release_p}) \<and>
     (sw_plock s = Some Waker \<longleftrightarrow> sw_w s \<in> {W_wake, W_release_p}) \<and>
     (sw_cond s \<longleftrightarrow> sw_w s \<notin> {W_acquire, W_set}) \<and>
     (sw_s s \<in> {S_tidy, S_release_p, S_reacquire} \<longrightarrow> sw_cond s) \<and> (sw_s s = S_acquire_p \<or> sw_s s = S_release_lk \<longrightarrow> \<not> sw_cond s) \<and>
     (sw_s s \<in> {S_sched, S_away} \<longrightarrow> sw_chan s \<and> sw_state s \<in> {SLEEPING, RUNNABLE}) \<and> (sw_s s = S_state \<longrightarrow> sw_chan s) \<and>
     (sw_state s = SLEEPING \<longrightarrow> sw_s s \<in> {S_sched, S_away}) \<and> (sw_state s = RUNNABLE \<longrightarrow> sw_cond s \<and> sw_s s = S_away) \<and>
     (sw_w s \<in> {W_release_p, W_release, W_done} \<longrightarrow> sw_s s \<notin> {S_chan, S_state, S_sched} \<and> sw_state s \<noteq> SLEEPING)"

lemma who_option: "x = None \<or> x = Some Sleeper \<or> x = Some Waker"
  by (cases x) (auto intro: who.exhaust)

lemma sw_inv_step: "sw_step s t \<Longrightarrow> sw_inv s \<Longrightarrow> sw_inv t"
proof (induction rule: sw_step.induct)
  case (s_acquire s)
  then show ?case by (cases "sw_w s") (auto simp: sw_inv_def)
next
  case (s_test s)
  then show ?case by (cases "sw_w s") (auto simp: sw_inv_def)
next
  case (s_leave s)
  then show ?case by (cases "sw_w s") (auto simp: sw_inv_def)
next
  case (s_acquire_p s)
  then show ?case by (cases "sw_w s") (auto simp: sw_inv_def)
next
  case (s_release_lk s)
  then show ?case by (cases "sw_w s") (auto simp: sw_inv_def)
next
  case (s_chan s)
  then show ?case by (cases "sw_w s") (auto simp: sw_inv_def)
next
  case (s_state s)
  then show ?case by (cases "sw_w s") (auto simp: sw_inv_def)
next
  case (s_sched s)
  then show ?case by (cases "sw_w s") (auto simp: sw_inv_def)
next
  case (s_schedule s)
  then show ?case by (cases "sw_w s") (auto simp: sw_inv_def)
next
  case (s_tidy s)
  then show ?case by (cases "sw_w s") (auto simp: sw_inv_def)
next
  case (s_release_p s)
  then show ?case by (cases "sw_w s") (auto simp: sw_inv_def)
next
  case (s_reacquire s)
  then show ?case by (cases "sw_w s") (auto simp: sw_inv_def)
next
  case (w_acquire s)
  then show ?case by (cases "sw_s s") (auto simp: sw_inv_def)
next
  case (w_set s)
  then show ?case by (cases "sw_s s") (auto simp: sw_inv_def)
next
  case (w_acquire_p s)
  then show ?case by (cases "sw_s s") (auto simp: sw_inv_def)
next
  case (w_wake s)
  then show ?case by (cases "sw_s s") (auto simp: sw_inv_def)
next
  case (w_release_p s)
  then show ?case by (cases "sw_s s") (auto simp: sw_inv_def)
next
  case (w_release s)
  then show ?case by (cases "sw_s s") (auto simp: sw_inv_def)
qed

lemma sw_reachable_inv: "sw.reachable s \<Longrightarrow> sw_inv s"
proof (erule sw.invariant)
  show "sw_inv s" if "sw_start s" for s using that by (simp add: sw_start_def sw_inv_def)
qed (rule sw_inv_step)

text \<open>How far the two processes still have to go.\<close>

fun rank_s :: "sleeper_pc \<Rightarrow> bool \<Rightarrow> nat" where
  "rank_s S_acquire c = 12" | "rank_s S_test c = (if c then 1 else 11)" | "rank_s S_acquire_p c = 10" | "rank_s S_release_lk c = 9"
| "rank_s S_chan c = 8" | "rank_s S_state c = 7" | "rank_s S_sched c = 6" | "rank_s S_away c = 5" | "rank_s S_tidy c = 4"
| "rank_s S_release_p c = 3" | "rank_s S_reacquire c = 2" | "rank_s S_done c = 0"

fun rank_w :: "waker_pc \<Rightarrow> nat" where
  "rank_w W_acquire = 6" | "rank_w W_set = 5" | "rank_w W_acquire_p = 4" | "rank_w W_wake = 3" | "rank_w W_release_p = 2"
| "rank_w W_release = 1" | "rank_w W_done = 0"

lemma rank_s_cond: "rank_s p True \<le> rank_s p c"
  by (cases p; cases c) simp_all

lemma sw_step_rank:
  assumes "sw_step s t" and "sw_inv s"
  shows "rank_s (sw_s t) (sw_cond t) + rank_w (sw_w t) < rank_s (sw_s s) (sw_cond s) + rank_w (sw_w s)"
  using assms
proof (induction rule: sw_step.induct)
  case (s_reacquire s)
  then have "sw_cond s" by (auto simp: sw_inv_def)
  then show ?case using s_reacquire by simp
next
  case (w_set s)
  then show ?case using rank_s_cond [of "sw_s s" "sw_cond s"] by simp
qed simp_all

lemma sw_stuck:
  assumes inv: "sw_inv s" and stuck: "\<forall>t. \<not> sw_step s t"
  shows "sw_s s = S_done \<and> sw_w s = W_done"
proof -
  have enabled: "\<not> (sw_s s = S_acquire \<and> sw_lk s = None)" "sw_s s \<noteq> S_test" "\<not> (sw_s s = S_acquire_p \<and> sw_plock s = None)"
    "sw_s s \<notin> {S_release_lk, S_chan, S_state, S_sched, S_tidy, S_release_p}" "\<not> (sw_s s = S_away \<and> sw_plock s = None \<and> sw_state s = RUNNABLE)"
    "\<not> (sw_s s = S_reacquire \<and> sw_lk s = None)" "\<not> (sw_w s = W_acquire \<and> sw_lk s = None)" "\<not> (sw_w s = W_acquire_p \<and> sw_plock s = None)"
    "sw_w s \<notin> {W_set, W_wake, W_release_p, W_release}"
    using stuck by (auto dest: sw_step.intros)
  have "sw_lk s = None \<or> sw_lk s = Some Sleeper \<or> sw_lk s = Some Waker" "sw_plock s = None \<or> sw_plock s = Some Sleeper \<or> sw_plock s = Some Waker"
    using who_option by blast+
  then show ?thesis using inv enabled by (cases "sw_s s"; cases "sw_w s") (auto simp: sw_inv_def)
qed

text \<open>
  C34. No wakeup is lost: every run of a process that sleeps until a condition holds and of a process that
  makes it true and calls \<^verbatim>\<open>wakeup\<close> ends, in whatever order they take their steps, and it ends only when both
  have returned, the sleeper having seen the condition.
\<close>

theorem no_lost_wakeup:
  "\<not> (\<exists>r. sw_start (r 0) \<and> (\<forall>i. sw_step (r i) (r (Suc i)))) \<and>
   (\<forall>s. sw.reachable s \<and> (\<forall>t. \<not> sw_step s t) \<longrightarrow> sw_s s = S_done \<and> sw_w s = W_done)"
proof
  have "rank_s (sw_s t) (sw_cond t) + rank_w (sw_w t) < rank_s (sw_s s) (sw_cond s) + rank_w (sw_w s)"
    if "sw.reachable s" "sw_step s t" for s t using sw_step_rank [OF that(2) sw_reachable_inv [OF that(1)]] .
  then have "\<not> (sw_start (r 0) \<and> (\<forall>i. sw_step (r i) (r (Suc i))))" for r
    by (rule sw.no_infinite_run)
  then show "\<not> (\<exists>r. sw_start (r 0) \<and> (\<forall>i. sw_step (r i) (r (Suc i))))" by blast
  show "\<forall>s. sw.reachable s \<and> (\<forall>t. \<not> sw_step s t) \<longrightarrow> sw_s s = S_done \<and> sw_w s = W_done"
    using sw_stuck sw_reachable_inv by blast
qed

definition sw_final :: sw_st where
  "sw_final = \<lparr>sw_lk = None, sw_plock = None, sw_cond = True, sw_state = RUNNING, sw_chan = False, sw_s = S_done, sw_w = W_done\<rparr>"

text \<open>A run in which the process goes to sleep before the condition is set, and is woken up.\<close>

lemma sw_final_reachable: "sw.reachable sw_final"
proof -
  let ?s = "\<lambda>l p c st k a b. \<lparr>sw_lk = l, sw_plock = p, sw_cond = c, sw_state = st, sw_chan = k, sw_s = a, sw_w = b\<rparr> :: sw_st" and ?r = sw.reachable
  have "?r (?s None None False RUNNING False S_acquire W_acquire)" by (rule sw.reachable_start) (simp add: sw_start_def)
  from sw.reachable_step [OF this s_acquire] have "?r (?s (Some Sleeper) None False RUNNING False S_test W_acquire)" by simp
  from sw.reachable_step [OF this s_test] have "?r (?s (Some Sleeper) None False RUNNING False S_acquire_p W_acquire)" by simp
  from sw.reachable_step [OF this s_acquire_p] have "?r (?s (Some Sleeper) (Some Sleeper) False RUNNING False S_release_lk W_acquire)" by simp
  from sw.reachable_step [OF this s_release_lk] have "?r (?s None (Some Sleeper) False RUNNING False S_chan W_acquire)" by simp
  from sw.reachable_step [OF this w_acquire] have "?r (?s (Some Waker) (Some Sleeper) False RUNNING False S_chan W_set)" by simp
  from sw.reachable_step [OF this w_set] have "?r (?s (Some Waker) (Some Sleeper) True RUNNING False S_chan W_acquire_p)" by simp
  from sw.reachable_step [OF this s_chan] have "?r (?s (Some Waker) (Some Sleeper) True RUNNING True S_state W_acquire_p)" by simp
  from sw.reachable_step [OF this s_state] have "?r (?s (Some Waker) (Some Sleeper) True SLEEPING True S_sched W_acquire_p)" by simp
  from sw.reachable_step [OF this s_sched] have "?r (?s (Some Waker) None True SLEEPING True S_away W_acquire_p)" by simp
  from sw.reachable_step [OF this w_acquire_p] have "?r (?s (Some Waker) (Some Waker) True SLEEPING True S_away W_wake)" by simp
  from sw.reachable_step [OF this w_wake] have "?r (?s (Some Waker) (Some Waker) True RUNNABLE True S_away W_release_p)" by simp
  from sw.reachable_step [OF this w_release_p] have "?r (?s (Some Waker) None True RUNNABLE True S_away W_release)" by simp
  from sw.reachable_step [OF this w_release] have "?r (?s None None True RUNNABLE True S_away W_done)" by simp
  from sw.reachable_step [OF this s_schedule] have "?r (?s None (Some Sleeper) True RUNNING True S_tidy W_done)" by simp
  from sw.reachable_step [OF this s_tidy] have "?r (?s None (Some Sleeper) True RUNNING False S_release_p W_done)" by simp
  from sw.reachable_step [OF this s_release_p] have "?r (?s None None True RUNNING False S_reacquire W_done)" by simp
  from sw.reachable_step [OF this s_reacquire] have "?r (?s (Some Sleeper) None True RUNNING False S_test W_done)" by simp
  from sw.reachable_step [OF this s_leave] show ?thesis by (simp add: sw_final_def)
qed

lemma sw_final_stuck: "\<not> sw_step sw_final t"
  by (auto simp: sw_final_def elim: sw_step.cases)

theorem no_lost_wakeup_witness: "sw.reachable sw_final \<and> (\<forall>t. \<not> sw_step sw_final t) \<and> sw_s sw_final = S_done"
  using no_lost_wakeup sw_final_reachable sw_final_stuck by blast

section \<open>Giving up the hart\<close>

text \<open>
  Hart 0 runs a process that goes to sleep. \<^verbatim>\<open>sleep\<close> switches to the scheduler with the lock of the
  process held, and the scheduler releases it; \<^verbatim>\<open>co_yield\<close> releases the lock before it switches to its
  peer. Hart 1 executes \<^verbatim>\<open>kill\<close> for the process, which makes a sleeping process runnable, and then runs the
  scheduler. \<open>ho_saved\<close> says that the context of the process holds the registers with which it can go on.
\<close>

datatype way = By_sleep | By_co_yield

datatype leave_pc = H_acquire | H_mark | H_release | H_swtch | H_sched | H_gone

datatype kill_pc = K_acquire | K_kill | K_release | K_sched | K_pick | K_run

record ho_st =
  ho_lock :: "nat option"
  ho_state :: procstate
  ho_saved :: bool
  ho_a :: leave_pc
  ho_b :: kill_pc

text \<open>
  Hart 0 executes \<^verbatim>\<open>sleep\<close>, whose lock is released by the scheduler it switches to, or \<^verbatim>\<open>co_yield\<close>; hart 1 executes
  \<^verbatim>\<open>kill\<close> and then its scheduler.
\<close>

inductive sleep_leave :: "ho_st \<Rightarrow> ho_st \<Rightarrow> bool" where
  sl_acquire: "ho_a s = H_acquire \<Longrightarrow> ho_lock s = None \<Longrightarrow> sleep_leave s (s\<lparr>ho_lock := Some 0, ho_a := H_mark\<rparr>)"
| sl_mark: "ho_a s = H_mark \<Longrightarrow> sleep_leave s (s\<lparr>ho_state := SLEEPING, ho_a := H_swtch\<rparr>)"
| sl_swtch: "ho_a s = H_swtch \<Longrightarrow> sleep_leave s (s\<lparr>ho_saved := True, ho_a := H_sched\<rparr>)"
| sl_sched: "ho_a s = H_sched \<Longrightarrow> sleep_leave s (s\<lparr>ho_lock := None, ho_a := H_gone\<rparr>)"

inductive co_yield_leave :: "ho_st \<Rightarrow> ho_st \<Rightarrow> bool" where
  cl_acquire: "ho_a s = H_acquire \<Longrightarrow> ho_lock s = None \<Longrightarrow> co_yield_leave s (s\<lparr>ho_lock := Some 0, ho_a := H_mark\<rparr>)"
| cl_mark: "ho_a s = H_mark \<Longrightarrow> co_yield_leave s (s\<lparr>ho_state := SLEEPING, ho_a := H_release\<rparr>)"
| cl_release: "ho_a s = H_release \<Longrightarrow> co_yield_leave s (s\<lparr>ho_lock := None, ho_a := H_swtch\<rparr>)"
| cl_swtch: "ho_a s = H_swtch \<Longrightarrow> co_yield_leave s (s\<lparr>ho_saved := True, ho_a := H_gone\<rparr>)"

inductive kill_step :: "ho_st \<Rightarrow> ho_st \<Rightarrow> bool" where
  k_acquire: "ho_b s = K_acquire \<Longrightarrow> ho_lock s = None \<Longrightarrow> kill_step s (s\<lparr>ho_lock := Some 1, ho_b := K_kill\<rparr>)"
| k_kill: "ho_b s = K_kill \<Longrightarrow>
    kill_step s (s\<lparr>ho_state := (if ho_state s = SLEEPING then RUNNABLE else ho_state s), ho_b := K_release\<rparr>)"
| k_release: "ho_b s = K_release \<Longrightarrow> kill_step s (s\<lparr>ho_lock := None, ho_b := K_sched\<rparr>)"

inductive scheduler_step :: "ho_st \<Rightarrow> ho_st \<Rightarrow> bool" where
  k_sched: "ho_b s = K_sched \<Longrightarrow> ho_lock s = None \<Longrightarrow> scheduler_step s (s\<lparr>ho_lock := Some 1, ho_b := K_pick\<rparr>)"
| k_pick: "ho_b s = K_pick \<Longrightarrow> ho_state s = RUNNABLE \<Longrightarrow> scheduler_step s (s\<lparr>ho_state := RUNNING, ho_b := K_run\<rparr>)"
| k_skip: "ho_b s = K_pick \<Longrightarrow> ho_state s \<noteq> RUNNABLE \<Longrightarrow> scheduler_step s (s\<lparr>ho_lock := None, ho_b := K_sched\<rparr>)"

inductive ho_step :: "way \<Rightarrow> ho_st \<Rightarrow> ho_st \<Rightarrow> bool" where
  ho_sleep: "sleep_leave s t \<Longrightarrow> ho_step By_sleep s t"
| ho_co_yield: "co_yield_leave s t \<Longrightarrow> ho_step By_co_yield s t"
| ho_kill: "kill_step s t \<Longrightarrow> ho_step w s t"
| ho_scheduler: "scheduler_step s t \<Longrightarrow> ho_step w s t"

inductive_cases ho_sleepE: "ho_step By_sleep s t"

definition ho_start :: "ho_st \<Rightarrow> bool" where
  "ho_start s \<longleftrightarrow> s = \<lparr>ho_lock = None, ho_state = RUNNING, ho_saved = False, ho_a = H_acquire, ho_b = K_acquire\<rparr>"

interpretation ho: transitions ho_start "ho_step w" for w .

definition ho_inv :: "ho_st \<Rightarrow> bool" where
  "ho_inv s \<longleftrightarrow> (ho_lock s = Some 0 \<longleftrightarrow> ho_a s \<in> {H_mark, H_swtch, H_sched}) \<and> (ho_lock s = Some 1 \<longleftrightarrow> ho_b s \<in> {K_kill, K_release, K_pick, K_run}) \<and>
     ho_a s \<noteq> H_release \<and> (ho_saved s \<longleftrightarrow> ho_a s \<in> {H_sched, H_gone}) \<and> (ho_state s \<in> {SLEEPING, RUNNABLE} \<longrightarrow> ho_a s \<in> {H_swtch, H_sched, H_gone}) \<and>
     (ho_state s = RUNNABLE \<longrightarrow> ho_a s = H_gone) \<and> (ho_b s = K_run \<longrightarrow> ho_a s = H_gone)"

lemma ho_inv_leave: "sleep_leave s t \<Longrightarrow> ho_inv s \<Longrightarrow> ho_inv t"
proof (induction rule: sleep_leave.induct)
  case (sl_acquire s)
  then show ?case by (cases "ho_b s") (auto simp: ho_inv_def)
next
  case (sl_mark s)
  then show ?case by (cases "ho_b s") (auto simp: ho_inv_def)
next
  case (sl_swtch s)
  then show ?case by (cases "ho_b s") (auto simp: ho_inv_def)
next
  case (sl_sched s)
  then show ?case by (cases "ho_b s") (auto simp: ho_inv_def)
qed

lemma ho_inv_kill: "kill_step s t \<Longrightarrow> ho_inv s \<Longrightarrow> ho_inv t"
proof (induction rule: kill_step.induct)
  case (k_acquire s)
  then show ?case by (cases "ho_a s") (auto simp: ho_inv_def)
next
  case (k_kill s)
  then show ?case by (cases "ho_a s") (auto simp: ho_inv_def)
next
  case (k_release s)
  then show ?case by (cases "ho_a s") (auto simp: ho_inv_def)
qed

lemma ho_inv_scheduler: "scheduler_step s t \<Longrightarrow> ho_inv s \<Longrightarrow> ho_inv t"
proof (induction rule: scheduler_step.induct)
  case (k_sched s)
  then show ?case by (cases "ho_a s") (auto simp: ho_inv_def)
next
  case (k_pick s)
  then show ?case by (cases "ho_a s") (auto simp: ho_inv_def)
next
  case (k_skip s)
  then show ?case by (cases "ho_a s") (auto simp: ho_inv_def)
qed

lemma ho_inv_step: "ho_step By_sleep s t \<Longrightarrow> ho_inv s \<Longrightarrow> ho_inv t"
  by (elim ho_sleepE) (auto intro: ho_inv_leave ho_inv_kill ho_inv_scheduler)

text \<open>
  C35. A process that sleeps is never resumed too early: when another hart runs it, its registers
  have been saved and its old hart has left it, in every interleaving with \<^verbatim>\<open>kill\<close> and the scheduler.
\<close>

theorem sleep_hands_over:
  assumes "ho.reachable By_sleep s" and "ho_b s = K_run"
  shows "ho_saved s \<and> ho_a s = H_gone"
proof -
  have "ho_inv s" using assms(1)
  proof (rule ho.invariant)
    show "ho_inv s" if "ho_start s" for s using that by (simp add: ho_start_def ho_inv_def)
  qed (rule ho_inv_step)
  then show ?thesis using assms(2) by (simp add: ho_inv_def)
qed

text \<open>
  C36. With \<^verbatim>\<open>co_yield\<close> this fails: \<^verbatim>\<open>kill\<close> and the scheduler of another hart can resume the process between the
  release of its lock and the switch, from a context that has not been saved, while its old hart
  still executes it.
\<close>

theorem co_yield_two_harts:
  "\<exists>s. ho.reachable By_co_yield s \<and> ho_b s = K_run \<and> \<not> ho_saved s \<and> ho_a s = H_swtch"
proof -
  let ?s = "\<lambda>l p a b. \<lparr>ho_lock = l, ho_state = p, ho_saved = False, ho_a = a, ho_b = b\<rparr> :: ho_st" and ?r = "ho.reachable By_co_yield"
  have "?r (?s None RUNNING H_acquire K_acquire)" by (rule ho.reachable_start) (simp add: ho_start_def)
  from ho.reachable_step [OF this ho_co_yield [OF cl_acquire]] have "?r (?s (Some 0) RUNNING H_mark K_acquire)" by simp
  from ho.reachable_step [OF this ho_co_yield [OF cl_mark]] have "?r (?s (Some 0) SLEEPING H_release K_acquire)" by simp
  from ho.reachable_step [OF this ho_co_yield [OF cl_release]] have "?r (?s None SLEEPING H_swtch K_acquire)" by simp
  from ho.reachable_step [OF this ho_kill [OF k_acquire]] have "?r (?s (Some 1) SLEEPING H_swtch K_kill)" by simp
  from ho.reachable_step [OF this ho_kill [OF k_kill]] have "?r (?s (Some 1) RUNNABLE H_swtch K_release)" by simp
  from ho.reachable_step [OF this ho_kill [OF k_release]] have "?r (?s None RUNNABLE H_swtch K_sched)" by simp
  from ho.reachable_step [OF this ho_scheduler [OF k_sched]] have "?r (?s (Some 1) RUNNABLE H_swtch K_pick)" by simp
  from ho.reachable_step [OF this ho_scheduler [OF k_pick]] have "?r (?s (Some 1) RUNNING H_swtch K_run)" by simp
  then show ?thesis by (intro exI [of _ "?s (Some 1) RUNNING H_swtch K_run"]) simp
qed

definition ho_run :: ho_st where
  "ho_run = \<lparr>ho_lock = Some 1, ho_state = RUNNING, ho_saved = True, ho_a = H_gone, ho_b = K_run\<rparr>"

lemma ho_run_reachable: "ho.reachable By_sleep ho_run"
proof -
  let ?s = "\<lambda>l p v a b. \<lparr>ho_lock = l, ho_state = p, ho_saved = v, ho_a = a, ho_b = b\<rparr> :: ho_st" and ?r = "ho.reachable By_sleep"
  have "?r (?s None RUNNING False H_acquire K_acquire)" by (rule ho.reachable_start) (simp add: ho_start_def)
  from ho.reachable_step [OF this ho_sleep [OF sl_acquire]] have "?r (?s (Some 0) RUNNING False H_mark K_acquire)" by simp
  from ho.reachable_step [OF this ho_sleep [OF sl_mark]] have "?r (?s (Some 0) SLEEPING False H_swtch K_acquire)" by simp
  from ho.reachable_step [OF this ho_sleep [OF sl_swtch]] have "?r (?s (Some 0) SLEEPING True H_sched K_acquire)" by simp
  from ho.reachable_step [OF this ho_sleep [OF sl_sched]] have "?r (?s None SLEEPING True H_gone K_acquire)" by simp
  from ho.reachable_step [OF this ho_kill [OF k_acquire]] have "?r (?s (Some 1) SLEEPING True H_gone K_kill)" by simp
  from ho.reachable_step [OF this ho_kill [OF k_kill]] have "?r (?s (Some 1) RUNNABLE True H_gone K_release)" by simp
  from ho.reachable_step [OF this ho_kill [OF k_release]] have "?r (?s None RUNNABLE True H_gone K_sched)" by simp
  from ho.reachable_step [OF this ho_scheduler [OF k_sched]] have "?r (?s (Some 1) RUNNABLE True H_gone K_pick)" by simp
  from ho.reachable_step [OF this ho_scheduler [OF k_pick]] show ?thesis by (simp add: ho_run_def)
qed

theorem sleep_hands_over_witness: "ho_saved ho_run \<and> ho_a ho_run = H_gone"
  by (rule sleep_hands_over [OF ho_run_reachable]) (simp add: ho_run_def)

end
