(* ===== verification/Spec2Isabelle.thy ===== *)
theory Spec2Isabelle
  imports Trap Coroutine Usermem Printf Pipe_Ops Console_Ops Log_Ops Frames Grep Sh_Print Mkfs_Image Interleaving
begin

text \<open>
  A model of the xv6 kernel with the system calls \<^verbatim>\<open>memsize\<close> and \<^verbatim>\<open>co_yield\<close>.
\<close>

end
